(* ===== verification/HDK_Prelude.thy ===== *)
theory HDK_Prelude
  imports Main "HOL-Library.Word" "HOL-Library.Multiset" "HOL-Library.AList"
begin

text \<open>
  Shared vocabulary of the development: names for the machine types of the sources, the
  collections of simplification rules the component theories extend, and the generic lemmas
  on lists and integers that more than one component uses.
\<close>

section \<open>Machine types\<close>

type_synonym u8 = "8 word"
type_synonym u32 = "32 word"
type_synonym u64 = "64 word"

text \<open>\<open>ChunkKey\<close> of \<open>Shared/types.h\<close>: a vector of ints.\<close>

type_synonym ChunkKey = "int list"

section \<open>Collections\<close>

named_theorems layout_simps \<open>rules about the page layout of a slab\<close>

section \<open>Arithmetic\<close>

lemma ceil_div_mult:
  assumes "0 < (ps :: nat)"
  shows "n \<le> (n + ps - 1) div ps * ps"
proof -
  have "n + ps - 1 = (n + ps - 1) div ps * ps + (n + ps - 1) mod ps" by simp
  moreover have "(n + ps - 1) mod ps \<le> ps - 1" using assms by (simp add: less_Suc_eq_le [symmetric])
  ultimately show ?thesis using assms by linarith
qed

section \<open>Sets and lists\<close>

lemma disjoint_extend:
  "A' \<subseteq> A \<union> {x, y} \<Longrightarrow> A \<inter> B = {} \<Longrightarrow> x \<notin> B \<Longrightarrow> y \<notin> B \<Longrightarrow> A' \<inter> B = {}"
  by blast

lemma map_option_snd_Some: "map_option snd x = Some y \<longleftrightarrow> (\<exists>i. x = Some (i, y))"
  by (cases x) auto

lemma sum_list_map_split:
  "xs = as @ b # bs \<Longrightarrow> sum_list (map f xs) = sum_list (map f as) + f b + sum_list (map (f :: 'a \<Rightarrow> nat) bs)"
  by simp

lemma sum_list_update:
  fixes f :: "'a \<Rightarrow> nat"
  assumes "i < length xs" and "f y = f (xs ! i)"
  shows "sum_list (map f (xs[i := y])) = sum_list (map f xs)"
  using assms by (metis list_update_id map_update)


lemma distinct_map_mid: "distinct (map f (us @ x # vs)) \<Longrightarrow> \<forall>c \<in> set (us @ vs). f c \<noteq> f x"
  by (induction us) (auto simp: image_iff dest: sym)

lemma set_map_at:
  assumes "distinct (map f (as @ xs @ bs))" and "x \<in> set xs"
  shows "set (as @ map (\<lambda>c. if f c = f x then g c else c) xs @ bs) = insert (g x) (set (as @ xs @ bs) - {x})"
proof -
  from assms(2) obtain ys zs where xs: "xs = ys @ x # zs" by (auto dest: split_list)
  from assms(1) have "distinct (map f ((as @ ys) @ x # (zs @ bs)))" by (simp only: xs append_assoc append_Cons)
  then have ne: "\<forall>c \<in> set ((as @ ys) @ zs @ bs). f c \<noteq> f x" by (rule distinct_map_mid)
  then have out: "x \<notin> set ((as @ ys) @ zs @ bs)" by blast
  have "map (\<lambda>c. if f c = f x then g c else c) ys = ys" "map (\<lambda>c. if f c = f x then g c else c) zs = zs"
    using ne by (auto intro!: map_idI)
  then show ?thesis using out by (auto simp: xs)
qed

lemma find_distinct_iff:
  "distinct (map f xs) \<Longrightarrow> List.find (\<lambda>b. f b = i) xs = Some b \<longleftrightarrow> b \<in> set xs \<and> f b = i"
  by (induction xs) (auto simp: image_iff)

lemma find_None_iff_image: "List.find (\<lambda>b. f b = i) xs = None \<longleftrightarrow> i \<notin> f ` set xs"
  by (auto simp: find_None_iff)

lemma distinct_map_concat:
  assumes "\<forall>x < length ss. distinct (map f (ss ! x))"
    and "\<forall>x < length ss. \<forall>y < length ss. x \<noteq> y \<longrightarrow> f ` set (ss ! x) \<inter> f ` set (ss ! y) = {}"
  shows "distinct (map f (concat ss))"
  using assms
proof (induction ss)
  case (Cons a ss)
  have "distinct (map f (concat ss))"
  proof (rule Cons.IH)
    show "\<forall>x < length ss. distinct (map f (ss ! x))" using Cons.prems(1) by auto
    show "\<forall>x < length ss. \<forall>y < length ss. x \<noteq> y \<longrightarrow> f ` set (ss ! x) \<inter> f ` set (ss ! y) = {}"
      using Cons.prems(2) by (metis Suc_less_eq length_Cons nat.inject nth_Cons_Suc)
  qed
  moreover have "distinct (map f a)" using Cons.prems(1) by auto
  moreover have "f ` set a \<inter> f ` set (concat ss) = {}"
  proof -
    have "f ` set a \<inter> f ` set (ss ! y) = {}" if "y < length ss" for y
      using Cons.prems(2) that by (metis Suc_less_eq length_Cons nat.distinct(1) nth_Cons_0 nth_Cons_Suc zero_less_Suc)
    then show ?thesis by (fastforce simp: in_set_conv_nth)
  qed
  ultimately show ?case by auto
qed simp

lemma map_of_distinct_iff:
  "distinct (map fst xs) \<Longrightarrow> map_of xs k = Some v \<longleftrightarrow> (k, v) \<in> set xs"
  by (auto dest: map_of_SomeD)

lemma set_AList_delete: "set (AList.delete k xs) = {(a, b). (a, b) \<in> set xs \<and> a \<noteq> k}"
  by (auto simp: AList.delete_eq)

lemma set_AList_update:
  "distinct (map fst xs) \<Longrightarrow>
     set (AList.update k v xs) = insert (k, v) {(a, b). (a, b) \<in> set xs \<and> a \<noteq> k}"
  by (induction xs) (auto simp: image_iff)

lemma length_AList_delete:
  "distinct (map fst xs) \<Longrightarrow> map_of xs k \<noteq> None \<Longrightarrow> length xs = Suc (length (AList.delete k xs))"
proof (induction xs)
  case (Cons x xs)
  show ?case
  proof (cases "fst x = k")
    case True
    with Cons.prems(1) have "k \<notin> fst ` set xs" by simp
    then have "AList.delete k xs = xs" by (force simp: AList.delete_eq filter_id_conv)
    with True show ?thesis by (cases x) (simp add: AList.delete_eq)
  next
    case False
    with Cons show ?thesis by (cases x) (simp add: AList.delete_eq)
  qed
qed simp

end
