(* ===== verification/Slab_Segments.thy ===== *)
theory Slab_Segments
  imports HDK_Prelude
begin

text \<open>
  The segment list of one slab of the buffer pool (\<open>DataMgr/BufferMgr/BufferSeg.h\<close> and the
  list surgery of \<open>DataMgr/BufferMgr/BufferMgr.cpp\<close>). A slab is a run of pages cut into
  segments, each free or used. The operations here are the bodies of
  \<open>findFreeBufferInSlab\<close>, \<open>evict\<close>, \<open>removeSegment\<close> and the in-place growth of
  \<open>reserveBuffer\<close>, seen as functions on that one list; \<open>Buffer_Mgr\<close> runs them on the pool.
\<close>

section \<open>Segments\<close>

datatype MemStatus = FREE | USED

lemma not_FREE [simp]: "(s \<noteq> FREE) = (s = USED)" and not_USED [simp]: "(s \<noteq> USED) = (s = FREE)"
  by (cases s; simp)+

text \<open>
  \<open>struct BufferSeg\<close>. The extra field \<open>seg_id\<close> is the identity of the list node, which is
  what a \<open>BufferList::iterator\<close> denotes: \<open>std::list\<close> keeps it through every insertion and
  erasure of other nodes.
\<close>

record BufferSeg =
  seg_id :: nat
  start_page :: int
  num_pages :: nat
  mem_status :: MemStatus
  seg_buffer :: "nat option"
  chunk_key :: ChunkKey
  seg_pin_count :: u32
  slab_num :: int
  last_touched :: u32

definition mk_seg :: "nat \<Rightarrow> int \<Rightarrow> nat \<Rightarrow> MemStatus \<Rightarrow> u32 \<Rightarrow> BufferSeg" where
  "mk_seg i sp np st lt =
     \<lparr>seg_id = i, start_page = sp, num_pages = np, mem_status = st, seg_buffer = None,
      chunk_key = [], seg_pin_count = 0, slab_num = -1, last_touched = lt\<rparr>"

lemma mk_seg_simps [simp]:
  "seg_id (mk_seg i sp np st lt) = i"
  "start_page (mk_seg i sp np st lt) = sp"
  "num_pages (mk_seg i sp np st lt) = np"
  "mem_status (mk_seg i sp np st lt) = st"
  "seg_buffer (mk_seg i sp np st lt) = None"
  "chunk_key (mk_seg i sp np st lt) = []"
  "slab_num (mk_seg i sp np st lt) = -1"
  "last_touched (mk_seg i sp np st lt) = lt"
  by (simp_all add: mk_seg_def)

section \<open>Layout\<close>

text \<open>
  \<open>layout p segs\<close>: the segments tile the pages from \<open>p\<close> on without gap or overlap.
\<close>

fun layout :: "int \<Rightarrow> BufferSeg list \<Rightarrow> bool" where
  "layout p [] = True"
| "layout p (b # bs) = (start_page b = p \<and> layout (p + int (num_pages b)) bs)"

definition total_pages :: "BufferSeg list \<Rightarrow> nat" where
  "total_pages bs = sum_list (map num_pages bs)"

text \<open>No two neighbouring segments are both free: freeing always coalesces.\<close>

fun coalesced :: "BufferSeg list \<Rightarrow> bool" where
  "coalesced (a # b # bs) =
     (\<not> (mem_status a = FREE \<and> mem_status b = FREE) \<and> coalesced (b # bs))"
| "coalesced _ = True"

lemma total_pages_simps [layout_simps, simp]:
  "total_pages [] = 0"
  "total_pages (b # bs) = num_pages b + total_pages bs"
  "total_pages (as @ bs) = total_pages as + total_pages bs"
  by (simp_all add: total_pages_def)

lemma layout_append [layout_simps, simp]:
  "layout p (as @ bs) = (layout p as \<and> layout (p + int (total_pages as)) bs)"
  by (induction as arbitrary: p) (auto simp: algebra_simps)

lemma coalesced_Cons_iff:
  "coalesced (b # bs) =
     (coalesced bs \<and> (bs \<noteq> [] \<longrightarrow> \<not> (mem_status b = FREE \<and> mem_status (hd bs) = FREE)))"
  by (cases bs) auto

lemma coalesced_append:
  "coalesced (as @ bs) =
     (coalesced as \<and> coalesced bs \<and>
      (as \<noteq> [] \<longrightarrow> bs \<noteq> [] \<longrightarrow> \<not> (mem_status (last as) = FREE \<and> mem_status (hd bs) = FREE)))"
  by (induction as) (auto simp: coalesced_Cons_iff)

section \<open>Finding a free segment\<close>

text \<open>
  The loop of \<open>BufferMgr::findFreeBufferInSlab\<close>: the first free segment with enough pages is
  taken, and what it has too many becomes a new free segment right behind it. \<open>ep\<close> is the
  value of \<open>buffer_epoch_\<close>, \<open>fresh\<close> the identity of the node an insertion makes. \<open>None\<close> is
  the end iterator.
\<close>

fun find_free :: "nat \<Rightarrow> u32 \<Rightarrow> int \<Rightarrow> nat \<Rightarrow> BufferSeg list \<Rightarrow> (nat \<times> BufferSeg list) option" where
  "find_free req ep sn fresh [] = None"
| "find_free req ep sn fresh (b # bs) =
     (if mem_status b = FREE \<and> req \<le> num_pages b then
        let excess = num_pages b - req;
            b' = b\<lparr>num_pages := req, mem_status := USED, last_touched := ep, slab_num := sn\<rparr>
        in Some (seg_id b,
                 if 0 < excess
                 then b' # mk_seg fresh (start_page b + int req) excess FREE 0 # bs
                 else b' # bs)
      else map_option (\<lambda>(i, l). (i, b # l)) (find_free req ep sn fresh bs))"

section \<open>Evicting a run of segments\<close>

text \<open>
  The \<open>while\<close> loop of \<open>BufferMgr::evict\<close>: segments are unlinked from \<open>evict_it\<close> on until
  they hold the pages asked for. The result is the number of pages gained, the segments
  unlinked and the rest of the list; \<open>None\<close> is the loop running into the end iterator, which
  the source does not test.
\<close>

fun take_evict ::
  "nat \<Rightarrow> nat \<Rightarrow> BufferSeg list \<Rightarrow> (nat \<times> BufferSeg list \<times> BufferSeg list) option" where
  "take_evict req n [] = (if n < req then None else Some (n, [], []))"
| "take_evict req n (b # bs) =
     (if n < req
      then map_option (\<lambda>(m, ev, r). (m, b # ev, r)) (take_evict req (n + num_pages b) bs)
      else Some (n, [], b # bs))"

text \<open>
  The rest of \<open>evict\<close>: the new used segment, then the pages gained in excess, merged into a
  following free segment or made into a free segment of their own.
\<close>

definition evict_tail ::
  "nat \<Rightarrow> u32 \<Rightarrow> int \<Rightarrow> nat \<Rightarrow> BufferSeg list \<Rightarrow> (BufferSeg list \<times> BufferSeg list) option" where
  "evict_tail req ep sn fresh segs =
     (case segs of [] \<Rightarrow> None
      | b0 # _ \<Rightarrow>
        (case take_evict req 0 segs of None \<Rightarrow> None
         | Some (n, ev, rest) \<Rightarrow>
           let sp = start_page b0;
               d = (mk_seg fresh sp req USED ep)\<lparr>slab_num := sn\<rparr>;
               free_seg = mk_seg (Suc fresh) (sp + int req) (n - req) FREE 0
           in Some (ev,
                d # (if req < n then
                       (case rest of [] \<Rightarrow> [free_seg]
                        | r # rs \<Rightarrow>
                          if mem_status r = FREE
                          then r\<lparr>start_page := sp + int req, num_pages := num_pages r + (n - req)\<rparr> # rs
                          else free_seg # r # rs)
                     else rest))))"

fun evict_at ::
  "nat \<Rightarrow> nat \<Rightarrow> u32 \<Rightarrow> int \<Rightarrow> nat \<Rightarrow> BufferSeg list \<Rightarrow> (BufferSeg list \<times> BufferSeg list) option" where
  "evict_at i req ep sn fresh [] = None"
| "evict_at i req ep sn fresh (b # bs) =
     (if seg_id b = i then evict_tail req ep sn fresh (b # bs)
      else map_option (\<lambda>(ev, l). (ev, b # l)) (evict_at i req ep sn fresh bs))"

section \<open>Freeing a segment\<close>

text \<open>
  The slab branch of \<open>BufferMgr::removeSegment\<close>. \<open>free_here\<close> is its second half, from
  \<open>std::next\<close> on; \<open>remove_seg\<close> looks the node up and does the merge with its predecessor.
\<close>

definition free_here :: "BufferSeg \<Rightarrow> BufferSeg list \<Rightarrow> BufferSeg list" where
  "free_here s rest =
     (case rest of [] \<Rightarrow> [s\<lparr>mem_status := FREE, seg_buffer := None\<rparr>]
      | n # ns \<Rightarrow>
        if mem_status n = FREE
        then s\<lparr>num_pages := num_pages s + num_pages n, mem_status := FREE, seg_buffer := None\<rparr> # ns
        else s\<lparr>mem_status := FREE, seg_buffer := None\<rparr> # n # ns)"

fun remove_seg :: "nat \<Rightarrow> BufferSeg list \<Rightarrow> BufferSeg list" where
  "remove_seg i [] = []"
| "remove_seg i [a] = (if seg_id a = i then free_here a [] else [a])"
| "remove_seg i (a # b # bs) =
     (if seg_id a = i then free_here a (b # bs)
      else if seg_id b = i then
        (if mem_status a = FREE
         then free_here (b\<lparr>start_page := start_page a, num_pages := num_pages b + num_pages a\<rparr>) bs
         else a # free_here b bs)
      else a # remove_seg i (b # bs))"

section \<open>Growing a segment in place\<close>

text \<open>
  The branch of \<open>BufferMgr::reserveBuffer\<close> that takes the missing pages from a free segment
  right behind the buffer's own; the free segment stays, possibly with no page left.
\<close>

fun grow_in_place :: "nat \<Rightarrow> nat \<Rightarrow> BufferSeg list \<Rightarrow> BufferSeg list option" where
  "grow_in_place i req (s # n # rest) =
     (if seg_id s = i then
        (if mem_status n = FREE \<and> req - num_pages s \<le> num_pages n
         then Some (s\<lparr>num_pages := req\<rparr> #
                    n\<lparr>num_pages := num_pages n - (req - num_pages s),
                      start_page := start_page s + int req\<rparr> # rest)
         else None)
      else map_option ((#) s) (grow_in_place i req (n # rest)))"
| "grow_in_place i req _ = None"

section \<open>Layout is kept\<close>

lemma find_free_layout:
  "find_free req ep sn fresh bs = Some (i, bs') \<Longrightarrow> layout p bs \<Longrightarrow>
     layout p bs' \<and> total_pages bs' = total_pages bs"
  by (induction bs arbitrary: p bs') (auto simp: Let_def algebra_simps split: if_splits)

lemma find_free_coalesced:
  "find_free req ep sn fresh bs = Some (i, bs') \<Longrightarrow> coalesced bs \<Longrightarrow>
     coalesced bs' \<and> (bs' \<noteq> [] \<and> (mem_status (hd bs') = FREE \<longrightarrow> mem_status (hd bs) = FREE))"
  by (induction bs arbitrary: bs') (auto simp: Let_def coalesced_Cons_iff split: if_splits)

lemma take_evict_Some:
  "take_evict req n bs = Some (m, ev, r) \<Longrightarrow> bs = ev @ r \<and> m = n + total_pages ev \<and> req \<le> m"
  by (induction bs arbitrary: n m ev r) (fastforce split: if_splits)+

lemma evict_tail_layout:
  assumes "evict_tail req ep sn fresh bs = Some (ev, bs')" and "layout p bs"
  shows "layout p bs' \<and> total_pages bs' = total_pages bs"
proof -
  from assms obtain b0 bt m r where bs: "bs = b0 # bt"
    and te: "take_evict req 0 bs = Some (m, ev, r)"
    by (auto simp: evict_tail_def Let_def split: list.splits option.splits)
  from take_evict_Some [OF te] have split: "bs = ev @ r" "m = total_pages ev" "req \<le> m" by auto
  from assms(2) bs have sp: "start_page b0 = p" by simp
  from assms(2) split have lr: "layout (p + int m) r" by simp
  have "total_pages bs = m + total_pages r" using split by simp
  then show ?thesis using assms(1) te lr sp split(3) bs
    by (auto simp: evict_tail_def Let_def algebra_simps split: list.splits if_splits)
qed

lemma evict_tail_coalesced:
  assumes "evict_tail req ep sn fresh bs = Some (ev, bs')" and "coalesced bs"
  shows "coalesced bs' \<and> bs' \<noteq> [] \<and> mem_status (hd bs') = USED"
proof -
  from assms obtain b0 bt m r where bs: "bs = b0 # bt"
    and te: "take_evict req 0 bs = Some (m, ev, r)"
    by (auto simp: evict_tail_def Let_def split: list.splits option.splits)
  from take_evict_Some [OF te] assms(2) have "coalesced r" by (auto simp: coalesced_append)
  then show ?thesis using assms(1) te bs
    by (auto simp: evict_tail_def Let_def coalesced_Cons_iff split: list.splits if_splits)
qed

lemma evict_at_layout:
  "evict_at i req ep sn fresh bs = Some (ev, bs') \<Longrightarrow> layout p bs \<Longrightarrow>
     layout p bs' \<and> total_pages bs' = total_pages bs"
proof (induction bs arbitrary: p bs')
  case (Cons b bs)
  show ?case
  proof (cases "seg_id b = i")
    case True
    then show ?thesis using Cons.prems by (auto dest: evict_tail_layout)
  next
    case False
    then show ?thesis using Cons by auto
  qed
qed simp

lemma evict_at_coalesced:
  "evict_at i req ep sn fresh bs = Some (ev, bs') \<Longrightarrow> coalesced bs \<Longrightarrow>
     coalesced bs' \<and> (bs' \<noteq> [] \<and> (mem_status (hd bs') = FREE \<longrightarrow> mem_status (hd bs) = FREE))"
proof (induction bs arbitrary: bs')
  case (Cons b bs)
  show ?case
  proof (cases "seg_id b = i")
    case True
    then show ?thesis using Cons.prems evict_tail_coalesced by fastforce
  next
    case False
    then show ?thesis using Cons by (auto simp: coalesced_Cons_iff)
  qed
qed simp

lemma free_here_layout:
  "layout p (s # rest) \<Longrightarrow>
     layout p (free_here s rest) \<and> total_pages (free_here s rest) = num_pages s + total_pages rest"
  by (auto simp: free_here_def algebra_simps split: list.splits)

lemma free_here_coalesced:
  "coalesced rest \<Longrightarrow> coalesced (free_here s rest) \<and> free_here s rest \<noteq> []"
  by (auto simp: free_here_def coalesced_Cons_iff split: list.splits)

lemma remove_seg_layout:
  "layout p bs \<Longrightarrow> layout p (remove_seg i bs) \<and> total_pages (remove_seg i bs) = total_pages bs"
proof (induction i bs arbitrary: p rule: remove_seg.induct)
  case (3 i a b bs)
  let ?b = "b\<lparr>start_page := start_page a, num_pages := num_pages b + num_pages a\<rparr>"
  from "3.prems" have merged: "layout p (?b # bs)" by (simp add: algebra_simps)
  from "3" free_here_layout [OF "3.prems"] free_here_layout [OF merged]
    free_here_layout [of "p + int (num_pages a)" b bs]
  show ?case by auto
qed (use free_here_layout in auto)

lemma remove_seg_coalesced:
  "coalesced bs \<Longrightarrow> coalesced (remove_seg i bs) \<and> (remove_seg i bs = [] \<longleftrightarrow> bs = []) \<and>
     (bs \<noteq> [] \<longrightarrow> seg_id (hd bs) \<noteq> i \<longrightarrow> mem_status (hd bs) = USED \<longrightarrow>
        hd (remove_seg i bs) = hd bs)"
proof (induction i bs rule: remove_seg.induct)
  case (3 i a b bs)
  then have "coalesced (b # bs)" "coalesced bs" by (auto simp: coalesced_Cons_iff)
  with "3" free_here_coalesced [of bs] free_here_coalesced [of "b # bs"]
  show ?case by (auto simp: coalesced_Cons_iff hd_append)
qed (use free_here_coalesced in auto)

lemma grow_in_place_layout:
  "grow_in_place i req bs = Some bs' \<Longrightarrow> layout p bs \<Longrightarrow>
     (\<And>s. s \<in> set bs \<Longrightarrow> seg_id s = i \<Longrightarrow> num_pages s \<le> req) \<Longrightarrow>
     layout p bs' \<and> total_pages bs' = total_pages bs"
proof (induction i req bs arbitrary: p bs' rule: grow_in_place.induct)
  case (1 i req s n rest)
  then show ?case by (fastforce simp: algebra_simps split: if_splits)
qed simp_all

lemma grow_in_place_coalesced:
  "grow_in_place i req bs = Some bs' \<Longrightarrow> coalesced bs \<Longrightarrow>
     coalesced bs' \<and> map mem_status bs' = map mem_status bs"
  by (induction i req bs arbitrary: bs' rule: grow_in_place.induct)
    (auto simp: coalesced_Cons_iff split: if_splits)

section \<open>The used segments of a slab\<close>

text \<open>
  The abstract view of a slab: its used segments in page order. Every operation is a plain
  list operation on this view, whatever it does to the free segments in between.
\<close>

definition used :: "BufferSeg list \<Rightarrow> BufferSeg list" where
  "used bs = filter (\<lambda>b. mem_status b = USED) bs"

lemma used_simps [simp]:
  "used [] = []"
  "used (b # bs) = (if mem_status b = USED then b # used bs else used bs)"
  "used (as @ bs) = used as @ used bs"
  by (simp_all add: used_def)

lemma used_concat: "used (concat bss) = concat (map used bss)"
  by (induction bss) simp_all

lemma set_used: "set (used bs) = {b \<in> set bs. mem_status b = USED}"
  by (simp add: used_def)

lemma find_free_used:
  "find_free req ep sn fresh bs = Some (i, bs') \<Longrightarrow>
     \<exists>xs f ys. used bs = xs @ ys \<and> f \<in> set bs \<and> mem_status f = FREE \<and> seg_id f = i \<and>
       req \<le> num_pages f \<and>
       used bs' = xs @ f\<lparr>num_pages := req, mem_status := USED, last_touched := ep, slab_num := sn\<rparr> # ys"
proof (induction bs arbitrary: bs')
  case (Cons b bs)
  show ?case
  proof (cases "mem_status b = FREE \<and> req \<le> num_pages b")
    case True
    with Cons.prems have
      "used bs' = [] @ b\<lparr>num_pages := req, mem_status := USED, last_touched := ep, slab_num := sn\<rparr> # used bs"
      and "i = seg_id b"
      by (auto simp: Let_def split: if_splits)
    moreover have "used (b # bs) = [] @ used bs" using True by auto
    ultimately show ?thesis using True by (metis list.set_intros(1))
  next
    case False
    with Cons.prems obtain bs2 where rec: "find_free req ep sn fresh bs = Some (i, bs2)"
      and bs': "bs' = b # bs2" by auto
    from Cons.IH [OF rec] obtain xs f ys where IH: "used bs = xs @ ys" "f \<in> set bs"
      "mem_status f = FREE" "seg_id f = i" "req \<le> num_pages f"
      "used bs2 = xs @ f\<lparr>num_pages := req, mem_status := USED, last_touched := ep, slab_num := sn\<rparr> # ys"
      by blast
    have "used (b # bs) = used [b] @ used bs" and "used bs' = used [b] @ used bs2"
      by (simp_all add: bs')
    with IH show ?thesis by (metis append.assoc list.set_intros(2))
  qed
qed simp

text \<open>A successful \<open>find_free\<close> is what any free segment of sufficient size guarantees.\<close>

lemma find_free_None_iff:
  "find_free req ep sn fresh bs = None \<longleftrightarrow>
     (\<forall>b \<in> set bs. mem_status b = FREE \<longrightarrow> num_pages b < req)"
  by (induction bs) (auto simp: Let_def not_le)

definition evicted_seg :: "nat \<Rightarrow> u32 \<Rightarrow> int \<Rightarrow> nat \<Rightarrow> int \<Rightarrow> BufferSeg" where
  "evicted_seg req ep sn fresh sp = (mk_seg fresh sp req USED ep)\<lparr>slab_num := sn\<rparr>"

lemma evicted_seg_simps [simp]:
  "seg_id (evicted_seg req ep sn fresh sp) = fresh"
  "start_page (evicted_seg req ep sn fresh sp) = sp"
  "num_pages (evicted_seg req ep sn fresh sp) = req"
  "mem_status (evicted_seg req ep sn fresh sp) = USED"
  "seg_buffer (evicted_seg req ep sn fresh sp) = None"
  "slab_num (evicted_seg req ep sn fresh sp) = sn"
  "last_touched (evicted_seg req ep sn fresh sp) = ep"
  by (simp_all add: evicted_seg_def)

lemma evict_at_used:
  "evict_at i req ep sn fresh bs = Some (ev, bs') \<Longrightarrow>
     \<exists>pre post sp. bs = pre @ ev @ post \<and> req \<le> total_pages ev \<and>
       used bs' = used pre @ evicted_seg req ep sn fresh sp # used post"
proof (induction bs arbitrary: bs')
  case (Cons b bs)
  show ?case
  proof (cases "seg_id b = i")
    case True
    with Cons.prems obtain m r where te: "take_evict req 0 (b # bs) = Some (m, ev, r)"
      by (auto simp: evict_tail_def Let_def split: option.splits)
    from take_evict_Some [OF te] have split: "b # bs = [] @ ev @ r" "req \<le> total_pages ev" by auto
    moreover have "used bs' = used [] @ evicted_seg req ep sn fresh (start_page b) # used r"
      using Cons.prems True te
      by (auto simp: evict_tail_def evicted_seg_def Let_def split: list.splits if_splits)
    ultimately show ?thesis by blast
  next
    case False
    with Cons.prems obtain bs2 where rec: "evict_at i req ep sn fresh bs = Some (ev, bs2)"
      and bs': "bs' = b # bs2" by auto
    from Cons.IH [OF rec] obtain pre post sp where IH: "bs = pre @ ev @ post"
      "req \<le> total_pages ev" "used bs2 = used pre @ evicted_seg req ep sn fresh sp # used post"
      by blast
    have "b # bs = (b # pre) @ ev @ post" using IH(1) by simp
    moreover have "used bs' = used (b # pre) @ evicted_seg req ep sn fresh sp # used post"
      using IH(3) bs' by simp
    ultimately show ?thesis using IH(2) by blast
  qed
qed simp

lemma free_here_used: "used (free_here s rest) = used rest"
  by (auto simp: free_here_def split: list.splits)

lemma remove_seg_used:
  "distinct (map seg_id bs) \<Longrightarrow> used (remove_seg i bs) = filter (\<lambda>b. seg_id b \<noteq> i) (used bs)"
proof (induction i bs rule: remove_seg.induct)
  case (3 i a b bs)
  then have "seg_id b = i \<Longrightarrow> i \<notin> set (map seg_id bs)"
    and "seg_id a = i \<Longrightarrow> i \<notin> set (map seg_id (b # bs))" by auto
  then have "seg_id b = i \<Longrightarrow> filter (\<lambda>b. seg_id b \<noteq> i) (used bs) = used bs"
    and "seg_id a = i \<Longrightarrow> filter (\<lambda>b. seg_id b \<noteq> i) (used (b # bs)) = used (b # bs)"
    by (auto simp: filter_id_conv set_used image_iff)
  with "3" show ?case by (auto simp: free_here_used)
qed (auto simp: free_here_used)

lemma grow_in_place_used:
  "grow_in_place i req bs = Some bs' \<Longrightarrow> distinct (map seg_id bs) \<Longrightarrow>
     used bs' = map (\<lambda>b. if seg_id b = i then b\<lparr>num_pages := req\<rparr> else b) (used bs)"
proof (induction i req bs arbitrary: bs' rule: grow_in_place.induct)
  case (1 i req s n rest)
  show ?case
  proof (cases "seg_id s = i")
    case True
    with "1.prems" have "map (\<lambda>b. if seg_id b = i then b\<lparr>num_pages := req\<rparr> else b) (used rest) = used rest"
      by (intro map_idI) (auto simp: set_used image_iff)
    with "1.prems" True show ?thesis by (auto split: if_splits)
  next
    case False
    with "1" show ?thesis by auto
  qed
qed simp_all

section \<open>Disjointness\<close>

definition seg_pages :: "BufferSeg \<Rightarrow> int set" where
  "seg_pages b = {start_page b ..< start_page b + int (num_pages b)}"

lemma layout_bounds:
  "layout p bs \<Longrightarrow> b \<in> set bs \<Longrightarrow>
     p \<le> start_page b \<and> start_page b + int (num_pages b) \<le> p + int (total_pages bs)"
  by (induction bs arbitrary: p) fastforce+

lemma layout_disjoint:
  assumes "layout p (xs @ a # ys @ b # zs)"
  shows "seg_pages a \<inter> seg_pages b = {}"
proof -
  from assms have "layout (start_page a + int (num_pages a)) (ys @ b # zs)" by auto
  then have "start_page a + int (num_pages a) \<le> start_page b"
    using layout_bounds [of _ "ys @ b # zs" b] by simp
  then show ?thesis by (auto simp: seg_pages_def)
qed

section \<open>Nodes\<close>

definition ids :: "BufferSeg list \<Rightarrow> nat set" where
  "ids bs = seg_id ` set bs"

lemma ids_simps [simp]:
  "ids [] = {}" "ids (b # bs) = insert (seg_id b) (ids bs)" "ids (as @ bs) = ids as \<union> ids bs"
  by (auto simp: ids_def)

text \<open>
  \<open>nodes n k bs\<close>: what holds of the list nodes of slab \<open>k\<close> when \<open>n\<close> nodes were made so far.
  A free segment has no buffer, and a used one knows its slab.
\<close>

definition nodes :: "nat \<Rightarrow> int \<Rightarrow> BufferSeg list \<Rightarrow> bool" where
  "nodes n k bs \<longleftrightarrow>
     distinct (map seg_id bs) \<and> (\<forall>b \<in> set bs. seg_id b < n) \<and>
     (\<forall>b \<in> set bs. mem_status b = FREE \<longrightarrow> seg_buffer b = None) \<and>
     (\<forall>b \<in> set bs. mem_status b = USED \<longrightarrow> slab_num b = k)"

lemma nodes_Cons:
  "nodes n k (b # bs) \<longleftrightarrow>
     nodes n k bs \<and> seg_id b < n \<and> seg_id b \<notin> ids bs \<and>
     (mem_status b = FREE \<longrightarrow> seg_buffer b = None) \<and> (mem_status b = USED \<longrightarrow> slab_num b = k)"
  by (auto simp: nodes_def ids_def)

lemma nodes_Nil [simp]: "nodes n k []"
  by (simp add: nodes_def)

lemma nodes_append:
  "nodes n k (as @ bs) \<longleftrightarrow> nodes n k as \<and> nodes n k bs \<and> ids as \<inter> ids bs = {}"
  by (induction as) (auto simp: nodes_Cons)

lemma nodes_mono: "nodes n k bs \<Longrightarrow> n \<le> m \<Longrightarrow> nodes m k bs"
  by (auto simp: nodes_def intro: less_le_trans)

lemma nodes_id_less: "nodes n k bs \<Longrightarrow> i \<in> ids bs \<Longrightarrow> i < n"
  by (auto simp: nodes_def ids_def)

lemma find_free_nodes:
  "find_free req ep k n bs = Some (i, bs') \<Longrightarrow> nodes n k bs \<Longrightarrow>
     nodes (n + 2) k bs' \<and> ids bs' \<subseteq> ids bs \<union> {n, n + 1}"
proof (induction bs arbitrary: bs')
  case (Cons b bs)
  show ?case
  proof (cases "mem_status b = FREE \<and> req \<le> num_pages b")
    case True
    have "nodes (n + 2) k bs" "n \<notin> ids bs" "n \<noteq> seg_id b" "seg_id b < n + 2"
      using Cons.prems(2) by (auto simp: nodes_Cons intro: nodes_mono dest: nodes_id_less)
    with True Cons.prems show ?thesis by (auto simp: Let_def nodes_Cons split: if_splits)
  next
    case False
    with Cons.prems obtain bs2 where rec: "find_free req ep k n bs = Some (i, bs2)"
      and bs': "bs' = b # bs2" by auto
    with Cons have "nodes (n + 2) k bs2" "ids bs2 \<subseteq> ids bs \<union> {n, n + 1}"
      by (auto simp: nodes_Cons)
    with Cons.prems(2) bs' show ?thesis by (auto simp: nodes_Cons)
  qed
qed simp

lemma evict_tail_nodes:
  assumes "evict_tail req ep k n bs = Some (ev, bs')" and "nodes n k bs"
  shows "nodes (n + 2) k bs' \<and> ids bs' \<subseteq> ids bs \<union> {n, n + 1}"
proof -
  from assms(1) obtain b0 bt m r where bs: "bs = b0 # bt"
    and te: "take_evict req 0 bs = Some (m, ev, r)"
    by (auto simp: evict_tail_def Let_def split: list.splits option.splits)
  from take_evict_Some [OF te] have split: "bs = ev @ r" by auto
  with assms(2) have r: "nodes n k r" "ids r \<subseteq> ids bs" by (auto simp: nodes_append)
  from r(1) have fresh: "n \<notin> ids r" "Suc n \<notin> ids r" by (auto dest: nodes_id_less)
  from r(1) have r2: "nodes (n + 2) k r" by (rule nodes_mono) simp
  have nodes_d: "nodes (n + 2) k (evicted_seg req ep k n sp # l)"
    if "nodes (n + 2) k l" "n \<notin> ids l" for sp l
    using that by (simp add: nodes_Cons)
  have nodes_f: "nodes (n + 2) k (mk_seg (Suc n) sp np FREE 0 # r)" for sp np
    using r2 fresh by (simp add: nodes_Cons)
  show ?thesis
  proof (cases "req < m")
    case False
    with assms(1) te bs have "bs' = evicted_seg req ep k n (start_page b0) # r"
      by (simp add: evict_tail_def evicted_seg_def Let_def)
    with nodes_d [OF r2 fresh(1)] r(2) show ?thesis by auto
  next
    case True
    show ?thesis
    proof (cases r)
      case Nil
      with True assms(1) te bs nodes_f nodes_d [of "[mk_seg (Suc n) (start_page b0 + int req) (m - req) FREE 0]"]
      show ?thesis by (auto simp: evict_tail_def Let_def simp flip: evicted_seg_def)
    next
      case (Cons q qs)
      let ?q = "q\<lparr>start_page := start_page b0 + int req, num_pages := num_pages q + (m - req)\<rparr>"
      let ?f = "mk_seg (Suc n) (start_page b0 + int req) (m - req) FREE 0"
      have nq: "nodes (n + 2) k (?q # qs)" using r2 Cons by (simp add: nodes_Cons)
      have nfresh: "n \<notin> ids (?q # qs)" "n \<notin> ids (?f # r)" using fresh Cons by auto
      have "bs' = evicted_seg req ep k n (start_page b0) # (if mem_status q = FREE then ?q # qs else ?f # r)"
        using True assms(1) te bs Cons by (auto simp: evict_tail_def evicted_seg_def Let_def)
      moreover have "ids (?q # qs) \<subseteq> ids bs" "ids (?f # r) \<subseteq> ids bs \<union> {n + 1}"
        using r(2) Cons by auto
      ultimately show ?thesis
        using nodes_d [OF nq nfresh(1)] nodes_d [OF nodes_f nfresh(2)] by (auto split: if_splits)
    qed
  qed
qed

lemma evict_at_nodes:
  "evict_at i req ep k n bs = Some (ev, bs') \<Longrightarrow> nodes n k bs \<Longrightarrow>
     nodes (n + 2) k bs' \<and> ids bs' \<subseteq> ids bs \<union> {n, n + 1}"
proof (induction bs arbitrary: bs')
  case (Cons b bs)
  show ?case
  proof (cases "seg_id b = i")
    case True
    with Cons.prems show ?thesis using evict_tail_nodes [of req ep k n "b # bs" ev bs'] by simp
  next
    case False
    with Cons.prems obtain bs2 where rec: "evict_at i req ep k n bs = Some (ev, bs2)"
      and bs': "bs' = b # bs2" by auto
    with Cons have "nodes (n + 2) k bs2" "ids bs2 \<subseteq> ids bs \<union> {n, n + 1}"
      by (auto simp: nodes_Cons)
    with Cons.prems(2) bs' show ?thesis by (auto simp: nodes_Cons)
  qed
qed simp

lemma free_here_nodes:
  "nodes n k (s # rest) \<Longrightarrow>
     nodes n k (free_here s rest) \<and> ids (free_here s rest) \<subseteq> ids (s # rest)"
  by (auto simp: free_here_def nodes_Cons split: list.splits)

lemma remove_seg_nodes:
  "nodes n k bs \<Longrightarrow> nodes n k (remove_seg i bs) \<and> ids (remove_seg i bs) \<subseteq> ids bs"
proof (induction i bs rule: remove_seg.induct)
  case (2 i a)
  then show ?case using free_here_nodes [of n k a "[]"] by auto
next
  case (3 i a b bs)
  let ?b = "b\<lparr>start_page := start_page a, num_pages := num_pages b + num_pages a\<rparr>"
  from "3.prems" have tl: "nodes n k (b # bs)" "nodes n k (?b # bs)" by (auto simp: nodes_Cons)
  from "3" free_here_nodes [OF "3.prems"] free_here_nodes [OF tl(1)] free_here_nodes [OF tl(2)]
  show ?case by (auto simp: nodes_Cons)
qed simp

lemma grow_in_place_nodes:
  "grow_in_place i req bs = Some bs' \<Longrightarrow> nodes n k bs \<Longrightarrow>
     nodes n k bs' \<and> ids bs' = ids bs"
  by (induction i req bs arbitrary: bs' rule: grow_in_place.induct)
    (fastforce simp: nodes_Cons split: if_splits)+

section \<open>The pool of slabs\<close>

definition pool_ok :: "BufferSeg list list \<Rightarrow> bool" where
  "pool_ok ss \<longleftrightarrow> (\<forall>bs \<in> set ss. layout 0 bs \<and> coalesced bs)"

definition pool_pages :: "BufferSeg list list \<Rightarrow> nat" where
  "pool_pages ss = sum_list (map total_pages ss)"

definition pool_nodes :: "nat \<Rightarrow> BufferSeg list list \<Rightarrow> bool" where
  "pool_nodes n ss \<longleftrightarrow>
     (\<forall>x < length ss. nodes n (int x) (ss ! x)) \<and>
     (\<forall>x < length ss. \<forall>y < length ss. x \<noteq> y \<longrightarrow> ids (ss ! x) \<inter> ids (ss ! y) = {})"

text \<open>
  The contract of an operation on one slab: whenever it applies, under its precondition, the
  slab it makes is laid out over the same pages and is coalesced. Every client that runs such
  an operation on a slab of the pool keeps the pool in shape.
\<close>

locale slab_op =
  fixes pre :: "BufferSeg list \<Rightarrow> bool"
    and slab_fun :: "BufferSeg list \<Rightarrow> BufferSeg list option"
    and n :: nat
    and k :: int
  assumes keeps_layout:
      "slab_fun bs = Some bs' \<Longrightarrow> pre bs \<Longrightarrow> layout 0 bs \<Longrightarrow>
         layout 0 bs' \<and> total_pages bs' = total_pages bs"
    and keeps_coalesced: "slab_fun bs = Some bs' \<Longrightarrow> coalesced bs \<Longrightarrow> coalesced bs'"
    and keeps_nodes:
      "slab_fun bs = Some bs' \<Longrightarrow> nodes n k bs \<Longrightarrow>
         nodes (n + 2) k bs' \<and> ids bs' \<subseteq> ids bs \<union> {n, n + 1}"
begin

lemma pool_update:
  assumes "slab_fun (ss ! x) = Some bs'" and "pre (ss ! x)" and "x < length ss" and "pool_ok ss"
  shows "pool_ok (ss[x := bs'])" and "pool_pages (ss[x := bs']) = pool_pages ss"
proof -
  from assms(3,4) have x: "layout 0 (ss ! x)" "coalesced (ss ! x)" by (auto simp: pool_ok_def)
  have new: "layout 0 bs'" "coalesced bs'" "total_pages bs' = total_pages (ss ! x)"
    using keeps_layout [OF assms(1,2) x(1)] keeps_coalesced [OF assms(1) x(2)] by auto
  from new(1,2) assms(4) show "pool_ok (ss[x := bs'])"
    unfolding pool_ok_def using set_update_subset_insert [of ss x bs'] by blast
  from new(3) assms(3) show "pool_pages (ss[x := bs']) = pool_pages ss"
    unfolding pool_pages_def by (rule sum_list_update [rotated])
qed

lemma pool_nodes_update:
  assumes op: "slab_fun (ss ! x) = Some bs'" and x: "x < length ss" "k = int x"
    and pool: "pool_nodes n ss"
  shows "pool_nodes (n + 2) (ss[x := bs'])"
proof -
  from pool x have nodes: "\<forall>y < length ss. nodes n (int y) (ss ! y)"
    and sep: "\<forall>y < length ss. \<forall>z < length ss. y \<noteq> z \<longrightarrow> ids (ss ! y) \<inter> ids (ss ! z) = {}"
    by (auto simp: pool_nodes_def)
  from keeps_nodes [OF op] nodes x have new: "nodes (n + 2) (int x) bs'"
    "ids bs' \<subseteq> ids (ss ! x) \<union> {n, n + 1}" by auto
  have old: "nodes (n + 2) (int y) (ss ! y)"
    "n \<notin> ids (ss ! y) \<and> n + 1 \<notin> ids (ss ! y)" if "y < length ss" for y
  proof -
    from nodes that have y: "nodes n (int y) (ss ! y)" by simp
    then show "nodes (n + 2) (int y) (ss ! y)" by (rule nodes_mono) simp
    from nodes_id_less [OF y] show "n \<notin> ids (ss ! y) \<and> n + 1 \<notin> ids (ss ! y)"
      by fastforce
  qed
  have apart: "ids bs' \<inter> ids (ss ! y) = {}" if "y < length ss" "y \<noteq> x" for y
  proof -
    have "ids (ss ! x) \<inter> ids (ss ! y) = {}" using sep that x(1) by simp
    with new(2) show ?thesis using old(2) [OF that(1)] by (simp add: disjoint_extend)
  qed
  have "ids (ss[x := bs'] ! y) \<inter> ids (ss[x := bs'] ! z) = {}"
    if "y < length ss" "z < length ss" "y \<noteq> z" for y z
    using that apart [of y] apart [of z] sep x(1) by (auto simp: nth_list_update Int_commute)
  moreover have "nodes (n + 2) (int y) (ss[x := bs'] ! y)" if "y < length ss" for y
    using new(1) old(1) [OF that] by (cases "y = x") (simp_all add: x(1))
  ultimately show ?thesis by (simp add: pool_nodes_def)
qed

end

interpretation find_free_op:
  slab_op "\<lambda>_. True" "\<lambda>bs. map_option snd (find_free req ep k n bs)" n k for req ep n k
  by (unfold_locales; unfold map_option_snd_Some)
    (blast dest: find_free_layout find_free_coalesced find_free_nodes)+

interpretation evict_op:
  slab_op "\<lambda>_. True" "\<lambda>bs. map_option snd (evict_at i req ep k n bs)" n k for i req ep n k
  by (unfold_locales; unfold map_option_snd_Some)
    (blast dest: evict_at_layout evict_at_coalesced evict_at_nodes)+

interpretation remove_op: slab_op "\<lambda>_. True" "\<lambda>bs. Some (remove_seg i bs)" n k for i n k
proof unfold_locales
  fix bs bs' assume eq: "Some (remove_seg i bs) = Some bs'" and nodes: "nodes n k bs"
  from remove_seg_nodes [OF nodes, of i] eq
  show "nodes (n + 2) k bs' \<and> ids bs' \<subseteq> ids bs \<union> {n, n + 1}"
    by (auto intro: nodes_mono)
qed (auto dest: remove_seg_layout remove_seg_coalesced)

interpretation grow_op:
  slab_op "\<lambda>bs. \<forall>s \<in> set bs. seg_id s = i \<longrightarrow> num_pages s \<le> req" "grow_in_place i req" n k for i req n k
proof unfold_locales
  fix bs bs' assume "grow_in_place i req bs = Some bs'" and "nodes n k bs"
  from grow_in_place_nodes [OF this]
  show "nodes (n + 2) k bs' \<and> ids bs' \<subseteq> ids bs \<union> {n, n + 1}"
    by (auto intro: nodes_mono)
qed (auto dest: grow_in_place_layout grow_in_place_coalesced)

end
