(* ===== verification/Buffer_Mgr.thy ===== *)
theory Buffer_Mgr
  imports Slab_Segments "HOL-Library.Monad_Syntax" "HOL-Library.List_Lexorder"
begin

text \<open>
  The buffer pool: \<open>BufferMgr\<close> and \<open>Buffer\<close> of \<open>DataMgr/BufferMgr\<close>, with the CPU
  implementation of their virtual methods (\<open>CpuBufferMgr\<close>, \<open>CpuBuffer\<close>). Each method is one
  definition over the whole manager state; the operating system's allocator and the parent
  manager a miss is fetched from are parameters.
\<close>

section \<open>State\<close>

text \<open>
  \<open>class Buffer\<close> (with the fields of \<open>AbstractBuffer\<close> it inherits). A pointer is an address,
  \<open>None\<close> the null pointer; a token is the address and size of memory the parent lends.
\<close>

record Buffer =
  mem :: "nat option"
  seg_it :: nat
  buf_page_size :: nat
  buf_num_pages :: nat
  buf_size :: nat
  buf_pin_count :: int
  token :: "(nat \<times> nat) option"
  is_dirty :: bool
  is_appended :: bool
  is_updated :: bool
  page_dirty_flags :: "bool list"

text \<open>
  \<open>class BufferMgr\<close>. After its own fields come those that stand for the process around it:
  the objects behind the \<open>Buffer\<close> pointers, the memory, and three counters that name the next
  object, list node and allocator call; \<open>next_seg\<close> moves past every node an operation can make. \<open>in_progress\<close> is the key set of
  \<open>in_progress_buffer_cvs_\<close>.
\<close>

record BufferMgr =
  max_buffer_pool_size :: nat
  min_slab_size :: nat
  max_slab_size :: nat
  page_size :: nat
  slabs :: "nat list"
  slab_segments :: "BufferSeg list list"
  in_progress :: "ChunkKey list"
  chunk_index :: "(ChunkKey \<times> nat) list"
  max_buffer_pool_num_pages :: nat
  num_pages_allocated :: nat
  min_num_pages_per_slab :: nat
  max_num_pages_per_slab :: nat
  current_max_slab_page_size :: nat
  allocations_capped :: bool
  max_buffer_id :: nat
  buffer_epoch :: u32
  unsized_segs :: "BufferSeg list"
  heap :: "(nat \<times> Buffer) list"
  memory :: "nat \<Rightarrow> u8"
  next_buf :: nat
  next_seg :: nat
  alloc_calls :: nat

text \<open>
  How a call can end other than by returning: the exceptions of \<open>BufferMgr.h\<close> (all of them
  \<open>OutOfMemory\<close>), a failed \<open>CHECK\<close> or \<open>LOG(FATAL)\<close>, which abort the process, and behaviour
  the C++ standard leaves undefined.
\<close>

datatype bm_error =
    TooBigForSlab nat
  | FailedToCreateFirstSlab nat
  | OutOfMemory nat
  | CheckFailed
  | Undefined

fun is_oom :: "bm_error \<Rightarrow> bool" where
  "is_oom (TooBigForSlab n) = True"
| "is_oom (FailedToCreateFirstSlab n) = True"
| "is_oom (OutOfMemory n) = True"
| "is_oom CheckFailed = False"
| "is_oom Undefined = False"

type_synonym os_alloc = "nat \<Rightarrow> nat \<Rightarrow> nat option"
type_synonym 'a outcome = "(bm_error + 'a) \<times> BufferMgr"

section \<open>Construction\<close>

definition new_BufferMgr :: "nat \<Rightarrow> nat \<Rightarrow> nat \<Rightarrow> nat \<Rightarrow> BufferMgr option" where
  "new_BufferMgr pool mins maxs ps =
     (if 0 < pool \<and> 0 < ps \<and> 0 < mins \<and> 0 < maxs \<and> mins \<le> maxs \<and> mins mod ps = 0 \<and> maxs mod ps = 0
      then Some \<lparr>max_buffer_pool_size = pool, min_slab_size = mins, max_slab_size = maxs,
                 page_size = ps, slabs = [], slab_segments = [], in_progress = [],
                 chunk_index = [], max_buffer_pool_num_pages = pool div ps,
                 num_pages_allocated = 0, min_num_pages_per_slab = mins div ps,
                 max_num_pages_per_slab = maxs div ps,
                 current_max_slab_page_size = maxs div ps, allocations_capped = False,
                 max_buffer_id = 0, buffer_epoch = 0, unsized_segs = [], heap = [],
                 memory = (\<lambda>_. 0), next_buf = 0, next_seg = 0, alloc_calls = 0\<rparr>
      else None)"

definition reinit :: "BufferMgr \<Rightarrow> BufferMgr" where
  "reinit s = s\<lparr>num_pages_allocated := 0,
                current_max_slab_page_size := max_num_pages_per_slab s,
                allocations_capped := False\<rparr>"

section \<open>Segments and buffers of the manager\<close>

definition all_segs :: "BufferMgr \<Rightarrow> BufferSeg list" where
  "all_segs s = unsized_segs s @ concat (slab_segments s)"

text \<open>Following an iterator to its node, and writing through it.\<close>

definition lookup_seg :: "BufferMgr \<Rightarrow> nat \<Rightarrow> BufferSeg option" where
  "lookup_seg s i = List.find (\<lambda>b. seg_id b = i) (all_segs s)"

definition update_seg :: "nat \<Rightarrow> (BufferSeg \<Rightarrow> BufferSeg) \<Rightarrow> BufferMgr \<Rightarrow> BufferMgr" where
  "update_seg i f s =
     (let g = (\<lambda>b. if seg_id b = i then f b else b)
      in s\<lparr>unsized_segs := map g (unsized_segs s),
           slab_segments := map (map g) (slab_segments s)\<rparr>)"

definition get_buf :: "BufferMgr \<Rightarrow> nat \<Rightarrow> Buffer option" where
  "get_buf s b = map_of (heap s) b"

definition set_buf :: "nat \<Rightarrow> Buffer \<Rightarrow> BufferMgr \<Rightarrow> BufferMgr" where
  "set_buf b v s = s\<lparr>heap := AList.update b v (heap s)\<rparr>"

definition delete_buf :: "nat \<Rightarrow> BufferMgr \<Rightarrow> BufferMgr" where
  "delete_buf b s = s\<lparr>heap := AList.delete b (heap s)\<rparr>"

text \<open>\<open>seg->buffer->getPinCount()\<close>; the caller has tested that the segment is used.\<close>

definition seg_pins :: "BufferMgr \<Rightarrow> BufferSeg \<Rightarrow> int" where
  "seg_pins s b =
     (case seg_buffer b of None \<Rightarrow> 0
      | Some p \<Rightarrow> (case get_buf s p of None \<Rightarrow> 0 | Some v \<Rightarrow> buf_pin_count v))"

definition memcpy :: "nat \<Rightarrow> nat \<Rightarrow> nat \<Rightarrow> BufferMgr \<Rightarrow> BufferMgr" where
  "memcpy dst src n s =
     s\<lparr>memory := (\<lambda>a. if dst \<le> a \<and> a < dst + n then memory s (src + (a - dst)) else memory s a)\<rparr>"

section \<open>Finding room\<close>

definition findFreeBufferInSlab :: "nat \<Rightarrow> nat \<Rightarrow> BufferMgr \<Rightarrow> nat option \<times> BufferMgr" where
  "findFreeBufferInSlab k req s =
     (case find_free req (buffer_epoch s) (int k) (next_seg s) (slab_segments s ! k) of
        None \<Rightarrow> (None, s)
      | Some (i, bs') \<Rightarrow>
          (Some i, s\<lparr>slab_segments := (slab_segments s)[k := bs'],
                     buffer_epoch := buffer_epoch s + 1, next_seg := next_seg s + 2\<rparr>))"

fun find_in_slabs :: "nat list \<Rightarrow> nat \<Rightarrow> BufferMgr \<Rightarrow> nat option \<times> BufferMgr" where
  "find_in_slabs [] req s = (None, s)"
| "find_in_slabs (k # ks) req s =
     (case findFreeBufferInSlab k req s of
        (Some i, s') \<Rightarrow> (Some i, s')
      | (None, s') \<Rightarrow> find_in_slabs ks req s')"

text \<open>
  \<open>CpuBufferMgr::addSlab\<close>. \<open>os n bytes\<close> is what the allocator answers to its \<open>n\<close>-th call,
  \<open>None\<close> being \<open>std::bad_alloc\<close>; the result says whether the slab was made, \<open>False\<close> being
  the exception \<open>FailedToCreateSlab\<close>.
\<close>

definition addSlab :: "os_alloc \<Rightarrow> nat \<Rightarrow> BufferMgr \<Rightarrow> bool \<times> BufferMgr" where
  "addSlab os slab_size s =
     (let s1 = s\<lparr>alloc_calls := alloc_calls s + 1\<rparr>
      in case os (alloc_calls s) slab_size of
           None \<Rightarrow> (False, s1)
         | Some a \<Rightarrow>
             (True, s1\<lparr>slabs := slabs s @ [a],
                       slab_segments := slab_segments s @
                         [[mk_seg (next_seg s) 0 (slab_size div page_size s) FREE 0]],
                       next_seg := next_seg s + 1\<rparr>))"

text \<open>The \<open>catch\<close> block of \<open>findFreeBuffer\<close>: what to ask for next.\<close>

definition shrink_slab :: "nat \<Rightarrow> BufferMgr \<Rightarrow> BufferMgr" where
  "shrink_slab req s =
     (let cur = current_max_slab_page_size s
      in if cur div 2 < req \<and> cur \<noteq> req then s\<lparr>current_max_slab_page_size := req\<rparr>
         else let cur' = cur div 2; s' = s\<lparr>current_max_slab_page_size := cur'\<rparr>
              in if cur' < min_num_pages_per_slab s then s'\<lparr>allocations_capped := True\<rparr> else s')"

text \<open>
  The \<open>while\<close> loop of \<open>findFreeBuffer\<close>. \<open>Some (True, s')\<close>: a slab was added;
  \<open>Some (False, s')\<close>: the loop was left without one; \<open>None\<close>: it never ends.
\<close>

definition clamp_slab :: "BufferMgr \<Rightarrow> BufferMgr" where
  "clamp_slab s =
     (let left = max_buffer_pool_num_pages s - num_pages_allocated s
      in if left < current_max_slab_page_size s then s\<lparr>current_max_slab_page_size := left\<rparr> else s)"

partial_function (option) add_slab_loop ::
  "os_alloc \<Rightarrow> nat \<Rightarrow> BufferMgr \<Rightarrow> (bool \<times> BufferMgr) option" where
  "add_slab_loop os req s =
     (if allocations_capped s \<or> max_buffer_pool_num_pages s \<le> num_pages_allocated s
      then Some (False, s)
      else let s1 = clamp_slab s; cur = current_max_slab_page_size s1
           in if req \<le> cur then
                (case addSlab os (cur * page_size s1) s1 of
                   (ok, s2) \<Rightarrow>
                     if ok then Some (True, s2\<lparr>num_pages_allocated := num_pages_allocated s2 + cur\<rparr>)
                     else add_slab_loop os req (shrink_slab req s2))
              else Some (False, s1))"

section \<open>Choosing what to evict\<close>

text \<open>
  The inner loop of the eviction search, from one start segment on: it stops at a pinned
  buffer, at the end of the slab, or when the run holds enough pages. The score of a run is
  the latest touch of its used segments.
\<close>

datatype scan_result = Solution nat | AtEnd | AtPinned

fun evict_scan :: "(BufferSeg \<Rightarrow> int) \<Rightarrow> nat \<Rightarrow> nat \<Rightarrow> nat \<Rightarrow> BufferSeg list \<Rightarrow> scan_result" where
  "evict_scan pins req page_count score [] = AtEnd"
| "evict_scan pins req page_count score (b # bs) =
     (if mem_status b = USED \<and> 0 < pins b then AtPinned
      else let page_count' = page_count + num_pages b;
               score' = (if mem_status b = USED then max score (unat (last_touched b)) else score)
           in if req \<le> page_count' then Solution score'
              else evict_scan pins req page_count' score' bs)"

text \<open>
  The loop over the start segments of one slab; the state is \<open>min_score\<close> with the best
  start so far as slab number and segment.
\<close>

fun evict_scan_slab ::
  "(BufferSeg \<Rightarrow> int) \<Rightarrow> nat \<Rightarrow> nat \<Rightarrow> BufferSeg list \<Rightarrow> nat \<times> (nat \<times> nat) option \<Rightarrow>
   nat \<times> (nat \<times> nat) option" where
  "evict_scan_slab pins req k [] st = st"
| "evict_scan_slab pins req k (b # bs) st =
     (case evict_scan pins req 0 0 (b # bs) of
        Solution score \<Rightarrow>
          evict_scan_slab pins req k bs (if score < fst st then (score, Some (k, seg_id b)) else st)
      | AtEnd \<Rightarrow> st
      | AtPinned \<Rightarrow> evict_scan_slab pins req k bs st)"

fun evict_scan_pool ::
  "(BufferSeg \<Rightarrow> int) \<Rightarrow> nat \<Rightarrow> nat \<Rightarrow> BufferSeg list list \<Rightarrow> nat \<times> (nat \<times> nat) option \<Rightarrow>
   nat \<times> (nat \<times> nat) option" where
  "evict_scan_pool pins req k [] st = st"
| "evict_scan_pool pins req k (bs # bss) st =
     evict_scan_pool pins req (Suc k) bss (evict_scan_slab pins req k bs st)"

definition best_eviction :: "nat \<Rightarrow> BufferMgr \<Rightarrow> (nat \<times> nat) option" where
  "best_eviction req s =
     snd (evict_scan_pool (seg_pins s) req 0 (slab_segments s) (2 ^ 64 - 1, None))"

text \<open>
  \<open>BufferMgr::evict\<close>: the unlinked segments lose their index entry and their buffer.
\<close>

definition drop_evicted :: "BufferSeg \<Rightarrow> BufferMgr \<Rightarrow> BufferMgr" where
  "drop_evicted b s =
     (let s1 = (if mem_status b = USED \<and> chunk_key b \<noteq> []
                then s\<lparr>chunk_index := AList.delete (chunk_key b) (chunk_index s)\<rparr> else s)
      in case seg_buffer b of None \<Rightarrow> s1 | Some p \<Rightarrow> delete_buf p s1)"

definition evict :: "nat \<Rightarrow> nat \<Rightarrow> nat \<Rightarrow> BufferMgr \<Rightarrow> nat outcome" where
  "evict i req k s =
     (case evict_at i req (buffer_epoch s) (int k) (next_seg s) (slab_segments s ! k) of
        None \<Rightarrow> (Inl Undefined, s)
      | Some (ev, bs') \<Rightarrow>
          if \<exists>b \<in> set ev. mem_status b = USED \<and> 1 \<le> seg_pins s b then (Inl CheckFailed, s)
          else (Inr (next_seg s),
                (fold drop_evicted ev s)
                  \<lparr>slab_segments := (slab_segments s)[k := bs'],
                   buffer_epoch := buffer_epoch s + 1, next_seg := next_seg s + 2\<rparr>))"

definition pages_for :: "BufferMgr \<Rightarrow> nat \<Rightarrow> nat" where
  "pages_for s num_bytes = (num_bytes + page_size s - 1) div page_size s"

text \<open>
  The part of \<open>findFreeBuffer\<close> after the slab loop. \<open>slab_segments_[0]\<close> is read whether or
  not there is a slab.
\<close>

definition force_eviction :: "nat \<Rightarrow> nat \<Rightarrow> BufferMgr \<Rightarrow> nat outcome" where
  "force_eviction num_bytes req s =
     (if num_pages_allocated s = 0 \<and> allocations_capped s
      then (Inl (FailedToCreateFirstSlab num_bytes), s)
      else if slab_segments s = [] then (Inl Undefined, s)
      else case best_eviction req s of
             None \<Rightarrow> (Inl (OutOfMemory num_bytes), s)
           | Some (k, i) \<Rightarrow> evict i req k s)"

definition findFreeBuffer :: "os_alloc \<Rightarrow> nat \<Rightarrow> BufferMgr \<Rightarrow> nat outcome option" where
  "findFreeBuffer os num_bytes s =
     (let req = pages_for s num_bytes; num_slabs = length (slab_segments s)
      in if max_num_pages_per_slab s < req then Some (Inl (TooBigForSlab num_bytes), s)
         else case find_in_slabs [0..<num_slabs] req s of
                (Some i, s') \<Rightarrow> Some (Inr i, s')
              | (None, s') \<Rightarrow>
                  do {
                    (added, s1) \<leftarrow> add_slab_loop os req s';
                    if added then
                      (case findFreeBufferInSlab num_slabs req s1 of
                         (Some i, s2) \<Rightarrow> Some (Inr i, s2)
                       | (None, s2) \<Rightarrow> Some (Inl Undefined, s2))
                    else Some (force_eviction num_bytes req s1)
                  })"

section \<open>Removing segments, deleting buffers\<close>

definition removeSegment :: "nat \<Rightarrow> BufferMgr \<Rightarrow> BufferMgr" where
  "removeSegment i s =
     (case lookup_seg s i of None \<Rightarrow> s
      | Some b \<Rightarrow>
          if slab_num b < 0 then s\<lparr>unsized_segs := filter (\<lambda>c. seg_id c \<noteq> i) (unsized_segs s)\<rparr>
          else let k = nat (slab_num b)
               in s\<lparr>slab_segments := (slab_segments s)[k := remove_seg i (slab_segments s ! k)],
                    next_seg := next_seg s + 2\<rparr>)"

text \<open>\<open>if (seg_it->buffer) { delete seg_it->buffer; seg_it->buffer = 0; }\<close>\<close>

definition delete_seg_buffer :: "nat \<Rightarrow> BufferMgr \<Rightarrow> BufferMgr" where
  "delete_seg_buffer i s =
     (case lookup_seg s i of None \<Rightarrow> s
      | Some b \<Rightarrow>
          (case seg_buffer b of None \<Rightarrow> s
           | Some p \<Rightarrow> update_seg i (\<lambda>c. c\<lparr>seg_buffer := None\<rparr>) (delete_buf p s)))"

definition deleteBuffer :: "ChunkKey \<Rightarrow> BufferMgr \<Rightarrow> unit outcome" where
  "deleteBuffer key s =
     (case map_of (chunk_index s) key of
        None \<Rightarrow> (Inl CheckFailed, s)
      | Some i \<Rightarrow>
          (Inr (), removeSegment i (delete_seg_buffer i
                     (s\<lparr>chunk_index := AList.delete key (chunk_index s)\<rparr>))))"

definition isBufferOnDevice :: "ChunkKey \<Rightarrow> BufferMgr \<Rightarrow> bool" where
  "isBufferOnDevice key s = (map_of (chunk_index s) key \<noteq> None)"

section \<open>Growing a buffer\<close>

text \<open>
  The tail of \<open>reserveBuffer\<close>: buffer and key move from segment \<open>i\<close> to the new segment
  \<open>j\<close>, the bytes are copied when the old segment had memory, the old segment is freed and
  the index follows.
\<close>

definition move_segment :: "nat \<Rightarrow> nat \<Rightarrow> BufferMgr \<Rightarrow> nat outcome" where
  "move_segment i j s =
     (case (lookup_seg s i, lookup_seg s j) of
        (Some old, Some new) \<Rightarrow>
          (case seg_buffer old of None \<Rightarrow> (Inl Undefined, s)
           | Some p \<Rightarrow>
             (case get_buf s p of None \<Rightarrow> (Inl Undefined, s)
              | Some v \<Rightarrow>
                if 0 \<le> start_page old \<and> mem v = None then (Inl Undefined, s) else
                let addr = slabs s ! nat (slab_num new) + nat (start_page new) * page_size s;
                    s1 = update_seg j (\<lambda>c. c\<lparr>seg_buffer := Some p, chunk_key := chunk_key old\<rparr>) s;
                    s2 = set_buf p (v\<lparr>mem := Some addr\<rparr>) s1;
                    s3 = (if 0 \<le> start_page old then memcpy addr (the (mem v)) (buf_size v) s2 else s2);
                    s4 = removeSegment i s3
                in (Inr j, s4\<lparr>chunk_index := AList.update (chunk_key old) j (chunk_index s4)\<rparr>)))
      | _ \<Rightarrow> (Inl Undefined, s))"

definition reserveBuffer :: "os_alloc \<Rightarrow> nat \<Rightarrow> nat \<Rightarrow> BufferMgr \<Rightarrow> nat outcome option" where
  "reserveBuffer os i num_bytes s =
     (case lookup_seg s i of None \<Rightarrow> Some (Inl Undefined, s)
      | Some b \<Rightarrow>
          let req = pages_for s num_bytes; k = nat (slab_num b)
          in if req < num_pages b then Some (Inr i, s)
             else case (if 0 \<le> slab_num b then grow_in_place i req (slab_segments s ! k) else None) of
                    Some bs' \<Rightarrow>
                      Some (Inr i, s\<lparr>slab_segments := (slab_segments s)[k := bs'],
                                     next_seg := next_seg s + 2\<rparr>)
                  | None \<Rightarrow>
                      do {
                        (r, s1) \<leftarrow> findFreeBuffer os num_bytes s;
                        (case r of Inl e \<Rightarrow> Some (Inl e, s1)
                         | Inr j \<Rightarrow> Some (move_segment i j s1))
                      })"

text \<open>
  \<open>Buffer::reserve\<close>. Dropping the token also drops the pointer and the size.
\<close>

definition drop_token :: "Buffer \<Rightarrow> Buffer" where
  "drop_token v = (case token v of None \<Rightarrow> v | Some t \<Rightarrow> v\<lparr>token := None, buf_size := 0, mem := None\<rparr>)"

definition resize_flags :: "nat \<Rightarrow> bool list \<Rightarrow> bool list" where
  "resize_flags n fs = take n fs @ replicate (n - length fs) False"

definition buffer_reserve :: "os_alloc \<Rightarrow> nat \<Rightarrow> nat \<Rightarrow> BufferMgr \<Rightarrow> unit outcome option" where
  "buffer_reserve os p num_bytes s =
     (case get_buf s p of None \<Rightarrow> Some (Inl Undefined, s)
      | Some v \<Rightarrow>
          let np = (num_bytes + buf_page_size v - 1) div buf_page_size v
          in if np \<le> buf_num_pages v then Some (Inr (), s)
             else do {
               (r, s1) \<leftarrow> reserveBuffer os (seg_it v) (buf_page_size v * np) (set_buf p (drop_token v) s);
               (case r of Inl e \<Rightarrow> Some (Inl e, s1)
                | Inr j \<Rightarrow>
                    (case get_buf s1 p of None \<Rightarrow> Some (Inl Undefined, s1)
                     | Some v1 \<Rightarrow>
                         Some (Inr (), set_buf p (v1\<lparr>seg_it := j, buf_num_pages := np,
                           page_dirty_flags := resize_flags np (page_dirty_flags v1)\<rparr>) s1)))
             })"

section \<open>Reading and writing a buffer\<close>

text \<open>
  \<open>CpuBuffer::readData\<close> and \<open>writeData\<close> between host memories: the bytes \<open>memcpy\<close> moves out of
  and into the buffer.
\<close>

definition readData :: "nat \<Rightarrow> nat \<Rightarrow> BufferMgr \<Rightarrow> u8 list" where
  "readData addr n s = map (\<lambda>k. memory s (addr + k)) [0..<n]"

definition writeData :: "nat \<Rightarrow> u8 list \<Rightarrow> BufferMgr \<Rightarrow> BufferMgr" where
  "writeData addr src s =
     s\<lparr>memory := (\<lambda>a. if addr \<le> a \<and> a < addr + length src then src ! (a - addr) else memory s a)\<rparr>"

definition reservedSize :: "Buffer \<Rightarrow> nat" where
  "reservedSize v = buf_page_size v * buf_num_pages v"

definition buffer_read :: "nat \<Rightarrow> nat \<Rightarrow> nat \<Rightarrow> BufferMgr \<Rightarrow> bm_error + u8 list" where
  "buffer_read p num_bytes offset s =
     (case get_buf s p of None \<Rightarrow> Inl Undefined
      | Some v \<Rightarrow>
          if num_bytes = 0 then Inr []
          else (case mem v of None \<Rightarrow> Inl CheckFailed
                | Some a \<Rightarrow>
                    if buf_size v < num_bytes + offset then Inl CheckFailed
                    else Inr (readData (a + offset) num_bytes s)))"

text \<open>\<open>Buffer::write\<close> after \<open>writeData\<close>: the flags of the buffer and of the pages written to.\<close>

definition mark_written :: "nat \<Rightarrow> nat \<Rightarrow> Buffer \<Rightarrow> Buffer" where
  "mark_written offset n v =
     (let v1 = v\<lparr>is_dirty := True\<rparr>;
          v2 = (if offset < buf_size v then v1\<lparr>is_updated := True\<rparr> else v1);
          v3 = (if buf_size v < offset + n then v2\<lparr>is_appended := True, buf_size := offset + n\<rparr> else v2)
      in v3\<lparr>page_dirty_flags :=
             fold (\<lambda>i fs. fs[i := True])
               [offset div buf_page_size v..<Suc ((offset + n - 1) div buf_page_size v)]
               (page_dirty_flags v)\<rparr>)"

definition reserve_for :: "os_alloc \<Rightarrow> nat \<Rightarrow> nat \<Rightarrow> Buffer \<Rightarrow> BufferMgr \<Rightarrow> unit outcome option" where
  "reserve_for os p n v s =
     (if reservedSize v < n then buffer_reserve os p n s else Some (Inr (), s))"

definition buffer_write :: "os_alloc \<Rightarrow> nat \<Rightarrow> u8 list \<Rightarrow> nat \<Rightarrow> BufferMgr \<Rightarrow> unit outcome option" where
  "buffer_write os p src offset s =
     (if src = [] then Some (Inl CheckFailed, s)
      else case get_buf s p of None \<Rightarrow> Some (Inl Undefined, s)
           | Some v \<Rightarrow>
               do {
                 (r, s1) \<leftarrow> reserve_for os p (length src + offset) v s;
                 (case r of Inl e \<Rightarrow> Some (Inl e, s1)
                  | Inr _ \<Rightarrow>
                      (case get_buf s1 p of None \<Rightarrow> Some (Inl Undefined, s1)
                       | Some v1 \<Rightarrow>
                           (case mem v1 of None \<Rightarrow> Some (Inl Undefined, s1)
                            | Some a \<Rightarrow>
                                Some (Inr (), set_buf p (mark_written offset (length src) v1)
                                                (writeData (a + offset) src s1)))))
               })"

text \<open>\<open>size_\<close> is read again after \<open>reserve\<close>, which may have set it to 0.\<close>

definition buffer_append :: "os_alloc \<Rightarrow> nat \<Rightarrow> u8 list \<Rightarrow> BufferMgr \<Rightarrow> unit outcome option" where
  "buffer_append os p src s =
     (case get_buf s p of None \<Rightarrow> Some (Inl Undefined, s)
      | Some v \<Rightarrow>
          do {
            (r, s1) \<leftarrow> reserve_for os p (length src + buf_size v) v
                        (set_buf p (v\<lparr>is_appended := True, is_dirty := True\<rparr>) s);
            (case r of Inl e \<Rightarrow> Some (Inl e, s1)
             | Inr _ \<Rightarrow>
                 (case get_buf s1 p of None \<Rightarrow> Some (Inl Undefined, s1)
                  | Some v1 \<Rightarrow>
                      (case mem v1 of None \<Rightarrow> Some (Inl Undefined, s1)
                       | Some a \<Rightarrow>
                           Some (Inr (), set_buf p (v1\<lparr>buf_size := buf_size v1 + length src\<rparr>)
                                           (writeData (a + buf_size v1) src s1)))))
          })"

section \<open>Creating buffers\<close>

definition new_Buffer :: "nat \<Rightarrow> nat \<Rightarrow> Buffer" where
  "new_Buffer i ps =
     \<lparr>mem = None, seg_it = i, buf_page_size = ps, buf_num_pages = 0, buf_size = 0,
      buf_pin_count = 1, token = None, is_dirty = False, is_appended = False,
      is_updated = False, page_dirty_flags = []\<rparr>"

text \<open>
  \<open>CpuBufferMgr::allocateBuffer\<close>, that is the constructor of \<open>Buffer\<close>: it pins, stores
  itself in the segment and reserves. When it throws, the object it was making is gone.
\<close>

definition allocateBuffer :: "os_alloc \<Rightarrow> nat \<Rightarrow> nat \<Rightarrow> nat \<Rightarrow> BufferMgr \<Rightarrow> unit outcome option" where
  "allocateBuffer os i ps num_bytes s =
     (let p = next_buf s;
          s1 = (set_buf p (new_Buffer i ps) (update_seg i (\<lambda>c. c\<lparr>seg_buffer := Some p\<rparr>) s))
                 \<lparr>next_buf := p + 1\<rparr>
      in if 0 < num_bytes then
           do {
             (r, s2) \<leftarrow> buffer_reserve os p num_bytes s1;
             (case r of Inl e \<Rightarrow> Some (Inl e, delete_buf p s2) | Inr _ \<Rightarrow> Some (Inr (), s2))
           }
         else Some (Inr (), s1))"

text \<open>The locked block both \<open>create\<close> methods begin with; \<open>None\<close> is the failed \<open>CHECK\<close>.\<close>

definition new_unsized :: "ChunkKey \<Rightarrow> BufferMgr \<Rightarrow> (nat \<times> BufferMgr) option" where
  "new_unsized key s =
     (if map_of (chunk_index s) key = None then
        let i = next_seg s
        in Some (i, s\<lparr>unsized_segs := unsized_segs s @
                        [(mk_seg i (-1) 0 USED 0)\<lparr>chunk_key := key\<rparr>],
                      chunk_index := AList.update key i (chunk_index s),
                      next_seg := i + 1\<rparr>)
      else None)"

definition createBuffer :: "os_alloc \<Rightarrow> ChunkKey \<Rightarrow> nat \<Rightarrow> nat \<Rightarrow> BufferMgr \<Rightarrow> nat outcome option" where
  "createBuffer os key chunk_page_size initial_size s =
     (let ps = (if chunk_page_size = 0 then page_size s else chunk_page_size)
      in case new_unsized key s of None \<Rightarrow> Some (Inl CheckFailed, s)
         | Some (i, s1) \<Rightarrow>
             do {
               (r, s2) \<leftarrow> allocateBuffer os i ps initial_size s1;
               (case r of
                  Inl e \<Rightarrow>
                    if is_oom e then
                      (case map_of (chunk_index s2) key of
                         None \<Rightarrow> Some (Inl CheckFailed, s2)
                       | Some j \<Rightarrow>
                           Some (Inl e, snd (deleteBuffer key
                             (update_seg j (\<lambda>c. c\<lparr>seg_buffer := None\<rparr>) s2))))
                    else Some (Inl e, s2)
                | Inr _ \<Rightarrow>
                    (case Option.bind (map_of (chunk_index s2) key)
                            (\<lambda>j. Option.bind (lookup_seg s2 j) seg_buffer) of
                       None \<Rightarrow> Some (Inl Undefined, s2)
                     | Some p \<Rightarrow>
                         if initial_size = 0 \<or> Option.bind (get_buf s2 p) mem \<noteq> None
                         then Some (Inr p, s2) else Some (Inl CheckFailed, s2)))
             })"

definition createZeroCopyBuffer :: "ChunkKey \<Rightarrow> nat \<times> nat \<Rightarrow> BufferMgr \<Rightarrow> nat outcome" where
  "createZeroCopyBuffer key t s =
     (case new_unsized key s of None \<Rightarrow> (Inl CheckFailed, s)
      | Some (i, s1) \<Rightarrow>
          let p = next_buf s1
          in (Inr p,
              (set_buf p ((new_Buffer i (page_size s1))\<lparr>mem := Some (fst t), token := Some t,
                            buf_size := snd t\<rparr>)
                 (update_seg i (\<lambda>c. c\<lparr>seg_buffer := Some p\<rparr>) s1))\<lparr>next_buf := p + 1\<rparr>))"

definition alloc :: "os_alloc \<Rightarrow> nat \<Rightarrow> BufferMgr \<Rightarrow> nat outcome option" where
  "alloc os num_bytes s =
     createBuffer os [-1, int (max_buffer_id s)] (page_size s) num_bytes
       (s\<lparr>max_buffer_id := max_buffer_id s + 1\<rparr>)"

definition free_buffer :: "nat \<Rightarrow> BufferMgr \<Rightarrow> unit outcome" where
  "free_buffer p s =
     (case Option.bind (get_buf s p) (\<lambda>v. lookup_seg s (seg_it v)) of
        None \<Rightarrow> (Inl Undefined, s)
      | Some b \<Rightarrow> deleteBuffer (chunk_key b) s)"

section \<open>Fetching chunks\<close>

text \<open>
  The parent manager: \<open>zero_copy key n\<close> is its \<open>getZeroCopyBufferMemory\<close>, \<open>fetch key p n\<close>
  its \<open>fetchBuffer\<close> into buffer \<open>p\<close> of this manager.
\<close>

record parent_mgr =
  zero_copy :: "ChunkKey \<Rightarrow> nat \<Rightarrow> (nat \<times> nat) option"
  fetch :: "ChunkKey \<Rightarrow> nat \<Rightarrow> nat \<Rightarrow> BufferMgr \<Rightarrow> unit outcome option"

text \<open>
  One iteration of the loop of \<open>getBuffer\<close>: \<open>Blocked\<close> is the wait on the condition variable
  of a key another call is loading.
\<close>

datatype get_result = Blocked | Got nat

definition pin_buf :: "nat \<Rightarrow> BufferMgr \<Rightarrow> BufferMgr" where
  "pin_buf p s =
     (case get_buf s p of None \<Rightarrow> s
      | Some v \<Rightarrow> set_buf p (v\<lparr>buf_pin_count := buf_pin_count v + 1\<rparr>) s)"

definition unpin_buf :: "nat \<Rightarrow> BufferMgr \<Rightarrow> BufferMgr" where
  "unpin_buf p s =
     (case get_buf s p of None \<Rightarrow> s
      | Some v \<Rightarrow> set_buf p (v\<lparr>buf_pin_count := buf_pin_count v - 1\<rparr>) s)"

definition begin_load :: "ChunkKey \<Rightarrow> BufferMgr \<Rightarrow> BufferMgr" where
  "begin_load key s = s\<lparr>in_progress := List.insert key (in_progress s)\<rparr>"

definition end_load :: "ChunkKey \<Rightarrow> BufferMgr \<Rightarrow> BufferMgr" where
  "end_load key s = s\<lparr>in_progress := removeAll key (in_progress s)\<rparr>"

definition get_present :: "parent_mgr \<Rightarrow> ChunkKey \<Rightarrow> nat \<Rightarrow> nat \<Rightarrow> BufferMgr \<Rightarrow> get_result outcome option" where
  "get_present par key num_bytes i s =
     (case Option.bind (lookup_seg s i) seg_buffer of None \<Rightarrow> Some (Inl CheckFailed, s)
      | Some p \<Rightarrow>
          let s1 = (update_seg i (\<lambda>c. c\<lparr>last_touched := buffer_epoch s\<rparr>) (pin_buf p s))
                     \<lparr>buffer_epoch := buffer_epoch s + 1\<rparr>
          in (case get_buf s1 p of None \<Rightarrow> Some (Inl Undefined, s1)
              | Some v \<Rightarrow>
                  if buf_size v < num_bytes then
                    do {
                      (r, s2) \<leftarrow> fetch par key p num_bytes (begin_load key s1);
                      (case r of Inl e \<Rightarrow> Some (Inl e, s2)
                       | Inr _ \<Rightarrow> Some (Inr (Got p), end_load key s2))
                    }
                  else Some (Inr (Got p), s1)))"

definition get_missing :: "os_alloc \<Rightarrow> parent_mgr \<Rightarrow> ChunkKey \<Rightarrow> nat \<Rightarrow> BufferMgr \<Rightarrow> get_result outcome option" where
  "get_missing os par key num_bytes s =
     (let s1 = begin_load key s
      in case zero_copy par key num_bytes of
           Some t \<Rightarrow>
             (case createZeroCopyBuffer key t s1 of
                (Inl e, s2) \<Rightarrow> Some (Inl e, s2)
              | (Inr p, s2) \<Rightarrow> Some (Inr (Got p), end_load key s2))
         | None \<Rightarrow>
             do {
               (r, s2) \<leftarrow> createBuffer os key (page_size s1) num_bytes s1;
               (case r of Inl e \<Rightarrow> Some (Inl e, s2)
                | Inr p \<Rightarrow>
                    do {
                      (q, s3) \<leftarrow> fetch par key p num_bytes s2;
                      (case q of Inl e \<Rightarrow> Some (Inl CheckFailed, s3)
                       | Inr _ \<Rightarrow> Some (Inr (Got p), end_load key s3))
                    })
             })"

definition getBuffer :: "os_alloc \<Rightarrow> parent_mgr \<Rightarrow> ChunkKey \<Rightarrow> nat \<Rightarrow> BufferMgr \<Rightarrow> get_result outcome option" where
  "getBuffer os par key num_bytes s =
     (if key \<in> set (in_progress s) then Some (Inr Blocked, s)
      else case map_of (chunk_index s) key of
             Some i \<Rightarrow> get_present par key num_bytes i s
           | None \<Rightarrow> get_missing os par key num_bytes s)"

section \<open>Clearing and reporting\<close>

definition clear :: "BufferMgr \<Rightarrow> BufferMgr" where
  "clear s = s\<lparr>heap := fold (\<lambda>p h. AList.delete p h)
                        (List.map_filter (\<lambda>(_, i). Option.bind (lookup_seg s i) seg_buffer) (chunk_index s))
                        (heap s),
               chunk_index := [], slabs := [], slab_segments := [], unsized_segs := [],
               buffer_epoch := 0\<rparr>"

text \<open>
  The loop of \<open>clearSlabs\<close> visits the nodes in list order; \<open>deleteBuffer\<close> unlinks free
  neighbours only, which the loop does nothing for.
\<close>

fun clear_segs :: "nat list \<Rightarrow> bool \<Rightarrow> BufferMgr \<Rightarrow> bool outcome" where
  "clear_segs [] pinned s = (Inr pinned, s)"
| "clear_segs (i # is) pinned s =
     (case lookup_seg s i of None \<Rightarrow> clear_segs is pinned s
      | Some b \<Rightarrow>
          if mem_status b = FREE then clear_segs is pinned s
          else if seg_pins s b < 1 then
            (case deleteBuffer (chunk_key b) s of
               (Inl e, s') \<Rightarrow> (Inl e, s')
             | (Inr _, s') \<Rightarrow> clear_segs is pinned s')
          else clear_segs is True s)"

definition clearSlabs :: "BufferMgr \<Rightarrow> unit outcome" where
  "clearSlabs s =
     (case clear_segs (map seg_id (concat (slab_segments s))) False s of
        (Inl e, s') \<Rightarrow> (Inl e, s')
      | (Inr pinned, s') \<Rightarrow> (Inr (), if pinned then s' else reinit (clear s')))"

text \<open>
  \<open>deleteBuffersWithPrefix\<close>: \<open>std::map\<close> order, from the first key not below the prefix on,
  while \<open>std::search\<close> finds the prefix in the key's first \<open>prefix.size()\<close> elements; a key
  shorter than the prefix is read past its end.
\<close>

fun delete_prefix_loop :: "ChunkKey \<Rightarrow> ChunkKey list \<Rightarrow> BufferMgr \<Rightarrow> unit outcome" where
  "delete_prefix_loop pre [] s = (Inr (), s)"
| "delete_prefix_loop pre (key # keys) s =
     (if length key < length pre then (Inl Undefined, s)
      else if take (length pre) key = pre \<and> pre \<noteq> [] then
        (case map_of (chunk_index s) key of None \<Rightarrow> (Inl Undefined, s)
         | Some i \<Rightarrow>
             (case lookup_seg s i of None \<Rightarrow> (Inl Undefined, s)
              | Some b \<Rightarrow>
                  if seg_buffer b \<noteq> None \<and> seg_pins s b \<noteq> 0 then delete_prefix_loop pre keys s
                  else let s1 = removeSegment i (delete_seg_buffer i s)
                       in delete_prefix_loop pre keys
                            (s1\<lparr>chunk_index := AList.delete key (chunk_index s1)\<rparr>)))
      else (Inr (), s))"

definition deleteBuffersWithPrefix :: "ChunkKey \<Rightarrow> BufferMgr \<Rightarrow> unit outcome" where
  "deleteBuffersWithPrefix pre s =
     delete_prefix_loop pre (filter (\<lambda>k. pre \<le> k) (sort (map fst (chunk_index s)))) s"

definition getInUseSize :: "BufferMgr \<Rightarrow> nat" where
  "getInUseSize s =
     sum_list (map (\<lambda>b. if mem_status b \<noteq> FREE then num_pages b * page_size s else 0)
       (concat (slab_segments s)))"

definition getAllocated :: "BufferMgr \<Rightarrow> nat" where
  "getAllocated s = num_pages_allocated s * page_size s"

definition getMaxSize :: "BufferMgr \<Rightarrow> nat" where
  "getMaxSize s = page_size s * max_buffer_pool_num_pages s"

definition getNumChunks :: "BufferMgr \<Rightarrow> nat" where
  "getNumChunks s = length (chunk_index s)"

end
