(* ===== verification/Buffer_Mgr_Inv.thy ===== *)
theory Buffer_Mgr_Inv
  imports Buffer_Mgr
begin

text \<open>
  The invariant of the buffer pool and its preservation by the operations of \<open>Buffer_Mgr\<close>:
  slabs stay tiled and coalesced, the index names exactly the used segments, each of which
  holds a live buffer, and the pool never outgrows its limit.
\<close>

section \<open>The invariant\<close>

definition live :: "BufferMgr \<Rightarrow> BufferSeg set" where
  "live s = set (used (all_segs s))"

definition bm_config :: "BufferMgr \<Rightarrow> bool" where
  "bm_config s \<longleftrightarrow> 0 < page_size s \<and> 0 < min_num_pages_per_slab s"

definition bm_pool :: "BufferMgr \<Rightarrow> bool" where
  "bm_pool s \<longleftrightarrow>
     pool_ok (slab_segments s) \<and> pool_nodes (next_seg s) (slab_segments s) \<and>
     pool_pages (slab_segments s) = num_pages_allocated s \<and>
     num_pages_allocated s \<le> max_buffer_pool_num_pages s \<and>
     length (slabs s) = length (slab_segments s) \<and>
     (\<forall>b \<in> set (unsized_segs s). mem_status b = USED \<and> slab_num b < 0 \<and> start_page b < 0 \<and>
        num_pages b = 0 \<and> seg_id b < next_seg s) \<and>
     distinct (map seg_id (unsized_segs s)) \<and>
     (\<forall>x < length (slab_segments s). ids (unsized_segs s) \<inter> ids (slab_segments s ! x) = {})"

text \<open>
  \<open>J\<close> are the segments an operation has taken but not yet given to a chunk; between
  operations there is none.
\<close>

definition bm_index :: "nat set \<Rightarrow> BufferMgr \<Rightarrow> bool" where
  "bm_index J s \<longleftrightarrow>
     distinct (map fst (chunk_index s)) \<and>
     set (chunk_index s) = (\<lambda>b. (chunk_key b, seg_id b)) ` {b \<in> live s. seg_id b \<notin> J} \<and>
     (\<forall>b \<in> live s. seg_id b \<notin> J \<longrightarrow> chunk_key b \<noteq> [])"

text \<open>
  The buffer a segment holds points back to it and lies in the segment's memory, with room
  for the pages it has reserved; only a segment outside the slabs can hold a lent buffer.
\<close>

definition seg_addr :: "BufferMgr \<Rightarrow> BufferSeg \<Rightarrow> nat" where
  "seg_addr s b = slabs s ! nat (slab_num b) + nat (start_page b) * page_size s"

definition buf_ok :: "BufferMgr \<Rightarrow> BufferSeg \<Rightarrow> Buffer \<Rightarrow> bool" where
  "buf_ok s b v \<longleftrightarrow>
     seg_it v = seg_id b \<and> 0 < buf_page_size v \<and>
     buf_num_pages v * buf_page_size v \<le> num_pages b * page_size s \<and>
     length (page_dirty_flags v) = buf_num_pages v \<and>
     (0 \<le> slab_num b \<longrightarrow> token v = None \<and> mem v = Some (seg_addr s b)) \<and>
     (token v = None \<longrightarrow> buf_size v \<le> buf_num_pages v * buf_page_size v)"

definition bm_bufs :: "nat set \<Rightarrow> BufferMgr \<Rightarrow> bool" where
  "bm_bufs J s \<longleftrightarrow>
     distinct (map fst (heap s)) \<and> (\<forall>p \<in> fst ` set (heap s). p < next_buf s) \<and>
     (\<forall>b \<in> live s. seg_id b \<notin> J \<longrightarrow>
        (\<exists>p v. seg_buffer b = Some p \<and> get_buf s p = Some v \<and> buf_ok s b v))"

definition bm_inv_except :: "nat set \<Rightarrow> BufferMgr \<Rightarrow> bool" where
  "bm_inv_except J s \<longleftrightarrow> bm_config s \<and> bm_pool s \<and> bm_index J s \<and> bm_bufs J s"

abbreviation bm_inv :: "BufferMgr \<Rightarrow> bool" where
  "bm_inv \<equiv> bm_inv_except {}"

lemmas bm_inv_defs = bm_inv_except_def bm_config_def bm_pool_def bm_index_def bm_bufs_def

text \<open>What no search for room changes, whether or not it succeeds.\<close>

definition same_chunks :: "BufferMgr \<Rightarrow> BufferMgr \<Rightarrow> bool" where
  "same_chunks s s' \<longleftrightarrow>
     unsized_segs s' = unsized_segs s \<and> memory s' = memory s \<and> next_buf s' = next_buf s \<and>
     in_progress s' = in_progress s \<and> page_size s' = page_size s \<and>
     max_buffer_id s' = max_buffer_id s \<and>
     min_num_pages_per_slab s' = min_num_pages_per_slab s \<and>
     max_num_pages_per_slab s' = max_num_pages_per_slab s \<and>
     max_buffer_pool_num_pages s' = max_buffer_pool_num_pages s"

lemma same_chunks_refl [simp]: "same_chunks s s"
  by (simp add: same_chunks_def)

lemma same_chunks_trans: "same_chunks s t \<Longrightarrow> same_chunks t u \<Longrightarrow> same_chunks s u"
  by (simp add: same_chunks_def)

section \<open>Node identities\<close>

lemma pool_nodes_distinct: "pool_nodes n ss \<Longrightarrow> distinct (map seg_id (concat ss))"
  by (rule distinct_map_concat) (auto simp: pool_nodes_def nodes_def ids_def)

lemma all_segs_distinct:
  assumes "bm_pool s"
  shows "distinct (map seg_id (all_segs s))"
proof -
  from assms have "distinct (map seg_id (concat (slab_segments s)))"
    and "distinct (map seg_id (unsized_segs s))"
    and sep: "\<forall>x < length (slab_segments s). ids (unsized_segs s) \<inter> ids (slab_segments s ! x) = {}"
    by (auto simp: bm_pool_def dest: pool_nodes_distinct)
  moreover have "ids (unsized_segs s) \<inter> ids (concat (slab_segments s)) = {}"
    using sep by (fastforce simp: ids_def in_set_conv_nth)
  ultimately show ?thesis by (auto simp: all_segs_def ids_def)
qed

lemma lookup_seg_iff:
  "bm_pool s \<Longrightarrow> lookup_seg s i = Some b \<longleftrightarrow> b \<in> set (all_segs s) \<and> seg_id b = i"
  unfolding lookup_seg_def by (rule find_distinct_iff) (rule all_segs_distinct)

lemma live_unique:
  "bm_pool s \<Longrightarrow> b \<in> live s \<Longrightarrow> c \<in> set (all_segs s) \<Longrightarrow> seg_id b = seg_id c \<Longrightarrow> b = c"
  using all_segs_distinct [of s] by (auto simp: live_def set_used distinct_map inj_on_def)

lemma all_segs_cases [consumes 1, case_names unsized slab]:
  assumes "b \<in> set (all_segs s)"
  obtains "b \<in> set (unsized_segs s)"
    | x where "x < length (slab_segments s)" and "b \<in> set (slab_segments s ! x)"
  using assms by (auto simp: all_segs_def in_set_conv_nth [of _ "slab_segments s"])

lemma slab_nodes: "bm_pool s \<Longrightarrow> x < length (slab_segments s) \<Longrightarrow> nodes (next_seg s) (int x) (slab_segments s ! x)"
  by (simp add: bm_pool_def pool_nodes_def)

lemma all_segs_less:
  assumes "bm_pool s" and "b \<in> set (all_segs s)"
  shows "seg_id b < next_seg s"
  using assms(2)
proof (cases rule: all_segs_cases)
  case unsized
  with assms(1) show ?thesis by (simp add: bm_pool_def)
next
  case (slab x)
  with slab_nodes [OF assms(1)] show ?thesis by (simp add: nodes_def)
qed

lemma in_slab_all_segs: "x < length (slab_segments s) \<Longrightarrow> b \<in> set (slab_segments s ! x) \<Longrightarrow> b \<in> set (all_segs s)"
  by (auto simp: all_segs_def)

lemma live_in_all_segs: "b \<in> live s \<Longrightarrow> b \<in> set (all_segs s)"
  by (simp add: live_def set_used)

lemma live_slab_num:
  assumes "bm_pool s" and "b \<in> live s"
  shows "slab_num b < int (length (slabs s))"
  using live_in_all_segs [OF assms(2)]
proof (cases rule: all_segs_cases)
  case unsized
  with assms(1) have "slab_num b < 0" by (simp add: bm_pool_def)
  then show ?thesis by simp
next
  case (slab x)
  with slab_nodes [OF assms(1) slab(1)] assms show ?thesis
    by (simp add: nodes_def live_def set_used bm_pool_def)
qed

text \<open>New slabs move no buffer.\<close>

lemma buf_ok_extend:
  assumes "bm_pool s" "b \<in> live s" and "slabs s' = slabs s @ xs" "page_size s' = page_size s"
  shows "buf_ok s' b v = buf_ok s b v"
  using assms live_slab_num [OF assms(1,2)]
  by (auto simp: buf_ok_def seg_addr_def nth_append nat_less_iff)

section \<open>One slab changes\<close>

definition set_slab :: "nat \<Rightarrow> BufferSeg list \<Rightarrow> BufferMgr \<Rightarrow> BufferMgr" where
  "set_slab x bs s = s\<lparr>slab_segments := (slab_segments s)[x := bs]\<rparr>"

lemma used_set_slab:
  assumes "x < length (slab_segments s)"
  obtains A B where "used (all_segs s) = A @ used (slab_segments s ! x) @ B"
    and "\<And>bs. used (all_segs (set_slab x bs s)) = A @ used bs @ B"
proof -
  let ?ss = "slab_segments s"
  let ?A = "used (unsized_segs s) @ used (concat (take x ?ss))"
  let ?B = "used (concat (drop (Suc x) ?ss))"
  have "concat ?ss = concat (take x ?ss) @ ?ss ! x @ concat (drop (Suc x) ?ss)"
    using id_take_nth_drop [OF assms] by (metis concat.simps(2) concat_append)
  then have "used (all_segs s) = ?A @ used (?ss ! x) @ ?B" by (simp add: all_segs_def)
  moreover have "used (all_segs (set_slab x bs s)) = ?A @ used bs @ ?B" for bs
    using assms by (simp add: all_segs_def set_slab_def upd_conv_take_nth_drop)
  ultimately show ?thesis by (rule that)
qed

lemma unsized_sep_update:
  assumes "bm_pool s" and "x < length (slab_segments s)"
    and "ids bs' \<subseteq> ids (slab_segments s ! x) \<union> {next_seg s, next_seg s + 1}"
    and "y < length (slab_segments s)"
  shows "ids (unsized_segs s) \<inter> ids ((slab_segments s)[x := bs'] ! y) = {}"
proof -
  have fresh: "next_seg s \<notin> ids (unsized_segs s)" "next_seg s + 1 \<notin> ids (unsized_segs s)"
    using assms(1) by (force simp: bm_pool_def ids_def)+
  have "ids (slab_segments s ! x) \<inter> ids (unsized_segs s) = {}"
    using assms(1,2) by (auto simp: bm_pool_def)
  from disjoint_extend [OF assms(3) this fresh] assms(1,2,4) show ?thesis
    by (cases "x = y") (auto simp: bm_pool_def)
qed

text \<open>Running any \<open>slab_op\<close> on a slab of the manager keeps the pool part of the invariant.\<close>

context slab_op
begin

lemma set_slab_pool:
  assumes "slab_fun (slab_segments s ! x) = Some bs'" and "pre (slab_segments s ! x)"
    and "x < length (slab_segments s)" and "bm_pool s" and "n = next_seg s" and "k = int x"
  shows "bm_pool ((set_slab x bs' s)\<lparr>next_seg := next_seg s + 2\<rparr>)"
proof -
  let ?ss = "slab_segments s"
  from assms(4) have pool: "pool_ok ?ss" "pool_nodes (next_seg s) ?ss" by (auto simp: bm_pool_def)
  have ids: "ids bs' \<subseteq> ids (?ss ! x) \<union> {next_seg s, next_seg s + 1}"
    using keeps_nodes [OF assms(1)] pool(2) assms(3,5,6) by (auto simp: pool_nodes_def)
  have "pool_ok (?ss[x := bs'])" "pool_pages (?ss[x := bs']) = pool_pages ?ss"
    using pool_update [OF assms(1-3) pool(1)] by auto
  moreover have "pool_nodes (next_seg s + 2) (?ss[x := bs'])"
    using pool_nodes_update [OF assms(1,3)] assms(5,6) pool(2) by simp
  moreover have "\<forall>y < length ?ss. ids (unsized_segs s) \<inter> ids (?ss[x := bs'] ! y) = {}"
    using unsized_sep_update [OF assms(4,3) ids] by simp
  moreover have "\<forall>b \<in> set (unsized_segs s). seg_id b < next_seg s + 2"
    using assms(4) by (auto simp: bm_pool_def)
  ultimately show ?thesis using assms(4) by (simp add: bm_pool_def set_slab_def)
qed

end

section \<open>Taking a segment\<close>

text \<open>
  \<open>takes s req j ev s'\<close>: from \<open>s\<close> to \<open>s'\<close> segment \<open>j\<close> of \<open>req\<close> pages became used, and
  the unpinned chunks in \<open>ev\<close> were given up for it; nothing else happened to any chunk.
\<close>

definition takes :: "BufferMgr \<Rightarrow> nat \<Rightarrow> nat \<Rightarrow> BufferSeg set \<Rightarrow> BufferMgr \<Rightarrow> bool" where
  "takes s req j ev s' \<longleftrightarrow>
     bm_pool s' \<and> same_chunks s s' \<and> ev \<subseteq> live s \<and>
     (\<forall>b \<in> ev. seg_pins s b < 1 \<and> 0 \<le> slab_num b) \<and>
     (\<exists>d. live s' = insert d (live s - ev) \<and> seg_id d = j \<and> num_pages d = req \<and>
        mem_status d = USED \<and> seg_buffer d = None \<and> 0 \<le> slab_num d) \<and>
     j \<notin> seg_id ` live s \<and>
     distinct (map fst (chunk_index s')) \<and>
     set (chunk_index s') = {(k, i). (k, i) \<in> set (chunk_index s) \<and> k \<notin> chunk_key ` ev} \<and>
     distinct (map fst (heap s')) \<and>
     set (heap s') = {(p, v). (p, v) \<in> set (heap s) \<and> Some p \<notin> seg_buffer ` ev} \<and>
     (\<exists>xs. slabs s' = slabs s @ xs)"

lemma free_not_live:
  assumes "bm_pool s" and "x < length (slab_segments s)" and "f \<in> set (slab_segments s ! x)"
    and "mem_status f = FREE"
  shows "seg_id f \<notin> seg_id ` live s"
proof
  assume "seg_id f \<in> seg_id ` live s"
  then obtain b where "b \<in> live s" "seg_id b = seg_id f" by auto
  with live_unique [OF assms(1)] in_slab_all_segs [OF assms(2,3)] have "f \<in> live s" by auto
  with assms(4) show False by (simp add: live_def set_used)
qed

lemma findFreeBufferInSlab_takes:
  assumes inv: "bm_pool s" "distinct (map fst (chunk_index s))" "distinct (map fst (heap s))"
    and x: "x < length (slab_segments s)"
    and found: "findFreeBufferInSlab x req s = (Some i, s')"
  shows "takes s req i {} s'"
proof -
  from found obtain bs' where ff:
    "find_free req (buffer_epoch s) (int x) (next_seg s) (slab_segments s ! x) = Some (i, bs')"
    and s': "s' = (set_slab x bs' s)\<lparr>buffer_epoch := buffer_epoch s + 1, next_seg := next_seg s + 2\<rparr>"
    by (auto simp: findFreeBufferInSlab_def set_slab_def split: option.splits)
  have "bm_pool ((set_slab x bs' s)\<lparr>next_seg := next_seg s + 2\<rparr>)"
    by (rule find_free_op.set_slab_pool [where req = req and ep = "buffer_epoch s"]) (use ff x inv in auto)
  then have pool: "bm_pool s'" by (simp add: s' bm_pool_def)
  from find_free_used [OF ff] obtain xs f ys where u: "used (slab_segments s ! x) = xs @ ys"
    "f \<in> set (slab_segments s ! x)" "mem_status f = FREE" "seg_id f = i"
    and u': "used bs' = xs @ f\<lparr>num_pages := req, mem_status := USED,
               last_touched := buffer_epoch s, slab_num := int x\<rparr> # ys" by blast
  let ?d = "f\<lparr>num_pages := req, mem_status := USED, last_touched := buffer_epoch s, slab_num := int x\<rparr>"
  from used_set_slab [OF x] obtain A B where AB: "used (all_segs s) = A @ used (slab_segments s ! x) @ B"
    "\<And>bs. used (all_segs (set_slab x bs s)) = A @ used bs @ B" by blast
  have "all_segs s' = all_segs (set_slab x bs' s)" by (simp add: s' all_segs_def)
  then have live': "live s' = insert ?d (live s - {})" using AB u(1) u' by (auto simp: live_def)
  have "seg_buffer f = None"
    using slab_nodes [OF inv(1) x] u(2,3) by (simp add: nodes_def)
  moreover have "i \<notin> seg_id ` live s" using free_not_live [OF inv(1) x u(2,3)] u(4) by simp
  moreover have "same_chunks s s'" by (simp add: s' set_slab_def same_chunks_def)
  ultimately show ?thesis
    unfolding takes_def using pool live' u(4) inv(2,3)
    by (auto simp: s' set_slab_def intro!: exI [of _ ?d])
qed

lemma findFreeBufferInSlab_None: "findFreeBufferInSlab x req s = (None, s') \<Longrightarrow> s' = s"
  by (auto simp: findFreeBufferInSlab_def split: option.splits)

lemma find_in_slabs_takes:
  assumes "bm_pool s" "distinct (map fst (chunk_index s))" "distinct (map fst (heap s))"
    and "\<forall>x \<in> set xs. x < length (slab_segments s)"
  shows "find_in_slabs xs req s = (Some i, s') \<Longrightarrow> takes s req i {} s'"
    and "find_in_slabs xs req s = (None, s') \<Longrightarrow> s' = s"
  using assms(4)
  by (induction xs)
    (auto split: prod.splits option.splits dest: findFreeBufferInSlab_None
      findFreeBufferInSlab_takes [OF assms(1-3)])

section \<open>Adding slabs\<close>

lemma pool_ok_snoc: "pool_ok (ss @ [bs]) \<longleftrightarrow> pool_ok ss \<and> layout 0 bs \<and> coalesced bs"
  by (auto simp: pool_ok_def)

lemma pool_pages_snoc: "pool_pages (ss @ [bs]) = pool_pages ss + total_pages bs"
  by (simp add: pool_pages_def)

lemma pool_nodes_snoc:
  assumes "pool_nodes n ss"
  shows "pool_nodes (Suc n) (ss @ [[mk_seg n 0 np FREE lt]])"
proof -
  have old: "nodes n (int x) (ss ! x)" if "x < length ss" for x using assms that by (simp add: pool_nodes_def)
  then have "n \<notin> ids (ss ! x)" if "x < length ss" for x using that by (auto dest: nodes_id_less)
  moreover have "nodes (Suc n) (int x) (ss ! x)" if "x < length ss" for x
    using old [OF that] by (rule nodes_mono) simp
  ultimately show ?thesis using assms
    by (auto simp: pool_nodes_def nth_append nodes_Cons less_Suc_eq)
qed

lemma addSlab_True:
  assumes inv: "bm_pool s" "bm_config s" and add: "addSlab os (cur * page_size s) s = (True, s')"
    and room: "num_pages_allocated s + cur \<le> max_buffer_pool_num_pages s"
  shows "bm_pool (s'\<lparr>num_pages_allocated := num_pages_allocated s' + cur\<rparr>)"
    and "slab_segments s' = slab_segments s @ [[mk_seg (next_seg s) 0 cur FREE 0]]"
    and "same_chunks s s'" and "chunk_index s' = chunk_index s" and "heap s' = heap s"
    and "live s' = live s" and "\<exists>a. slabs s' = slabs s @ [a]"
proof -
  let ?seg = "mk_seg (next_seg s) 0 cur FREE 0"
  from add obtain a where s': "s' = s\<lparr>alloc_calls := alloc_calls s + 1, slabs := slabs s @ [a],
      slab_segments := slab_segments s @ [[?seg]], next_seg := next_seg s + 1\<rparr>"
    using inv(2) by (auto simp: addSlab_def Let_def bm_config_def split: option.splits)
  from inv(1) have un: "b \<in> set (unsized_segs s) \<Longrightarrow> seg_id b < next_seg s" for b by (simp add: bm_pool_def)
  then have "next_seg s \<notin> ids (unsized_segs s)" by (force simp: ids_def)
  with inv(1) room un pool_nodes_snoc [of "next_seg s" "slab_segments s" cur 0]
  show "bm_pool (s'\<lparr>num_pages_allocated := num_pages_allocated s' + cur\<rparr>)"
    by (auto simp: s' bm_pool_def pool_ok_snoc pool_pages_snoc nth_append less_Suc_eq)
  show "slab_segments s' = slab_segments s @ [[?seg]]" "same_chunks s s'"
    "chunk_index s' = chunk_index s" "heap s' = heap s" "live s' = live s" "\<exists>a. slabs s' = slabs s @ [a]"
    by (simp_all add: s' same_chunks_def live_def all_segs_def)
qed

lemma addSlab_False: "addSlab os n s = (False, s') \<Longrightarrow> s' = s\<lparr>alloc_calls := alloc_calls s + 1\<rparr>"
  by (auto simp: addSlab_def Let_def split: option.splits)

definition searched :: "BufferMgr \<Rightarrow> BufferMgr \<Rightarrow> bool" where
  "searched s s' \<longleftrightarrow>
     bm_pool s' \<and> bm_config s' \<and> same_chunks s s' \<and> chunk_index s' = chunk_index s \<and>
     heap s' = heap s \<and> live s' = live s \<and> (\<exists>xs. slabs s' = slabs s @ xs)"

lemma searched_refl: "bm_pool s \<Longrightarrow> bm_config s \<Longrightarrow> searched s s"
  by (simp add: searched_def)

lemma searched_trans: "searched s t \<Longrightarrow> searched t u \<Longrightarrow> searched s u"
  by (auto simp: searched_def intro: same_chunks_trans)

text \<open>Only the next slab size changes: the state after a failed attempt.\<close>

lemma clamp_slab_searched:
  assumes "bm_pool s" "bm_config s"
  shows "searched s (clamp_slab s)" and "slab_segments (clamp_slab s) = slab_segments s"
    and "current_max_slab_page_size (clamp_slab s) \<le> current_max_slab_page_size s"
    and "num_pages_allocated s + current_max_slab_page_size (clamp_slab s) \<le> max_buffer_pool_num_pages s"
    and "allocations_capped (clamp_slab s) = allocations_capped s"
    and "max_buffer_pool_num_pages (clamp_slab s) = max_buffer_pool_num_pages s"
    and "num_pages_allocated (clamp_slab s) = num_pages_allocated s"
  using assms
  by (auto simp: clamp_slab_def Let_def searched_def same_chunks_def bm_pool_def bm_config_def
      live_def all_segs_def)

lemma shrink_slab_searched:
  assumes "bm_pool s" "bm_config s"
  shows "searched s (shrink_slab req (s\<lparr>alloc_calls := n\<rparr>))"
    and "slab_segments (shrink_slab req (s\<lparr>alloc_calls := n\<rparr>)) = slab_segments s"
  using assms
  by (auto simp: shrink_slab_def Let_def searched_def same_chunks_def bm_pool_def bm_config_def
      live_def all_segs_def)

definition slab_fuel :: "BufferMgr \<Rightarrow> nat" where
  "slab_fuel s = (if allocations_capped s then 0 else Suc (current_max_slab_page_size s))"

lemma shrink_slab_fuel:
  assumes "bm_config s" "\<not> allocations_capped s" "req \<le> current_max_slab_page_size s"
  shows "slab_fuel (shrink_slab req s) < slab_fuel s"
proof (cases "current_max_slab_page_size s div 2 < req \<and> current_max_slab_page_size s \<noteq> req")
  case True
  then show ?thesis using assms by (auto simp: shrink_slab_def slab_fuel_def Let_def)
next
  case False
  have "current_max_slab_page_size s = 0 \<or> current_max_slab_page_size s div 2 < current_max_slab_page_size s"
    by auto
  with False show ?thesis using assms by (auto simp: shrink_slab_def slab_fuel_def Let_def bm_config_def)
qed

lemma add_slab_loop_spec:
  assumes "bm_pool s" "bm_config s"
  shows "\<exists>ok s'. add_slab_loop os req s = Some (ok, s') \<and> searched s s' \<and>
    (if ok then \<exists>n cur. slab_segments s' = slab_segments s @ [[mk_seg n 0 cur FREE 0]] \<and> req \<le> cur
     else slab_segments s' = slab_segments s)"
  using assms
proof (induction "slab_fuel s" arbitrary: s rule: less_induct)
  case less
  show ?case
  proof (cases "allocations_capped s \<or> max_buffer_pool_num_pages s \<le> num_pages_allocated s")
    case True
    then have "add_slab_loop os req s = Some (False, s)" by (simp add: add_slab_loop.simps)
    then show ?thesis using searched_refl [OF less.prems] by auto
  next
    case False
    let ?s1 = "clamp_slab s"
    let ?cur = "current_max_slab_page_size ?s1"
    note c = clamp_slab_searched [OF less.prems]
    from c(1) have s1: "bm_pool ?s1" "bm_config ?s1" by (auto simp: searched_def)
    show ?thesis
    proof (cases "req \<le> ?cur")
      case small: True
      obtain ok s2 where add: "addSlab os (?cur * page_size ?s1) ?s1 = (ok, s2)" by fastforce
      show ?thesis
      proof (cases ok)
        case True
        let ?s3 = "s2\<lparr>num_pages_allocated := num_pages_allocated s2 + ?cur\<rparr>"
        have "add_slab_loop os req s = Some (True, ?s3)"
          using False small add True by (subst add_slab_loop.simps) (simp add: Let_def)
        moreover have room: "num_pages_allocated ?s1 + ?cur \<le> max_buffer_pool_num_pages ?s1" using c by simp
        from add True have "addSlab os (?cur * page_size ?s1) ?s1 = (True, s2)" by simp
        note a = addSlab_True [OF s1 this room]
        have "searched ?s1 ?s3" using a s1(2)
          by (auto simp: searched_def same_chunks_def bm_config_def live_def all_segs_def)
        then have "searched s ?s3" using c(1) by (blast intro: searched_trans)
        moreover have "slab_segments ?s3 = slab_segments s @ [[mk_seg (next_seg ?s1) 0 ?cur FREE 0]]"
          using a(2) c(2) by simp
        ultimately show ?thesis using small by fastforce
      next
        case failed: False
        let ?t = "shrink_slab req (?s1\<lparr>alloc_calls := alloc_calls ?s1 + 1\<rparr>)"
        from addSlab_False add failed have s2: "s2 = ?s1\<lparr>alloc_calls := alloc_calls ?s1 + 1\<rparr>" by auto
        have unf: "add_slab_loop os req s = add_slab_loop os req ?t"
          using False small add failed s2 by (subst add_slab_loop.simps) (simp add: Let_def)
        note sh = shrink_slab_searched [OF s1, of req "alloc_calls ?s1 + 1"]
        have "slab_fuel ?t < slab_fuel (?s1\<lparr>alloc_calls := alloc_calls ?s1 + 1\<rparr>)"
          using s1(2) c False small by (intro shrink_slab_fuel) (auto simp: bm_config_def)
        also have "\<dots> \<le> slab_fuel s" using c by (simp add: slab_fuel_def)
        finally have "slab_fuel ?t < slab_fuel s" .
        moreover have "bm_pool ?t" "bm_config ?t" using sh(1) by (auto simp: searched_def)
        ultimately obtain ok s' where rec: "add_slab_loop os req ?t = Some (ok, s')" "searched ?t s'"
          "if ok then \<exists>n cur. slab_segments s' = slab_segments ?t @ [[mk_seg n 0 cur FREE 0]] \<and> req \<le> cur
           else slab_segments s' = slab_segments ?t" using less.hyps by blast
        have "searched s s'" using c(1) sh(1) rec(2) by (blast intro: searched_trans)
        moreover have "slab_segments ?t = slab_segments s" using sh(2) c(2) by simp
        ultimately show ?thesis unfolding unf rec(1) using rec(3) by (cases ok) fastforce+
      qed
    next
      case big: False
      then have "add_slab_loop os req s = Some (False, ?s1)"
        using False by (subst add_slab_loop.simps) (simp add: Let_def)
      then show ?thesis using c by auto
    qed
  qed
qed

section \<open>Eviction\<close>

lemma evict_scan_take:
  "evict_scan pins req pc sc bs = Solution sc' \<Longrightarrow>
     \<exists>m ev r. take_evict req pc bs = Some (m, ev, r) \<and>
       (\<forall>b \<in> set ev. mem_status b = USED \<longrightarrow> pins b \<le> 0)"
proof (induction bs arbitrary: pc sc)
  case (Cons b bs)
  show ?case
  proof (cases "pc < req")
    case True
    from Cons.prems have np: "mem_status b = USED \<longrightarrow> pins b \<le> 0" by (auto split: if_splits)
    show ?thesis
    proof (cases "req \<le> pc + num_pages b")
      case enough: True
      then have "take_evict req (pc + num_pages b) bs = Some (pc + num_pages b, [], bs)"
        by (cases bs) auto
      with True np show ?thesis by auto
    next
      case False
      let ?sc = "if mem_status b = USED then max sc (unat (last_touched b)) else sc"
      from Cons.prems False have "evict_scan pins req (pc + num_pages b) ?sc bs = Solution sc'"
        by (auto simp: Let_def split: if_splits)
      from Cons.IH [OF this] True np show ?thesis by auto
    qed
  qed simp
qed simp

text \<open>\<open>window pins req bs i sc\<close>: a run that starts at segment \<open>i\<close> can be evicted, at score \<open>sc\<close>.\<close>

definition window :: "(BufferSeg \<Rightarrow> int) \<Rightarrow> nat \<Rightarrow> BufferSeg list \<Rightarrow> nat \<Rightarrow> nat \<Rightarrow> bool" where
  "window pins req bs i sc \<longleftrightarrow>
     (\<exists>pre b post. bs = pre @ b # post \<and> seg_id b = i \<and> evict_scan pins req 0 0 (b # post) = Solution sc)"

lemma window_Cons:
  "window pins req (b # bs) i sc \<longleftrightarrow>
     (seg_id b = i \<and> evict_scan pins req 0 0 (b # bs) = Solution sc) \<or> window pins req bs i sc"
  unfolding window_def by (auto simp del: evict_scan.simps simp: Cons_eq_append_conv)

lemma window_Nil [simp]: "\<not> window pins req [] i sc"
  by (simp add: window_def)

lemma evict_scan_slab_best:
  "evict_scan_slab pins req k bs st = (sc, Some (k', i)) \<Longrightarrow>
     st = (sc, Some (k', i)) \<or> (k' = k \<and> window pins req bs i sc)"
proof (induction bs arbitrary: st)
  case (Cons b bs)
  show ?case
  proof (cases "evict_scan pins req 0 0 (b # bs)")
    case (Solution sc0)
    let ?st = "if sc0 < fst st then (sc0, Some (k, seg_id b)) else st"
    from Cons.prems Solution have "evict_scan_slab pins req k bs ?st = (sc, Some (k', i))" by simp
    from Cons.IH [OF this] Solution show ?thesis by (auto simp: window_Cons split: if_splits)
  next
    case AtEnd
    with Cons.prems show ?thesis by simp
  next
    case AtPinned
    with Cons.prems have "evict_scan_slab pins req k bs st = (sc, Some (k', i))" by simp
    from Cons.IH [OF this] show ?thesis by (auto simp: window_Cons)
  qed
qed simp

lemma evict_scan_pool_best:
  "evict_scan_pool pins req k bss st = (sc, Some (k', i)) \<Longrightarrow>
     st = (sc, Some (k', i)) \<or>
     (k \<le> k' \<and> k' < k + length bss \<and> window pins req (bss ! (k' - k)) i sc)"
proof (induction bss arbitrary: k st)
  case (Cons bs bss)
  let ?st = "evict_scan_slab pins req k bs st"
  from Cons.prems have "evict_scan_pool pins req (Suc k) bss ?st = (sc, Some (k', i))" by simp
  from Cons.IH [OF this] show ?case
  proof (elim disjE conjE)
    assume "?st = (sc, Some (k', i))"
    from evict_scan_slab_best [OF this] show ?thesis by auto
  next
    assume k: "Suc k \<le> k'" "k' < Suc k + length bss" and b: "window pins req (bss ! (k' - Suc k)) i sc"
    from k have "(bs # bss) ! (k' - k) = bss ! (k' - Suc k)" by (simp add: nth_Cons')
    with k b show ?thesis by auto
  qed
qed simp

lemma best_eviction_Some:
  assumes "best_eviction req s = Some (k, i)"
  shows "k < length (slab_segments s) \<and> (\<exists>sc. window (seg_pins s) req (slab_segments s ! k) i sc)"
proof -
  from assms obtain sc where
    "evict_scan_pool (seg_pins s) req 0 (slab_segments s) (2 ^ 64 - 1, None) = (sc, Some (k, i))"
    by (metis best_eviction_def prod.collapse)
  from evict_scan_pool_best [OF this] show ?thesis by auto
qed

text \<open>The search misses no better window: when it stops early, no later start can succeed.\<close>

lemma evict_scan_score:
  "evict_scan pins req pc sc bs = Solution sc' \<Longrightarrow> sc < 2 ^ 32 \<Longrightarrow> sc' < 2 ^ 32"
proof (induction bs arbitrary: pc sc)
  case (Cons b bs)
  have "unat (last_touched b) < 2 ^ LENGTH(32)" by (rule unsigned_less)
  with Cons show ?case by (auto simp: Let_def split: if_splits)
qed simp

lemma evict_scan_Solution_pages:
  "evict_scan pins req pc sc bs = Solution sc' \<Longrightarrow> req \<le> pc + total_pages bs"
  by (induction bs arbitrary: pc sc) (fastforce simp: Let_def split: if_splits)+

lemma evict_scan_AtEnd_pages:
  "evict_scan pins req pc sc (b # bs) = AtEnd \<Longrightarrow> pc + total_pages (b # bs) < req"
proof (induction bs arbitrary: b pc sc)
  case Nil
  then show ?case by (auto simp: Let_def split: if_splits)
next
  case (Cons c bs)
  from Cons.prems obtain sc' where "evict_scan pins req (pc + num_pages b) sc' (c # bs) = AtEnd"
    by (auto simp: Let_def simp del: evict_scan.simps(2) [of _ _ _ _ c] split: if_splits)
  from Cons.IH [OF this] show ?case by simp
qed

lemma window_pages: "window pins req bs i sc \<Longrightarrow> req \<le> total_pages bs"
  by (auto simp: window_def simp del: evict_scan.simps dest!: evict_scan_Solution_pages)

lemma window_score: "window pins req bs i sc \<Longrightarrow> sc < 2 ^ 32"
  by (auto simp: window_def simp del: evict_scan.simps dest!: evict_scan_score)

lemma evict_scan_slab_min:
  "fst (evict_scan_slab pins req k bs st) \<le> fst st \<and>
   (\<forall>i sc. window pins req bs i sc \<longrightarrow> fst (evict_scan_slab pins req k bs st) \<le> sc) \<and>
   (snd (evict_scan_slab pins req k bs st) = None \<longrightarrow> evict_scan_slab pins req k bs st = st)"
proof (induction bs arbitrary: st)
  case (Cons b bs)
  show ?case
  proof (cases "evict_scan pins req 0 0 (b # bs)")
    case (Solution sc0)
    let ?st = "if sc0 < fst st then (sc0, Some (k, seg_id b)) else st"
    have "evict_scan_slab pins req k (b # bs) st = evict_scan_slab pins req k bs ?st"
      using Solution by simp
    moreover have "fst ?st \<le> sc0" "fst ?st \<le> fst st" by auto
    moreover have "evict_scan_slab pins req k bs ?st = ?st \<Longrightarrow> snd ?st = None \<Longrightarrow> ?st = st"
      by (auto split: if_splits)
    ultimately show ?thesis using Cons.IH [of ?st] Solution by (fastforce simp: window_Cons)
  next
    case AtEnd
    then have "\<not> window pins req (b # bs) i sc" for i sc
      using evict_scan_AtEnd_pages [OF AtEnd] by (auto dest: window_pages)
    with AtEnd show ?thesis by simp
  next
    case AtPinned
    with Cons.IH [of st] show ?thesis by (auto simp: window_Cons)
  qed
qed simp

lemma evict_scan_pool_min:
  "fst (evict_scan_pool pins req k bss st) \<le> fst st \<and>
   (\<forall>bs \<in> set bss. \<forall>i sc. window pins req bs i sc \<longrightarrow> fst (evict_scan_pool pins req k bss st) \<le> sc) \<and>
   (snd (evict_scan_pool pins req k bss st) = None \<longrightarrow> evict_scan_pool pins req k bss st = st)"
proof (induction bss arbitrary: k st)
  case (Cons bs bss)
  let ?st = "evict_scan_slab pins req k bs st"
  note slab = evict_scan_slab_min [of pins req k bs st]
  have "evict_scan_pool pins req k (bs # bss) st = evict_scan_pool pins req (Suc k) bss ?st" by simp
  moreover note Cons.IH [of "Suc k" ?st]
  ultimately show ?case using slab by (fastforce intro: order_trans)
qed simp

lemma drop_evicted_fields:
  "drop_evicted b s = s\<lparr>chunk_index := chunk_index (drop_evicted b s), heap := heap (drop_evicted b s)\<rparr>"
  by (cases "seg_buffer b") (simp_all add: drop_evicted_def delete_buf_def Let_def)

lemma fold_drop_evicted:
  assumes "distinct (map fst (chunk_index s))" "distinct (map fst (heap s))"
  shows "\<exists>ci h. fold drop_evicted ev s = s\<lparr>chunk_index := ci, heap := h\<rparr> \<and>
    distinct (map fst ci) \<and> distinct (map fst h) \<and>
    set ci = {(k, i). (k, i) \<in> set (chunk_index s) \<and>
                (\<forall>b \<in> set ev. mem_status b = USED \<and> chunk_key b \<noteq> [] \<longrightarrow> k \<noteq> chunk_key b)} \<and>
    set h = {(p, v). (p, v) \<in> set (heap s) \<and> Some p \<notin> seg_buffer ` set ev}"
  using assms
proof (induction ev arbitrary: s)
  case Nil
  then show ?case by (intro exI [of _ "chunk_index s"] exI [of _ "heap s"]) auto
next
  case (Cons b ev)
  let ?s = "drop_evicted b s"
  have d: "distinct (map fst (chunk_index ?s))" "distinct (map fst (heap ?s))"
    using Cons.prems
    by (auto simp: drop_evicted_def delete_buf_def Let_def distinct_delete split: option.splits)
  have ci: "set (chunk_index ?s) = {(k, i). (k, i) \<in> set (chunk_index s) \<and>
      (mem_status b = USED \<and> chunk_key b \<noteq> [] \<longrightarrow> k \<noteq> chunk_key b)}"
    by (auto simp: drop_evicted_def delete_buf_def Let_def set_AList_delete split: option.splits)
  have h: "set (heap ?s) = {(p, v). (p, v) \<in> set (heap s) \<and> Some p \<noteq> seg_buffer b}"
    by (auto simp: drop_evicted_def delete_buf_def Let_def set_AList_delete split: option.splits)
  from Cons.IH [OF d] obtain ci' h' where IH: "fold drop_evicted ev ?s = ?s\<lparr>chunk_index := ci', heap := h'\<rparr>"
    "distinct (map fst ci')" "distinct (map fst h')"
    "set ci' = {(k, i). (k, i) \<in> set (chunk_index ?s) \<and>
       (\<forall>b \<in> set ev. mem_status b = USED \<and> chunk_key b \<noteq> [] \<longrightarrow> k \<noteq> chunk_key b)}"
    "set h' = {(p, v). (p, v) \<in> set (heap ?s) \<and> Some p \<notin> seg_buffer ` set ev}" by blast
  have "?s\<lparr>chunk_index := ci', heap := h'\<rparr> = s\<lparr>chunk_index := ci', heap := h'\<rparr>"
    by (subst drop_evicted_fields) simp
  with IH ci h show ?case
    by (intro exI [of _ ci'] exI [of _ h']) auto
qed

lemma evict_at_append:
  "i \<notin> ids pre \<Longrightarrow>
     evict_at i req ep k n (pre @ bs) = map_option (\<lambda>(ev, l). (ev, pre @ l)) (evict_at i req ep k n bs)"
  by (induction pre) (auto simp: option.map_comp comp_def split_def map_option.identity)

lemma evict_at_window:
  assumes "window pins req bs i sc" and "distinct (map seg_id bs)"
  shows "\<exists>ev bs'. evict_at i req ep k n bs = Some (ev, bs') \<and>
    (\<forall>b \<in> set ev. mem_status b = USED \<longrightarrow> pins b \<le> 0)"
proof -
  from assms(1) obtain pre b post where bs: "bs = pre @ b # post" "seg_id b = i"
    and scan: "evict_scan pins req 0 0 (b # post) = Solution sc" by (auto simp: window_def)
  from evict_scan_take [OF scan] obtain m ev r where
    te: "take_evict req 0 (b # post) = Some (m, ev, r)"
    and unpinned: "\<forall>b \<in> set ev. mem_status b = USED \<longrightarrow> pins b \<le> 0" by blast
  then obtain l where "evict_at i req ep k n (b # post) = Some (ev, l)"
    using bs(2) by (auto simp: evict_tail_def Let_def)
  moreover have "i \<notin> ids pre" using assms(2) bs by (auto simp: ids_def)
  ultimately show ?thesis using unpinned by (auto simp: bs(1) evict_at_append)
qed

lemma evict_takes:
  assumes inv: "bm_inv s" and k: "k < length (slab_segments s)"
    and win: "window (seg_pins s) req (slab_segments s ! k) i sc"
  shows "\<exists>ev s'. evict i req k s = (Inr (next_seg s), s') \<and> takes s req (next_seg s) ev s'"
proof -
  let ?bs = "slab_segments s ! k"
  from inv have pool: "bm_pool s" and dist: "distinct (map fst (chunk_index s))" "distinct (map fst (heap s))"
    by (auto simp: bm_inv_defs)
  have nodes: "nodes (next_seg s) (int k) ?bs" by (rule slab_nodes [OF pool k])
  then have "distinct (map seg_id ?bs)" by (simp add: nodes_def)
  from evict_at_window [OF win this] obtain ev bs' where
    ea: "evict_at i req (buffer_epoch s) (int k) (next_seg s) ?bs = Some (ev, bs')"
    and unpinned: "\<forall>b \<in> set ev. mem_status b = USED \<longrightarrow> seg_pins s b \<le> 0" by blast
  from fold_drop_evicted [OF dist, of ev] obtain ci h where
    f: "fold drop_evicted ev s = s\<lparr>chunk_index := ci, heap := h\<rparr>"
      "distinct (map fst ci)" "distinct (map fst h)"
      "set ci = {(k, i). (k, i) \<in> set (chunk_index s) \<and>
        (\<forall>b \<in> set ev. mem_status b = USED \<and> chunk_key b \<noteq> [] \<longrightarrow> k \<noteq> chunk_key b)}"
      "set h = {(p, v). (p, v) \<in> set (heap s) \<and> Some p \<notin> seg_buffer ` set ev}" by blast
  let ?s' = "s\<lparr>chunk_index := ci, heap := h, slab_segments := (slab_segments s)[k := bs'],
               buffer_epoch := buffer_epoch s + 1, next_seg := next_seg s + 2\<rparr>"
  have ev_eq: "evict i req k s = (Inr (next_seg s), ?s')"
    using ea unpinned f(1) by (fastforce simp: evict_def)
  have "bm_pool ((set_slab k bs' s)\<lparr>next_seg := next_seg s + 2\<rparr>)"
    by (rule evict_op.set_slab_pool [where req = req and ep = "buffer_epoch s" and i = i]) (use ea k pool in auto)
  then have pool': "bm_pool ?s'" by (simp add: set_slab_def bm_pool_def)
  from evict_at_used [OF ea] obtain pre post sp where split: "?bs = pre @ ev @ post"
    and u': "used bs' = used pre @ evicted_seg req (buffer_epoch s) (int k) (next_seg s) sp # used post"
    by blast
  let ?d = "evicted_seg req (buffer_epoch s) (int k) (next_seg s) sp"
  from used_set_slab [OF k] obtain A B where AB: "used (all_segs s) = A @ used ?bs @ B"
    "\<And>bs. used (all_segs (set_slab k bs s)) = A @ used bs @ B" by blast
  have "distinct (used (all_segs s))"
    using all_segs_distinct [OF pool] by (simp add: used_def distinct_map)
  then have "distinct (A @ used pre @ used ev @ used post @ B)" using AB(1) split by simp
  then have diff: "set (A @ used pre @ used ev @ used post @ B) - set (used ev) =
      set (A @ used pre @ used post @ B)" by auto
  have "all_segs ?s' = all_segs (set_slab k bs' s)" by (simp add: set_slab_def all_segs_def)
  then have "live ?s' = insert ?d (set (A @ used pre @ used post @ B))"
    using AB(2) [of bs'] u' by (auto simp: live_def)
  also have "set (A @ used pre @ used post @ B) = live s - set (used ev)"
    using diff AB(1) split by (simp add: live_def)
  finally have live': "live ?s' = insert ?d (live s - set (used ev))" .
  have in_live: "set (used ev) \<subseteq> live s" using AB(1) split by (auto simp: live_def)
  have slabnum: "0 \<le> slab_num b" if "b \<in> set (used ev)" for b
    using nodes that split by (auto simp: nodes_def set_used)
  have keys: "set ci = {(k, i). (k, i) \<in> set (chunk_index s) \<and> k \<notin> chunk_key ` set (used ev)}"
    using f(4) in_live inv by (auto simp: bm_inv_defs set_used)
  have bufs: "set h = {(p, v). (p, v) \<in> set (heap s) \<and> Some p \<notin> seg_buffer ` set (used ev)}"
  proof -
    have "seg_buffer b = None" if "b \<in> set ev" "mem_status b = FREE" for b
      using nodes that split by (auto simp: nodes_def)
    then have "Some p \<in> seg_buffer ` set ev \<longleftrightarrow> Some p \<in> seg_buffer ` set (used ev)" for p
      by (force simp: set_used image_iff)
    then show ?thesis using f(5) by simp
  qed
  have fresh: "next_seg s \<notin> seg_id ` live s"
    using all_segs_less [OF pool] by (force simp: live_def set_used)
  have pins: "seg_pins s b < 1" if "b \<in> set (used ev)" for b
    using unpinned that by (fastforce simp: set_used)
  have "takes s req (next_seg s) (set (used ev)) ?s'"
    unfolding takes_def using pool' live' in_live slabnum pins keys bufs fresh f(2,3)
    by (auto simp: same_chunks_def intro!: exI [of _ ?d])
  with ev_eq show ?thesis by blast
qed

section \<open>findFreeBuffer\<close>

lemma searched_bufs:
  assumes "searched s s'"
  shows "get_buf s' = get_buf s" and "seg_pins s' = seg_pins s"
proof -
  from assms have "heap s' = heap s" by (simp add: searched_def)
  then show get: "get_buf s' = get_buf s" by (simp add: get_buf_def fun_eq_iff)
  then show "seg_pins s' = seg_pins s" by (simp add: seg_pins_def fun_eq_iff cong: option.case_cong)
qed

lemma searched_inv:
  assumes "searched s s'" and "bm_inv s"
  shows "bm_inv s'"
proof -
  from assms(1) obtain xs where xs: "slabs s' = slabs s @ xs" "page_size s' = page_size s"
    by (auto simp: searched_def same_chunks_def)
  from assms(2) have "bm_pool s" by (simp add: bm_inv_except_def)
  then have "buf_ok s' b v = buf_ok s b v" if "b \<in> live s" for b v
    using that xs by (rule buf_ok_extend)
  with assms searched_bufs(1) [OF assms(1)] show ?thesis
    by (simp add: searched_def bm_inv_except_def bm_index_def bm_bufs_def same_chunks_def)
qed

lemma searched_takes:
  assumes "searched s t" and "takes t req j ev s'"
  shows "takes s req j ev s'"
  using assms searched_bufs(2) [OF assms(1)]
  unfolding takes_def searched_def by (auto intro: same_chunks_trans)

lemma force_eviction_spec:
  assumes "bm_inv s" and "force_eviction num_bytes req s = (r, s')"
  shows "case r of Inr j \<Rightarrow> \<exists>ev. takes s req j ev s'
    | Inl e \<Rightarrow> s' = s \<and> (is_oom e \<or> e = Undefined \<and> slab_segments s = [])"
proof (cases "best_eviction req s")
  case None
  with assms(2) show ?thesis by (auto simp: force_eviction_def split: if_splits)
next
  case (Some ki)
  obtain k i where ki: "ki = (k, i)" by fastforce
  from best_eviction_Some Some ki obtain sc where k: "k < length (slab_segments s)"
    "window (seg_pins s) req (slab_segments s ! k) i sc" by blast
  from evict_takes [OF assms(1) k] obtain ev t where
    "evict i req k s = (Inr (next_seg s), t)" "takes s req (next_seg s) ev t" by blast
  with Some ki k assms(2) show ?thesis by (auto simp: force_eviction_def split: if_splits)
qed

text \<open>The last call of \<open>findFreeBuffer\<close> on a slab it has just added cannot fail.\<close>

lemma findFreeBufferInSlab_new:
  assumes "slab_segments s = ss @ [[mk_seg n 0 cur FREE 0]]" and "req \<le> cur"
  shows "\<exists>i s'. findFreeBufferInSlab (length ss) req s = (Some i, s')"
  using assms by (simp add: findFreeBufferInSlab_def Let_def)

lemma findFreeBuffer_spec:
  assumes inv: "bm_inv s"
  shows "\<exists>r s'. findFreeBuffer os num_bytes s = Some (r, s') \<and>
    (case r of Inr j \<Rightarrow> \<exists>ev. takes s (pages_for s num_bytes) j ev s'
     | Inl e \<Rightarrow> searched s s' \<and> (is_oom e \<or> e = Undefined \<and> slab_segments s' = []))"
proof -
  let ?req = "pages_for s num_bytes" and ?n = "length (slab_segments s)"
  from inv have pool: "bm_pool s" and config: "bm_config s"
    and dist: "distinct (map fst (chunk_index s))" "distinct (map fst (heap s))"
    by (auto simp: bm_inv_defs)
  show ?thesis
  proof (cases "max_num_pages_per_slab s < ?req")
    case True
    then show ?thesis using searched_refl [OF pool config] by (auto simp: findFreeBuffer_def)
  next
    case small: False
    obtain f t where find: "find_in_slabs [0..<?n] ?req s = (f, t)" by fastforce
    note in_slabs = find_in_slabs_takes [OF pool dist, of "[0..<?n]"]
    show ?thesis
    proof (cases f)
      case (Some i)
      with find in_slabs small show ?thesis by (fastforce simp: findFreeBuffer_def Let_def)
    next
      case None
      with find in_slabs have t: "t = s" by fastforce
      from add_slab_loop_spec [OF pool config, of os ?req] obtain ok s1 where
        loop: "add_slab_loop os ?req s = Some (ok, s1)" and se: "searched s s1"
        and new: "if ok then \<exists>n cur. slab_segments s1 = slab_segments s @ [[mk_seg n 0 cur FREE 0]] \<and> ?req \<le> cur
                  else slab_segments s1 = slab_segments s" by blast
      from searched_inv [OF se inv] have inv1: "bm_inv s1" .
      show ?thesis
      proof (cases ok)
        case True
        with new findFreeBufferInSlab_new obtain i s2 where
          f2: "findFreeBufferInSlab ?n ?req s1 = (Some i, s2)" by fastforce
        have "takes s1 ?req i {} s2"
          using inv1 True new f2 by (intro findFreeBufferInSlab_takes) (auto simp: bm_inv_defs)
        then have "takes s ?req i {} s2" by (rule searched_takes [OF se])
        moreover have "findFreeBuffer os num_bytes s = Some (Inr i, s2)"
          using small find None t loop True f2 by (simp add: findFreeBuffer_def Let_def)
        ultimately show ?thesis by auto
      next
        case False
        obtain r s2 where fe: "force_eviction num_bytes ?req s1 = (r, s2)" by fastforce
        have "findFreeBuffer os num_bytes s = Some (r, s2)"
          using small find None t loop False fe by (simp add: findFreeBuffer_def Let_def)
        moreover note force_eviction_spec [OF inv1 fe]
        ultimately show ?thesis using se searched_takes [OF se] by (cases r) fastforce+
      qed
    qed
  qed
qed

lemma findFreeBuffer_Inr:
  assumes "bm_inv s" and "findFreeBuffer os num_bytes s = Some (Inr j, s')"
  obtains ev where "takes s (pages_for s num_bytes) j ev s'"
  using findFreeBuffer_spec [OF assms(1), of os num_bytes] assms(2) by auto

lemma findFreeBuffer_Inl:
  assumes "bm_inv s" and "findFreeBuffer os num_bytes s = Some (Inl e, s')"
  shows "searched s s'" and "is_oom e \<or> e = Undefined \<and> slab_segments s' = []"
  using findFreeBuffer_spec [OF assms(1), of os num_bytes] assms(2) by auto

section \<open>Chunks are told apart by key and by buffer\<close>

lemma lookup_live: "bm_pool s \<Longrightarrow> b \<in> live s \<Longrightarrow> lookup_seg s (seg_id b) = Some b"
  by (simp add: lookup_seg_iff live_in_all_segs)

lemma bm_index_key_unique:
  assumes "bm_pool s" and "bm_index J s" and "b \<in> live s" "c \<in> live s"
    and "seg_id b \<notin> J" "seg_id c \<notin> J" and "chunk_key b = chunk_key c"
  shows "b = c"
proof -
  from assms(2) have dist: "distinct (map fst (chunk_index s))"
    and set: "set (chunk_index s) = (\<lambda>b. (chunk_key b, seg_id b)) ` {b \<in> live s. seg_id b \<notin> J}"
    by (simp_all add: bm_index_def)
  have "(chunk_key b, seg_id b) \<in> set (chunk_index s)" "(chunk_key b, seg_id c) \<in> set (chunk_index s)"
    unfolding set using assms(3-6) by (intro image_eqI [of _ _ b], simp, simp)
      (intro image_eqI [of _ _ c], use assms(4,6,7) in simp_all)
  with dist have "seg_id b = seg_id c" by (rule eq_key_imp_eq_value)
  then show ?thesis by (rule live_unique [OF assms(1,3) live_in_all_segs [OF assms(4)]])
qed

lemma bm_bufs_buf_unique:
  assumes "bm_pool s" and "bm_bufs J s" and "b \<in> live s" "c \<in> live s"
    and "seg_id b \<notin> J" "seg_id c \<notin> J" and "seg_buffer b = seg_buffer c"
  shows "b = c"
proof -
  from assms(2-6) obtain p v q w where "seg_buffer b = Some p" "get_buf s p = Some v" "seg_it v = seg_id b"
    "seg_buffer c = Some q" "get_buf s q = Some w" "seg_it w = seg_id c"
    unfolding bm_bufs_def buf_ok_def by meson
  with assms(7) have "seg_id b = seg_id c" by auto
  then show ?thesis by (rule live_unique [OF assms(1,3) live_in_all_segs [OF assms(4)]])
qed

lemma index_lookup:
  assumes "bm_pool s" and "bm_index J s" and "map_of (chunk_index s) key = Some i"
  obtains b where "b \<in> live s" "seg_id b = i" "chunk_key b = key" "lookup_seg s i = Some b"
    "i \<notin> J" "key \<noteq> []"
proof -
  from assms(3) have "(key, i) \<in> set (chunk_index s)" by (rule map_of_SomeD)
  with assms(2) obtain b where "b \<in> live s" "seg_id b = i" "chunk_key b = key" "i \<notin> J" "key \<noteq> []"
    by (auto simp: bm_index_def)
  with assms(1) that show ?thesis by (auto simp: lookup_live)
qed

lemma index_of_live:
  assumes "bm_index J s" and "b \<in> live s" and "seg_id b \<notin> J"
  shows "map_of (chunk_index s) (chunk_key b) = Some (seg_id b)"
  using assms unfolding bm_index_def by (auto simp: map_of_distinct_iff)

section \<open>Giving chunks up\<close>

text \<open>
  What is left after the chunks \<open>ev\<close> lost their index entries and buffers is consistent,
  whatever becomes of the segments \<open>J\<close> still on their way.
\<close>

lemma chunks_dropped:
  assumes inv: "bm_inv s" and ev: "ev \<subseteq> live s"
    and left: "{b \<in> live s'. seg_id b \<notin> J} = live s - ev"
    and ci: "distinct (map fst (chunk_index s'))"
      "set (chunk_index s') = {(k, i). (k, i) \<in> set (chunk_index s) \<and> k \<notin> chunk_key ` ev}"
    and h: "distinct (map fst (heap s'))"
      "set (heap s') = {(p, v). (p, v) \<in> set (heap s) \<and> Some p \<notin> seg_buffer ` ev}"
    and nb: "next_buf s' = next_buf s" "slabs s' = slabs s @ xs" "page_size s' = page_size s"
  shows "bm_index J s'" and "bm_bufs J s'"
proof -
  from inv have pool: "bm_pool s" and index: "bm_index {} s" and bufs: "bm_bufs {} s"
    by (simp_all add: bm_inv_except_def)
  have old: "set (chunk_index s) = (\<lambda>b. (chunk_key b, seg_id b)) ` live s"
    and ne: "\<And>b. b \<in> live s \<Longrightarrow> chunk_key b \<noteq> []" using index by (auto simp: bm_index_def)
  have "set (chunk_index s') = (\<lambda>b. (chunk_key b, seg_id b)) ` (live s - ev)"
    using ci(2) old ev by (auto simp: image_iff dest: bm_index_key_unique [OF pool index])
  moreover have "chunk_key b \<noteq> []" if "b \<in> live s'" "seg_id b \<notin> J" for b
    using ne left that by blast
  ultimately show "bm_index J s'" using ci(1) unfolding bm_index_def left by blast
  have "\<exists>p v. seg_buffer b = Some p \<and> get_buf s' p = Some v \<and> buf_ok s' b v"
    if "b \<in> live s'" "seg_id b \<notin> J" for b
  proof -
    from that left have b: "b \<in> live s" "b \<notin> ev" by blast+
    with bufs obtain p v where p: "seg_buffer b = Some p" "get_buf s p = Some v" "buf_ok s b v"
      by (auto simp: bm_bufs_def)
    have "Some p \<notin> seg_buffer ` ev"
    proof
      assume "Some p \<in> seg_buffer ` ev"
      then obtain c where "c \<in> ev" "seg_buffer c = Some p" by auto
      with bm_bufs_buf_unique [OF pool bufs b(1), of c] ev p b show False by auto
    qed
    moreover have "(p, v) \<in> set (heap s)" using p(2) by (auto simp: get_buf_def dest: map_of_SomeD)
    ultimately have "(p, v) \<in> set (heap s')" using h(2) by auto
    with h(1) p show ?thesis using buf_ok_extend [OF pool b(1) nb(2,3)] by (auto simp: get_buf_def)
  qed
  moreover have "\<forall>p \<in> fst ` set (heap s'). p < next_buf s'"
    using h(2) bufs nb(1) by (force simp: bm_bufs_def)
  ultimately show "bm_bufs J s'" using h(1) by (simp add: bm_bufs_def)
qed

lemma takes_inv:
  assumes inv: "bm_inv s" and takes: "takes s req j ev s'"
  shows "bm_inv_except {j} s'"
proof -
  from takes obtain d where d: "live s' = insert d (live s - ev)" "seg_id d = j"
    and j: "j \<notin> seg_id ` live s" and rest: "bm_pool s'" "same_chunks s s'"
    by (auto simp: takes_def)
  have left: "{b \<in> live s'. seg_id b \<notin> {j}} = live s - ev" using d j by (auto simp: image_iff)
  from takes obtain xs where "slabs s' = slabs s @ xs" by (auto simp: takes_def)
  with takes have "bm_index {j} s'" "bm_bufs {j} s'"
    using chunks_dropped [OF inv _ left] by (simp_all add: takes_def same_chunks_def)
  moreover have "bm_config s'" using inv rest(2) by (simp add: bm_inv_defs same_chunks_def)
  ultimately show ?thesis using rest(1) by (simp add: bm_inv_except_def)
qed

end
