(* ===== verification/Buffer_Ops_Inv.thy ===== *)
theory Buffer_Ops_Inv
  imports Buffer_Mgr_Inv
begin

text \<open>
  The operations a client of the buffer pool calls keep its invariant: writing through an
  iterator, removing a segment, moving a buffer to a larger segment, creating and deleting
  chunks.
\<close>

section \<open>Writing through an iterator\<close>

text \<open>Updates that leave the identity, the pages and the status of a segment alone.\<close>

definition keeps_shape :: "(BufferSeg \<Rightarrow> BufferSeg) \<Rightarrow> bool" where
  "keeps_shape f \<longleftrightarrow>
     (\<forall>b. seg_id (f b) = seg_id b \<and> start_page (f b) = start_page b \<and> num_pages (f b) = num_pages b \<and>
          mem_status (f b) = mem_status b \<and> slab_num (f b) = slab_num b)"

lemma keeps_shape_simps [simp]:
  "keeps_shape (\<lambda>c. c\<lparr>seg_buffer := p\<rparr>)"
  "keeps_shape (\<lambda>c. c\<lparr>seg_buffer := p, chunk_key := key\<rparr>)"
  "keeps_shape (\<lambda>c. c\<lparr>last_touched := t\<rparr>)"
  by (auto simp: keeps_shape_def)

lemma keeps_shape_map:
  assumes "keeps_shape f"
  shows "layout p (map f bs) = layout p bs" and "coalesced (map f bs) = coalesced bs"
    and "total_pages (map f bs) = total_pages bs" and "ids (map f bs) = ids bs"
    and "map seg_id (map f bs) = map seg_id bs" and "used (map f bs) = map f (used bs)"
proof -
  show "layout p (map f bs) = layout p bs"
    using assms by (induction bs arbitrary: p) (auto simp: keeps_shape_def)
  show "coalesced (map f bs) = coalesced bs"
    using assms by (induction bs rule: coalesced.induct) (auto simp: keeps_shape_def)
  show "used (map f bs) = map f (used bs)"
    using assms by (induction bs) (auto simp: keeps_shape_def)
  show "total_pages (map f bs) = total_pages bs" "ids (map f bs) = ids bs"
    "map seg_id (map f bs) = map seg_id bs"
    using assms by (auto simp: keeps_shape_def total_pages_def ids_def comp_def image_iff)
qed

lemma keeps_shape_if: "keeps_shape f \<Longrightarrow> keeps_shape (\<lambda>b. if seg_id b = i then f b else b)"
  by (simp add: keeps_shape_def)

lemma update_seg_fields [simp]:
  "chunk_index (update_seg i f s) = chunk_index s" "heap (update_seg i f s) = heap s"
  "slabs (update_seg i f s) = slabs s" "next_buf (update_seg i f s) = next_buf s"
  "next_seg (update_seg i f s) = next_seg s" "memory (update_seg i f s) = memory s"
  "page_size (update_seg i f s) = page_size s" "in_progress (update_seg i f s) = in_progress s"
  "min_num_pages_per_slab (update_seg i f s) = min_num_pages_per_slab s"
  "max_num_pages_per_slab (update_seg i f s) = max_num_pages_per_slab s"
  "max_buffer_pool_num_pages (update_seg i f s) = max_buffer_pool_num_pages s"
  "num_pages_allocated (update_seg i f s) = num_pages_allocated s"
  "buffer_epoch (update_seg i f s) = buffer_epoch s"
  "max_buffer_id (update_seg i f s) = max_buffer_id s"
  by (simp_all add: update_seg_def Let_def)

lemma update_seg_live:
  assumes "keeps_shape f"
  shows "live (update_seg i f s) = (\<lambda>b. if seg_id b = i then f b else b) ` live s"
proof -
  let ?g = "\<lambda>b. if seg_id b = i then f b else b"
  have "all_segs (update_seg i f s) = map ?g (all_segs s)"
    by (simp add: all_segs_def update_seg_def Let_def map_concat)
  then show ?thesis
    using keeps_shape_map(6) [OF keeps_shape_if [OF assms]] by (simp add: live_def)
qed

lemma update_seg_pool:
  assumes "bm_pool s" and f: "keeps_shape f" and b: "b \<in> live s" "seg_id b = i"
  shows "bm_pool (update_seg i f s)"
proof -
  define g where "g = (\<lambda>b. if seg_id b = i then f b else b)"
  have g: "keeps_shape g" unfolding g_def by (rule keeps_shape_if [OF f])
  have u: "update_seg i f s = s\<lparr>unsized_segs := map g (unsized_segs s),
                                 slab_segments := map (map g) (slab_segments s)\<rparr>"
    by (simp add: update_seg_def g_def Let_def)
  have free: "g c = c" if "c \<in> set (all_segs s)" "mem_status c = FREE" for c
  proof (cases "seg_id c = i")
    case True
    with live_unique [OF assms(1) b(1) that(1)] b have "c \<in> live s" by simp
    with that(2) show ?thesis by (simp add: live_def set_used)
  qed (simp add: g_def)
  have "nodes (next_seg s) (int x) (map g (slab_segments s ! x))" if "x < length (slab_segments s)" for x
    using slab_nodes [OF assms(1) that] free in_slab_all_segs [OF that] g keeps_shape_map(5) [OF g]
    by (auto simp: nodes_def keeps_shape_def simp del: map_map)
  then have "pool_nodes (next_seg s) (map (map g) (slab_segments s))"
    using assms(1) keeps_shape_map [OF g] by (simp add: bm_pool_def pool_nodes_def)
  moreover have "pool_pages (map (map g) (slab_segments s)) = pool_pages (slab_segments s)"
    by (simp add: pool_pages_def comp_def keeps_shape_map [OF g])
  moreover have "\<forall>c \<in> set (map g (unsized_segs s)). mem_status c = USED \<and> slab_num c < 0 \<and>
      start_page c < 0 \<and> num_pages c = 0 \<and> seg_id c < next_seg s"
    using assms(1) g by (auto simp: bm_pool_def keeps_shape_def)
  ultimately show ?thesis
    using assms(1) keeps_shape_map [OF g] by (simp add: u bm_pool_def pool_ok_def del: map_map)
qed

section \<open>Removing a segment\<close>

lemma removeSegment_fields [simp]:
  "chunk_index (removeSegment i s) = chunk_index s" "heap (removeSegment i s) = heap s"
  "slabs (removeSegment i s) = slabs s" "next_buf (removeSegment i s) = next_buf s"
  "memory (removeSegment i s) = memory s" "page_size (removeSegment i s) = page_size s"
  "in_progress (removeSegment i s) = in_progress s"
  "min_num_pages_per_slab (removeSegment i s) = min_num_pages_per_slab s"
  "max_num_pages_per_slab (removeSegment i s) = max_num_pages_per_slab s"
  "max_buffer_pool_num_pages (removeSegment i s) = max_buffer_pool_num_pages s"
  "num_pages_allocated (removeSegment i s) = num_pages_allocated s"
  "max_buffer_id (removeSegment i s) = max_buffer_id s"
  by (simp_all add: removeSegment_def Let_def split: option.splits)

lemma removeSegment_unsized:
  assumes "bm_pool s" and "b \<in> live s" and "slab_num b < 0"
  shows "bm_pool (removeSegment (seg_id b) s)"
    and "live (removeSegment (seg_id b) s) = live s - {b}"
proof -
  let ?us = "filter (\<lambda>c. seg_id c \<noteq> seg_id b) (unsized_segs s)"
  have rs: "removeSegment (seg_id b) s = s\<lparr>unsized_segs := ?us\<rparr>"
    using assms lookup_live [OF assms(1,2)] by (simp add: removeSegment_def)
  from assms(1) show "bm_pool (removeSegment (seg_id b) s)"
    by (auto simp: rs bm_pool_def ids_def distinct_map_filter)
  from assms have b: "b \<in> set (unsized_segs s)"
    using slab_nodes [OF assms(1)] live_in_all_segs [OF assms(2)]
    by (auto elim!: all_segs_cases simp: nodes_def live_def set_used)
  have "c = b" if "c \<in> set (all_segs s)" "seg_id c = seg_id b" for c
    using live_unique [OF assms(1,2) that(1)] that(2) by simp
  moreover have "seg_id c \<noteq> seg_id b" if "c \<in> set (concat (slab_segments s))" for c
    using all_segs_distinct [OF assms(1)] b that by (auto simp: all_segs_def)
  ultimately show "live (removeSegment (seg_id b) s) = live s - {b}"
    by (auto simp: rs live_def set_used all_segs_def)
qed

lemma removeSegment_slab:
  assumes "bm_pool s" and "b \<in> live s" and "0 \<le> slab_num b"
  shows "bm_pool (removeSegment (seg_id b) s)"
    and "live (removeSegment (seg_id b) s) = live s - {b}"
proof -
  let ?x = "nat (slab_num b)" and ?i = "seg_id b"
  from assms obtain x where x: "x < length (slab_segments s)" "b \<in> set (slab_segments s ! x)"
    using live_in_all_segs [OF assms(2)] by (auto elim!: all_segs_cases simp: bm_pool_def)
  with slab_nodes [OF assms(1) x(1)] assms(2) have "slab_num b = int x"
    by (simp add: nodes_def live_def set_used)
  then have eq: "?x = x" by simp
  let ?bs = "remove_seg ?i (slab_segments s ! x)"
  have rs: "removeSegment ?i s = (set_slab x ?bs s)\<lparr>next_seg := next_seg s + 2\<rparr>"
    using assms(3) eq lookup_live [OF assms(1,2)] by (simp add: removeSegment_def set_slab_def)
  show "bm_pool (removeSegment ?i s)" unfolding rs
    by (rule remove_op.set_slab_pool [where i = ?i]) (use x assms(1) in auto)
  from used_set_slab [OF x(1)] obtain A B where AB: "used (all_segs s) = A @ used (slab_segments s ! x) @ B"
    "\<And>bs. used (all_segs (set_slab x bs s)) = A @ used bs @ B" by blast
  have "used ?bs = filter (\<lambda>c. seg_id c \<noteq> ?i) (used (slab_segments s ! x))"
    using slab_nodes [OF assms(1) x(1)] by (intro remove_seg_used) (simp add: nodes_def)
  moreover have dist: "distinct (map seg_id (used (all_segs s)))"
    using all_segs_distinct [OF assms(1)] by (simp add: used_def distinct_map_filter)
  moreover have "b \<in> set (used (slab_segments s ! x))" using x assms(2) by (simp add: live_def set_used)
  moreover have "all_segs (removeSegment ?i s) = all_segs (set_slab x ?bs s)" by (simp add: rs all_segs_def)
  ultimately show "live (removeSegment ?i s) = live s - {b}"
    unfolding live_def AB(1) by (auto simp: AB(2) distinct_map inj_on_def dest: imageI [of _ _ seg_id])
qed

lemma removeSegment_live:
  assumes "bm_pool s" and "b \<in> live s"
  shows "bm_pool (removeSegment (seg_id b) s)"
    and "live (removeSegment (seg_id b) s) = live s - {b}"
  using assms removeSegment_unsized [OF assms] removeSegment_slab [OF assms]
  by (cases "slab_num b < 0"; simp)+

section \<open>Fields no segment depends on\<close>

lemma live_upd [simp]:
  "live (s\<lparr>heap := h\<rparr>) = live s" "live (s\<lparr>memory := m\<rparr>) = live s" "live (s\<lparr>next_buf := n\<rparr>) = live s"
  "live (s\<lparr>in_progress := ks\<rparr>) = live s" "live (s\<lparr>chunk_index := ci\<rparr>) = live s"
  "live (s\<lparr>buffer_epoch := e\<rparr>) = live s" "live (s\<lparr>max_buffer_id := i\<rparr>) = live s"
  "live (s\<lparr>next_seg := n\<rparr>) = live s"
  by (simp_all add: live_def all_segs_def)

lemma bm_pool_upd [simp]:
  "bm_pool (s\<lparr>heap := h\<rparr>) = bm_pool s" "bm_pool (s\<lparr>memory := m\<rparr>) = bm_pool s"
  "bm_pool (s\<lparr>next_buf := n\<rparr>) = bm_pool s" "bm_pool (s\<lparr>in_progress := ks\<rparr>) = bm_pool s"
  "bm_pool (s\<lparr>chunk_index := ci\<rparr>) = bm_pool s" "bm_pool (s\<lparr>buffer_epoch := e\<rparr>) = bm_pool s"
  "bm_pool (s\<lparr>max_buffer_id := i\<rparr>) = bm_pool s"
  by (simp_all add: bm_pool_def)

lemma lookup_seg_upd [simp]:
  "lookup_seg (s\<lparr>heap := h\<rparr>) = lookup_seg s" "lookup_seg (s\<lparr>memory := m\<rparr>) = lookup_seg s"
  "lookup_seg (s\<lparr>next_buf := n\<rparr>) = lookup_seg s" "lookup_seg (s\<lparr>in_progress := ks\<rparr>) = lookup_seg s"
  "lookup_seg (s\<lparr>chunk_index := ci\<rparr>) = lookup_seg s" "lookup_seg (s\<lparr>buffer_epoch := e\<rparr>) = lookup_seg s"
  by (simp_all add: lookup_seg_def all_segs_def fun_eq_iff)

lemma set_buf_fields [simp]:
  "live (set_buf p v s) = live s" "bm_pool (set_buf p v s) = bm_pool s"
  "lookup_seg (set_buf p v s) = lookup_seg s" "chunk_index (set_buf p v s) = chunk_index s"
  "next_buf (set_buf p v s) = next_buf s" "page_size (set_buf p v s) = page_size s"
  "memory (set_buf p v s) = memory s" "slabs (set_buf p v s) = slabs s"
  "min_num_pages_per_slab (set_buf p v s) = min_num_pages_per_slab s"
  "in_progress (set_buf p v s) = in_progress s"
  by (simp_all add: set_buf_def)

lemma get_buf_set_buf [simp]: "get_buf (set_buf p v s) = (get_buf s)(p \<mapsto> v)"
  by (rule ext) (simp add: set_buf_def get_buf_def update_conv')

lemma delete_buf_fields [simp]:
  "live (delete_buf p s) = live s" "bm_pool (delete_buf p s) = bm_pool s"
  "lookup_seg (delete_buf p s) = lookup_seg s" "chunk_index (delete_buf p s) = chunk_index s"
  "next_buf (delete_buf p s) = next_buf s" "page_size (delete_buf p s) = page_size s"
  "memory (delete_buf p s) = memory s" "slabs (delete_buf p s) = slabs s"
  "min_num_pages_per_slab (delete_buf p s) = min_num_pages_per_slab s"
  "in_progress (delete_buf p s) = in_progress s"
  "heap (delete_buf p s) = AList.delete p (heap s)"
  by (simp_all add: delete_buf_def)

lemma get_buf_upd [simp]:
  "get_buf (s\<lparr>memory := m\<rparr>) = get_buf s" "get_buf (s\<lparr>next_buf := n\<rparr>) = get_buf s"
  "get_buf (s\<lparr>in_progress := ks\<rparr>) = get_buf s" "get_buf (s\<lparr>chunk_index := ci\<rparr>) = get_buf s"
  "get_buf (s\<lparr>buffer_epoch := e\<rparr>) = get_buf s" "get_buf (update_seg i f s) = get_buf s"
  "get_buf (removeSegment i s) = get_buf s"
  by (rule ext, simp add: get_buf_def)+

lemma get_buf_delete_buf [simp]: "get_buf (delete_buf p s) = (get_buf s)(p := None)"
  by (rule ext) (simp add: get_buf_def delete_conv')

lemma update_seg_live_at:
  assumes "bm_pool s" and "b \<in> live s" and "seg_id b = i" and "keeps_shape f"
  shows "live (update_seg i f s) = insert (f b) (live s - {b})"
proof -
  define g where "g = (\<lambda>c. if seg_id c = i then f c else c)"
  have "g c = c" if "c \<in> live s - {b}" for c
    using live_unique [OF assms(1,2) live_in_all_segs, of c] that assms(3) by (auto simp: g_def)
  then have "g ` (live s - {b}) = live s - {b}" by force
  moreover have "g b = f b" using assms(3) by (simp add: g_def)
  moreover have "g ` live s = g ` insert b (live s - {b})" using assms(2) by (simp only: insert_Diff)
  ultimately show ?thesis unfolding update_seg_live [OF assms(4)] g_def [symmetric]
    by (simp only: image_insert)
qed

section \<open>deleteBuffer\<close>

lemma bm_invD:
  assumes "bm_inv s"
  shows "bm_config s" "bm_pool s" "bm_index {} s" "bm_bufs {} s"
  using assms by (simp_all add: bm_inv_except_def)

lemma live_buffer:
  assumes "bm_inv s" and "b \<in> live s"
  obtains p v where "seg_buffer b = Some p" "get_buf s p = Some v" "buf_ok s b v"
  using assms by (auto simp: bm_inv_except_def bm_bufs_def)

text \<open>A chunk taken out of segments, index and heap together leaves a consistent pool.\<close>

lemma chunk_removed:
  assumes inv: "bm_inv s" and b: "b \<in> live s" "seg_buffer b = Some p"
    and s': "bm_pool s'" "bm_config s'" "live s' = live s - {b}"
      "chunk_index s' = AList.delete (chunk_key b) (chunk_index s)"
      "heap s' = AList.delete p (heap s)" "next_buf s' = next_buf s"
      "slabs s' = slabs s" "page_size s' = page_size s"
  shows "bm_inv s'"
proof -
  have "distinct (map fst (chunk_index s))" "distinct (map fst (heap s))"
    using inv by (simp_all add: bm_inv_defs)
  moreover have "{c \<in> live s'. seg_id c \<notin> {}} = live s - {b}" using s'(3) by auto
  ultimately have "bm_index {} s'" "bm_bufs {} s'"
    using chunks_dropped [OF inv, of "{b}" s' "{}" "[]"] b s'
    by (simp_all add: set_AList_delete distinct_delete)
  with s' show ?thesis by (simp add: bm_inv_except_def)
qed

text \<open>Clearing the buffer pointer of a chunk's segment and unlinking the segment.\<close>

lemma unlink_seg:
  assumes pool: "bm_pool s" and b: "b \<in> live s" "seg_buffer b = Some p"
  defines "s1 \<equiv> update_seg (seg_id b) (\<lambda>c. c\<lparr>seg_buffer := None\<rparr>) s"
  shows "lookup_seg s1 (seg_id b) = Some (b\<lparr>seg_buffer := None\<rparr>)"
    and "bm_pool (removeSegment (seg_id b) s1)" and "live (removeSegment (seg_id b) s1) = live s - {b}"
proof -
  let ?b = "b\<lparr>seg_buffer := None\<rparr>"
  have s1: "bm_pool s1" "live s1 = insert ?b (live s - {b})"
    unfolding s1_def using update_seg_pool [OF pool _ b(1)] update_seg_live_at [OF pool b(1)] by simp_all
  then show "lookup_seg s1 (seg_id b) = Some ?b" using lookup_live [OF s1(1), of ?b] by simp
  have rm: "bm_pool (removeSegment (seg_id b) s1)" "live (removeSegment (seg_id b) s1) = live s1 - {?b}"
    using removeSegment_live [OF s1(1), of ?b] s1(2) by simp_all
  have "?b \<notin> live s"
  proof
    assume "?b \<in> live s"
    from live_unique [OF pool b(1) live_in_all_segs [OF this]] have "b = ?b" by simp
    then have "seg_buffer b = seg_buffer ?b" by (rule arg_cong)
    with b(2) show False by simp
  qed
  with rm s1(2) show "bm_pool (removeSegment (seg_id b) s1)" "live (removeSegment (seg_id b) s1) = live s - {b}"
    by auto
qed

lemma deleteBuffer_spec:
  assumes inv: "bm_inv s" and key: "map_of (chunk_index s) key = Some i"
  shows "\<exists>b p s'. deleteBuffer key s = (Inr (), s') \<and> b \<in> live s \<and> chunk_key b = key \<and>
    seg_buffer b = Some p \<and> bm_inv s' \<and> live s' = live s - {b} \<and>
    chunk_index s' = AList.delete key (chunk_index s) \<and> heap s' = AList.delete p (heap s) \<and>
    memory s' = memory s \<and> next_buf s' = next_buf s"
proof -
  note pool = bm_invD [OF inv]
  from index_lookup [OF pool(2,3) key] obtain b where b: "b \<in> live s" "seg_id b = i" "chunk_key b = key"
    "lookup_seg s i = Some b" by blast
  from live_buffer [OF inv b(1)] obtain p v where p: "seg_buffer b = Some p" by blast
  let ?s1 = "delete_buf p (s\<lparr>chunk_index := AList.delete key (chunk_index s)\<rparr>)"
  let ?s2 = "removeSegment i (update_seg i (\<lambda>c. c\<lparr>seg_buffer := None\<rparr>) ?s1)"
  have del: "deleteBuffer key s = (Inr (), ?s2)"
    using key b p by (simp add: deleteBuffer_def delete_seg_buffer_def)
  have fin: "bm_pool ?s2" "live ?s2 = live s - {b}"
    using unlink_seg(2,3) [of ?s1 b p] pool(2) b p by simp_all
  have "bm_inv ?s2"
    by (rule chunk_removed [OF inv b(1) p]) (use fin b pool(1) in \<open>simp_all add: bm_config_def delete_buf_def\<close>)
  then show ?thesis using del fin b p by (auto simp: delete_buf_def)
qed

end
