(* ===== verification/Buffer_Create_Inv.thy ===== *)
theory Buffer_Create_Inv
  imports Buffer_Ops_Inv
begin

text \<open>
  Reserving memory for a buffer and creating chunks: both keep the invariant of the pool,
  never give up a pinned chunk, and leave every chunk as it was when there is no room.
\<close>

section \<open>Writing a buffer object\<close>

lemma buf_ok_cong:
  "slabs s' = slabs s \<Longrightarrow> page_size s' = page_size s \<Longrightarrow> buf_ok s' b v = buf_ok s b v"
  by (simp add: buf_ok_def seg_addr_def)

lemma buf_ok_keeps_shape: "keeps_shape f \<Longrightarrow> buf_ok s (f b) v = buf_ok s b v"
  by (simp add: buf_ok_def seg_addr_def keeps_shape_def)

lemma buf_ok_set_buf [simp]: "buf_ok (set_buf p v s) = buf_ok s"
  by (intro ext buf_ok_cong) simp_all

lemma heap_set_buf:
  "distinct (map fst (heap s)) \<Longrightarrow> distinct (map fst (heap (set_buf p v s)))"
  "fst ` set (heap (set_buf p v s)) = insert p (fst ` set (heap s))"
  by (simp_all add: set_buf_def distinct_update dom_update)

lemma get_buf_less:
  assumes "bm_bufs J s" and "get_buf s p = Some v"
  shows "p < next_buf s"
proof -
  from assms(2) have "p \<in> fst ` set (heap s)" by (auto simp: get_buf_def dest: map_of_SomeD intro: rev_image_eqI)
  with assms(1) show ?thesis by (auto simp: bm_bufs_def)
qed

lemma set_buf_bufs:
  assumes bufs: "bm_bufs J s" and p: "get_buf s p = Some v"
    and ok: "\<And>b. b \<in> live s \<Longrightarrow> seg_id b \<notin> K \<Longrightarrow> seg_buffer b = Some p \<Longrightarrow> buf_ok s b v'"
    and J: "\<And>b. b \<in> live s \<Longrightarrow> seg_id b \<in> J - K \<Longrightarrow> seg_buffer b = Some p"
  shows "bm_bufs K (set_buf p v' s)"
proof -
  have "\<exists>q w. seg_buffer b = Some q \<and> get_buf (set_buf p v' s) q = Some w \<and> buf_ok s b w"
    if "b \<in> live s" "seg_id b \<notin> K" for b
  proof (cases "seg_buffer b = Some p")
    case True
    with ok [OF that] show ?thesis by simp
  next
    case False
    with J that have "seg_id b \<notin> J" by blast
    with bufs that obtain q w where "seg_buffer b = Some q" "get_buf s q = Some w" "buf_ok s b w"
      by (auto simp: bm_bufs_def)
    with False show ?thesis by auto
  qed
  with bufs get_buf_less [OF bufs p] show ?thesis
    unfolding bm_bufs_def by (simp add: heap_set_buf)
qed

lemma set_buf_inv:
  assumes inv: "bm_inv s" and p: "get_buf s p = Some v"
    and ok: "\<And>b. b \<in> live s \<Longrightarrow> seg_buffer b = Some p \<Longrightarrow> buf_ok s b v \<Longrightarrow> buf_ok s b v'"
  shows "bm_inv (set_buf p v' s)"
proof -
  note invs = bm_invD [OF inv]
  have "buf_ok s b v'" if "b \<in> live s" "seg_buffer b = Some p" for b
    using live_buffer [OF inv that(1)] that p ok by force
  then have "bm_bufs {} (set_buf p v' s)" by (intro set_buf_bufs [OF invs(4) p]) auto
  with invs show ?thesis by (simp add: bm_inv_except_def bm_config_def bm_index_def)
qed

lemma seg_pins_set_buf:
  "get_buf s p = Some v \<Longrightarrow> buf_pin_count v' = buf_pin_count v \<Longrightarrow> seg_pins (set_buf p v' s) = seg_pins s"
  by (auto simp: seg_pins_def fun_eq_iff split: option.splits)

section \<open>A new chunk\<close>

lemma bm_index_all:
  "bm_index {} s \<longleftrightarrow>
     distinct (map fst (chunk_index s)) \<and> set (chunk_index s) = (\<lambda>b. (chunk_key b, seg_id b)) ` live s \<and>
     (\<forall>b \<in> live s. chunk_key b \<noteq> [])"
  by (simp add: bm_index_def)

definition unsized_chunk :: "nat \<Rightarrow> ChunkKey \<Rightarrow> nat \<Rightarrow> BufferSeg" where
  "unsized_chunk i key p = (mk_seg i (-1) 0 USED 0)\<lparr>chunk_key := key, seg_buffer := Some p\<rparr>"

lemma unsized_chunk_simps [simp]:
  "seg_id (unsized_chunk i key p) = i" "chunk_key (unsized_chunk i key p) = key"
  "seg_buffer (unsized_chunk i key p) = Some p" "slab_num (unsized_chunk i key p) = -1"
  "num_pages (unsized_chunk i key p) = 0" "start_page (unsized_chunk i key p) = -1"
  "mem_status (unsized_chunk i key p) = USED"
  by (simp_all add: unsized_chunk_def)

definition with_chunk :: "ChunkKey \<Rightarrow> Buffer \<Rightarrow> BufferMgr \<Rightarrow> BufferMgr" where
  "with_chunk key v s =
     s\<lparr>unsized_segs := unsized_segs s @ [unsized_chunk (next_seg s) key (next_buf s)],
       chunk_index := AList.update key (next_seg s) (chunk_index s), next_seg := next_seg s + 1,
       heap := AList.update (next_buf s) v (heap s), next_buf := next_buf s + 1\<rparr>"

lemma map_update_fresh:
  "\<forall>b \<in> set bs. seg_id b < n \<Longrightarrow> map (\<lambda>b. if seg_id b = n then f b else b) bs = bs"
  by (rule map_idI) auto

lemma new_unsized_with_chunk:
  assumes "bm_pool s" and "new_unsized key s = Some (i, s1)"
  shows "i = next_seg s" and "map_of (chunk_index s) key = None" and "next_buf s1 = next_buf s"
    and "page_size s1 = page_size s"
    and "(set_buf (next_buf s) v (update_seg i (\<lambda>c. c\<lparr>seg_buffer := Some (next_buf s)\<rparr>) s1))\<lparr>next_buf := next_buf s + 1\<rparr> =
         with_chunk key v s"
proof -
  from assms(2) show i: "i = next_seg s" and "map_of (chunk_index s) key = None"
    and "next_buf s1 = next_buf s" and "page_size s1 = page_size s"
    by (auto simp: new_unsized_def Let_def split: if_splits)
  from assms(1) have "\<forall>b \<in> set (unsized_segs s). seg_id b < next_seg s" by (simp add: bm_pool_def)
  moreover have "\<forall>b \<in> set bs. seg_id b < next_seg s" if "bs \<in> set (slab_segments s)" for bs
    using all_segs_less [OF assms(1)] that by (auto simp: all_segs_def)
  ultimately show "(set_buf (next_buf s) v (update_seg i (\<lambda>c. c\<lparr>seg_buffer := Some (next_buf s)\<rparr>) s1))\<lparr>next_buf := next_buf s + 1\<rparr> =
         with_chunk key v s"
    using assms(2) i
    by (auto simp: new_unsized_def Let_def update_seg_def set_buf_def with_chunk_def map_update_fresh
        unsized_chunk_def map_idI split: if_splits)
qed

lemma with_chunk_live: "live (with_chunk key v s) = insert (unsized_chunk (next_seg s) key (next_buf s)) (live s)"
  by (auto simp: with_chunk_def live_def all_segs_def set_used)


lemma with_chunk_inv:
  assumes inv: "bm_inv s" and key: "map_of (chunk_index s) key = None" "key \<noteq> []"
    and v: "seg_it v = next_seg s" "0 < buf_page_size v" "buf_num_pages v = 0"
      "page_dirty_flags v = []" "token v = None \<Longrightarrow> buf_size v = 0"
  shows "bm_inv (with_chunk key v s)"
proof -
  let ?s = "with_chunk key v s" and ?c = "unsized_chunk (next_seg s) key (next_buf s)"
  note invs = bm_invD [OF inv]
  have less: "seg_id b < next_seg s" if "b \<in> set (all_segs s)" for b using invs(2) that by (rule all_segs_less)
  have fresh: "next_seg s \<notin> ids (unsized_segs s)"
    "x < length (slab_segments s) \<Longrightarrow> next_seg s \<notin> ids (slab_segments s ! x)" for x
    using less in_slab_all_segs by (force simp: ids_def all_segs_def)+
  have "pool_nodes (next_seg s + 1) (slab_segments s)"
    using invs(2) by (auto simp: bm_pool_def pool_nodes_def intro: nodes_mono)
  then have "bm_pool ?s"
    using invs(2) fresh by (auto simp: bm_pool_def with_chunk_def less_Suc_eq ids_def)
  moreover have "bm_index {} ?s"
  proof -
    have d: "distinct (map fst (chunk_index s))" using invs(3) by (simp add: bm_index_def)
    have "key \<notin> fst ` set (chunk_index s)" using key(1) by (simp add: map_of_eq_None_iff)
    then have "{(a, b). (a, b) \<in> set (chunk_index s) \<and> a \<noteq> key} = set (chunk_index s)" by force
    then have "set (chunk_index ?s) = insert (key, next_seg s) (set (chunk_index s))"
      using d by (simp add: with_chunk_def set_AList_update)
    moreover have "distinct (map fst (chunk_index ?s))" using d by (simp add: with_chunk_def distinct_update)
    ultimately show ?thesis using invs(3) key(2) by (simp add: bm_index_all with_chunk_live)
  qed
  moreover have "bm_bufs {} ?s"
  proof -
    have g: "get_buf ?s = (get_buf s)(next_buf s \<mapsto> v)"
      by (rule ext) (simp add: get_buf_def with_chunk_def update_conv')
    have ok: "buf_ok ?s b w = buf_ok s b w" for b w by (rule buf_ok_cong) (simp_all add: with_chunk_def)
    have "buf_ok s ?c v" using v by (simp add: buf_ok_def)
    moreover have "\<exists>p w. seg_buffer b = Some p \<and> get_buf ?s p = Some w \<and> buf_ok ?s b w" if "b \<in> live s" for b
    proof -
      from live_buffer [OF inv that] obtain p w where
        p: "seg_buffer b = Some p" "get_buf s p = Some w" "buf_ok s b w" .
      from get_buf_less [OF invs(4) p(2)] p show ?thesis by (simp add: g ok)
    qed
    moreover have "fst ` set (heap ?s) = insert (next_buf s) (fst ` set (heap s))"
      "distinct (map fst (heap s)) \<longrightarrow> distinct (map fst (heap ?s))"
      by (simp_all add: with_chunk_def dom_update distinct_update)
    moreover have "next_buf ?s = next_buf s + 1" by (simp add: with_chunk_def)
    ultimately show ?thesis
      using invs(4) by (auto simp: bm_bufs_def with_chunk_live g ok)
  qed
  moreover have "bm_config ?s" using invs(1) by (simp add: bm_config_def with_chunk_def)
  ultimately show ?thesis by (simp add: bm_inv_except_def)
qed

lemma createZeroCopyBuffer_spec:
  assumes inv: "bm_inv s" and key: "key \<noteq> []" and fresh: "map_of (chunk_index s) key = None"
  shows "\<exists>s'. createZeroCopyBuffer key t s = (Inr (next_buf s), s') \<and> bm_inv s' \<and>
    live s' = insert (unsized_chunk (next_seg s) key (next_buf s)) (live s)"
proof -
  let ?v = "(new_Buffer (next_seg s) (page_size s))\<lparr>mem := Some (fst t), token := Some t, buf_size := snd t\<rparr>"
  note invs = bm_invD [OF inv]
  from fresh obtain i s1 where n: "new_unsized key s = Some (i, s1)"
    by (simp add: new_unsized_def Let_def)
  note nu = new_unsized_with_chunk [OF invs(2) n]
  have "createZeroCopyBuffer key t s = (Inr (next_buf s), with_chunk key ?v s)"
    using nu(5) [of ?v] by (simp add: createZeroCopyBuffer_def n Let_def nu(1,3,4))
  moreover have "bm_inv (with_chunk key ?v s)"
    using invs(1) by (intro with_chunk_inv [OF inv fresh key]) (simp_all add: new_Buffer_def bm_config_def)
  ultimately show ?thesis by (simp add: with_chunk_live)
qed

end
