(* ===== verification/Buffer_Reserve_Inv.thy ===== *)
theory Buffer_Reserve_Inv
  imports Buffer_Create_Inv
begin

text \<open>
  \<open>reserveBuffer\<close> in all its branches: a segment large enough is kept, one with a free
  neighbour grows in place, and otherwise the buffer moves to a new segment, with its bytes.
\<close>

text \<open>
  \<open>regrown s b p v req ev d s'\<close>: the buffer \<open>p\<close> (object \<open>v\<close>) of segment \<open>b\<close> got the segment
  \<open>d\<close> of at least \<open>req\<close> pages, and the unpinned chunks \<open>ev\<close> were given up for it. The buffer
  object still has its old iterator, which its caller overwrites.
\<close>

definition regrown ::
  "BufferMgr \<Rightarrow> BufferSeg \<Rightarrow> nat \<Rightarrow> Buffer \<Rightarrow> nat \<Rightarrow> BufferSeg set \<Rightarrow> BufferSeg \<Rightarrow> BufferMgr \<Rightarrow> bool" where
  "regrown s b p v req ev d s' \<longleftrightarrow>
     bm_config s' \<and> bm_pool s' \<and> bm_index {} s' \<and> bm_bufs {seg_id d} s' \<and>
     ev \<subseteq> live s - {b} \<and> (\<forall>c \<in> ev. seg_pins s c < 1) \<and>
     live s' = insert d (live s - ev - {b}) \<and>
     chunk_key d = chunk_key b \<and> seg_buffer d = Some p \<and> 0 \<le> slab_num d \<and>
     req \<le> num_pages d \<and> num_pages b \<le> num_pages d \<and>
     get_buf s' p = Some (v\<lparr>mem := Some (seg_addr s' d)\<rparr>) \<and>
     (\<forall>q. q \<noteq> p \<longrightarrow> Some q \<notin> seg_buffer ` ev \<longrightarrow> get_buf s' q = get_buf s q) \<and>
     next_buf s' = next_buf s \<and> in_progress s' = in_progress s \<and> page_size s' = page_size s \<and>
     (0 \<le> slab_num b \<longrightarrow>
        (\<forall>k < buf_size v. memory s' (seg_addr s' d + k) = memory s (seg_addr s b + k)))"

lemma takes_get_buf:
  assumes "bm_bufs {} s" and "takes s req j ev s'" and "Some q \<notin> seg_buffer ` ev"
  shows "get_buf s' q = get_buf s q"
proof -
  have "distinct (map fst (heap s))" "distinct (map fst (heap s'))"
    "set (heap s') = {(p, v). (p, v) \<in> set (heap s) \<and> Some p \<notin> seg_buffer ` ev}"
    using assms(1,2) by (simp_all add: bm_bufs_def takes_def)
  with assms(3) have "map_of (heap s') q = Some w \<longleftrightarrow> map_of (heap s) q = Some w" for w
    by (simp add: map_of_distinct_iff)
  then show ?thesis unfolding get_buf_def by (metis not_None_eq)
qed

lemma live_buf_ok:
  assumes "bm_inv s" and "b \<in> live s" and "seg_buffer b = Some p" and "get_buf s p = Some v"
  shows "buf_ok s b v"
  by (rule live_buffer [OF assms(1,2)]) (use assms(3,4) in simp)

lemma sized_iff_start_page:
  assumes "bm_pool s" and "b \<in> live s"
  shows "0 \<le> start_page b \<longleftrightarrow> 0 \<le> slab_num b"
  using live_in_all_segs [OF assms(2)]
proof (cases rule: all_segs_cases)
  case unsized
  with assms(1) have "slab_num b < 0" "start_page b < 0" by (auto simp: bm_pool_def)
  then show ?thesis by simp
next
  case (slab x)
  with assms have "slab_num b = int x" using slab_nodes [OF assms(1) slab(1)]
    by (simp add: nodes_def live_def set_used)
  moreover have "layout 0 (slab_segments s ! x)" using assms(1) slab(1) by (simp add: bm_pool_def pool_ok_def)
  then have "0 \<le> start_page b" using slab(2) layout_bounds by blast
  ultimately show ?thesis by simp
qed

section \<open>Moving a buffer\<close>

lemma memcpy_fields [simp]:
  "live (memcpy a b n s) = live s" "bm_pool (memcpy a b n s) = bm_pool s"
  "lookup_seg (memcpy a b n s) = lookup_seg s" "chunk_index (memcpy a b n s) = chunk_index s"
  "heap (memcpy a b n s) = heap s" "next_buf (memcpy a b n s) = next_buf s"
  "slabs (memcpy a b n s) = slabs s" "page_size (memcpy a b n s) = page_size s"
  "min_num_pages_per_slab (memcpy a b n s) = min_num_pages_per_slab s"
  "in_progress (memcpy a b n s) = in_progress s"
  by (simp_all add: memcpy_def)

lemma get_buf_memcpy [simp]: "get_buf (memcpy a b n s) = get_buf s"
  by (rule ext) (simp add: get_buf_def)

lemma memcpy_copies: "k < n \<Longrightarrow> memory (memcpy dst src n s) (dst + k) = memory s (src + k)"
  by (simp add: memcpy_def)

text \<open>The state \<open>move_segment\<close> leaves, from the segments and the buffer it finds.\<close>

definition moved :: "BufferSeg \<Rightarrow> BufferSeg \<Rightarrow> nat \<Rightarrow> Buffer \<Rightarrow> BufferMgr \<Rightarrow> BufferMgr" where
  "moved b d p v s =
     (let s1 = set_buf p (v\<lparr>mem := Some (seg_addr s d)\<rparr>)
                 (update_seg (seg_id d) (\<lambda>c. c\<lparr>seg_buffer := Some p, chunk_key := chunk_key b\<rparr>) s);
          s2 = (if 0 \<le> start_page b then memcpy (seg_addr s d) (the (mem v)) (buf_size v) s1 else s1)
      in (removeSegment (seg_id b) s2)
           \<lparr>chunk_index := AList.update (chunk_key b) (seg_id d) (chunk_index s)\<rparr>)"

lemma moved_fields:
  "next_buf (moved b d p v s) = next_buf s" "slabs (moved b d p v s) = slabs s"
  "page_size (moved b d p v s) = page_size s" "in_progress (moved b d p v s) = in_progress s"
  "min_num_pages_per_slab (moved b d p v s) = min_num_pages_per_slab s"
  "heap (moved b d p v s) = AList.update p (v\<lparr>mem := Some (seg_addr s d)\<rparr>) (heap s)"
  "chunk_index (moved b d p v s) = AList.update (chunk_key b) (seg_id d) (chunk_index s)"
  by (simp_all add: moved_def Let_def set_buf_def)

lemma moved_get_buf: "get_buf (moved b d p v s) = (get_buf s)(p \<mapsto> v\<lparr>mem := Some (seg_addr s d)\<rparr>)"
  by (simp add: moved_def Let_def)

lemma move_segment_moved:
  assumes "bm_pool s" and "b \<in> live s" "d \<in> live s" and "seg_buffer b = Some p" "get_buf s p = Some v"
    and "0 \<le> start_page b \<Longrightarrow> mem v \<noteq> None"
  shows "move_segment (seg_id b) (seg_id d) s = (Inr (seg_id d), moved b d p v s)"
  using assms lookup_live [OF assms(1,2)] lookup_live [OF assms(1,3)]
  by (simp add: move_segment_def moved_def Let_def seg_addr_def)

lemma moved_live:
  assumes "bm_pool s" and "b \<in> live s" "d \<in> live s" and "seg_id b \<noteq> seg_id d"
    and d': "d' = d\<lparr>seg_buffer := Some p, chunk_key := chunk_key b\<rparr>"
  shows "bm_pool (moved b d p v s)" and "live (moved b d p v s) = insert d' (live s - {d} - {b})"
proof -
  let ?f = "\<lambda>c. c\<lparr>seg_buffer := Some p, chunk_key := chunk_key b\<rparr>"
  let ?s1 = "set_buf p (v\<lparr>mem := Some (seg_addr s d)\<rparr>) (update_seg (seg_id d) ?f s)"
  let ?s2 = "if 0 \<le> start_page b then memcpy (seg_addr s d) (the (mem v)) (buf_size v) ?s1 else ?s1"
  have "live (update_seg (seg_id d) ?f s) = insert (?f d) (live s - {d})"
    by (rule update_seg_live_at) (use assms in simp_all)
  then have l2: "live ?s2 = insert (?f d) (live s - {d})" by simp
  moreover have "bm_pool (update_seg (seg_id d) ?f s)"
    by (rule update_seg_pool [of _ _ d]) (use assms in simp_all)
  then have p2: "bm_pool ?s2" by simp
  moreover have "b \<in> live ?s2" unfolding l2 using assms(2,4) by auto
  moreover note rm = removeSegment_live [OF p2 this]
  have "seg_id (?f d) \<noteq> seg_id b" using assms(4) by simp
  then have "?f d \<noteq> b" by metis
  ultimately show "bm_pool (moved b d p v s)" "live (moved b d p v s) = insert d' (live s - {d} - {b})"
    using rm unfolding moved_def Let_def d' by auto
qed


text \<open>Index and heap after the move, when every chunk but the new segment was in order before.\<close>

lemma moved_index:
  assumes "bm_pool s" and index: "bm_index {seg_id d} s" and live: "b \<in> live s" "d \<in> live s"
    and ne: "seg_id b \<noteq> seg_id d" and d': "d' = d\<lparr>seg_buffer := Some p, chunk_key := chunk_key b\<rparr>"
  shows "bm_index {} (moved b d p v s)"
proof -
  let ?L = "{c \<in> live s. seg_id c \<notin> {seg_id d}}"
  from index have ci: "distinct (map fst (chunk_index s))"
    "set (chunk_index s) = (\<lambda>b. (chunk_key b, seg_id b)) ` ?L" "\<forall>c \<in> ?L. chunk_key c \<noteq> []"
    by (auto simp: bm_index_def)
  have L: "?L = live s - {d}"
    using live_unique [OF assms(1) live(2) live_in_all_segs] by (auto dest: sym)
  have key: "chunk_key c \<noteq> chunk_key b" if "c \<in> live s - {d} - {b}" for c
    using bm_index_key_unique [OF assms(1) index, of c b] that live(1) ne L by auto
  have "set (chunk_index (moved b d p v s)) =
    insert (chunk_key b, seg_id d) ((\<lambda>b. (chunk_key b, seg_id b)) ` (live s - {d} - {b}))"
    using ci(1) key unfolding moved_fields set_AList_update [OF ci(1)] ci(2) L by auto
  moreover have "chunk_key b \<noteq> []" using ci(3) live(1) ne by auto
  moreover have "live (moved b d p v s) = insert d' (live s - {d} - {b})"
    by (rule moved_live [OF assms(1) live ne d'])
  ultimately show ?thesis
    using ci(1,3) L unfolding bm_index_all by (auto simp: d' moved_fields distinct_update)
qed

lemma moved_bufs:
  assumes "bm_pool s" and bufs: "bm_bufs {seg_id d} s" and live: "b \<in> live s" "d \<in> live s"
    and ne: "seg_id b \<noteq> seg_id d" and p: "seg_buffer b = Some p" "get_buf s p = Some v"
  shows "bm_bufs {seg_id d} (moved b d p v s)"
proof -
  let ?d = "d\<lparr>seg_buffer := Some p, chunk_key := chunk_key b\<rparr>"
  have l: "live (moved b d p v s) = insert ?d (live s - {d} - {b})"
    by (rule moved_live [OF assms(1) live ne]) simp
  have ok: "buf_ok (moved b d p v s) = buf_ok s" by (intro ext buf_ok_cong) (simp_all add: moved_fields)
  have "\<exists>q w. seg_buffer c = Some q \<and> get_buf (moved b d p v s) q = Some w \<and> buf_ok s c w"
    if c: "c \<in> live s" "c \<noteq> b" "seg_id c \<noteq> seg_id d" for c
  proof -
    from bufs c obtain q w where q: "seg_buffer c = Some q" "get_buf s q = Some w" "buf_ok s c w"
      by (auto simp: bm_bufs_def)
    moreover have "q \<noteq> p" using bm_bufs_buf_unique [OF assms(1) bufs c(1) live(1)] c ne p q by auto
    ultimately show ?thesis by (simp add: moved_get_buf)
  qed
  with bufs get_buf_less [OF bufs p(2)] show ?thesis
    unfolding bm_bufs_def l ok by (auto simp: moved_fields distinct_update dom_update)
qed

lemma moved_memory:
  assumes "bm_pool s" and "b \<in> live s" and "0 \<le> slab_num b" and "mem v = Some a" and "k < buf_size v"
  shows "memory (moved b d p v s) (seg_addr s d + k) = memory s (a + k)"
  using assms sized_iff_start_page [OF assms(1,2)] by (simp add: moved_def Let_def memcpy_copies)

lemma move_regrown:
  assumes inv: "bm_inv s" and takes: "takes s req j ev s1" and b: "b \<in> live s" "num_pages b \<le> req"
    and p: "seg_buffer b = Some p" "get_buf s p = Some v" and pinned: "1 \<le> buf_pin_count v"
  shows "\<exists>d s'. move_segment (seg_id b) j s1 = (Inr j, s') \<and> seg_id d = j \<and> regrown s b p v req ev d s'"
proof -
  note invs = bm_invD [OF inv]
  from takes_inv [OF inv takes] have inv1: "bm_config s1" "bm_pool s1" "bm_index {j} s1" "bm_bufs {j} s1"
    by (auto simp: bm_inv_except_def)
  from takes obtain d where d: "live s1 = insert d (live s - ev)" "seg_id d = j" "num_pages d = req"
    "0 \<le> slab_num d" and ev: "ev \<subseteq> live s" "\<And>c. c \<in> ev \<Longrightarrow> seg_pins s c < 1"
    and j: "j \<notin> seg_id ` live s" and same: "same_chunks s s1" by (auto simp: takes_def)
  from takes obtain xs where xs: "slabs s1 = slabs s @ xs" by (auto simp: takes_def)
  have pg: "page_size s1 = page_size s" using same by (simp add: same_chunks_def)
  have "b \<notin> ev" using ev(2) [of b] p pinned by (auto simp: seg_pins_def)
  with d b have b1: "b \<in> live s1" and d1: "d \<in> live s1" by auto
  have ne: "seg_id b \<noteq> seg_id d" using j b(1) d(2) by (metis imageI)
  have "Some p \<notin> seg_buffer ` ev"
    using bm_bufs_buf_unique [OF invs(2,4) b(1)] ev(1) p \<open>b \<notin> ev\<close> by (auto simp: image_iff)
  then have p1: "get_buf s1 p = Some v" using takes_get_buf [OF invs(4) takes] p by simp
  have "buf_ok s b v" by (rule live_buf_ok [OF inv b(1) p])
  then have mem: "0 \<le> slab_num b \<Longrightarrow> mem v = Some (seg_addr s b)" by (simp add: buf_ok_def)
  then have mem1: "0 \<le> start_page b \<Longrightarrow> mem v \<noteq> None" using sized_iff_start_page [OF invs(2) b(1)] by auto
  let ?d = "d\<lparr>seg_buffer := Some p, chunk_key := chunk_key b\<rparr>" and ?s = "moved b d p v s1"
  have addr: "seg_addr ?s ?d = seg_addr s1 d" by (simp add: seg_addr_def moved_fields)
  have "d \<notin> live s" using j d(2) by blast
  then have "live ?s = insert ?d (live s - ev - {b})"
    using moved_live(2) [OF inv1(2) b1 d1 ne] d(1) by auto
  moreover have "bm_pool ?s" by (rule moved_live [OF inv1(2) b1 d1 ne]) simp
  moreover have "bm_index {} ?s" "bm_bufs {seg_id d} ?s"
    using moved_index [OF inv1(2) _ b1 d1 ne] moved_bufs [OF inv1(2) _ b1 d1 ne p(1) p1] inv1 d(2) by simp_all
  moreover have "bm_config ?s" using inv1(1) by (simp add: bm_config_def moved_fields)
  moreover have "get_buf ?s q = get_buf s q" if "q \<noteq> p" "Some q \<notin> seg_buffer ` ev" for q
    using takes_get_buf [OF invs(4) takes that(2)] that(1) by (simp add: moved_get_buf)
  moreover have "memory ?s (seg_addr ?s ?d + k) = memory s (seg_addr s b + k)" if "0 \<le> slab_num b" "k < buf_size v" for k
    using moved_memory [OF inv1(2) b1 that(1) mem [OF that(1)] that(2)] same unfolding addr
    by (simp add: same_chunks_def)
  ultimately have "regrown s b p v req ev ?d ?s"
    unfolding regrown_def using d b ev \<open>b \<notin> ev\<close> same
    by (auto simp: moved_fields moved_get_buf addr same_chunks_def)
  moreover have "move_segment (seg_id b) j s1 = (Inr j, ?s)"
    using move_segment_moved [OF inv1(2) b1 d1 p(1) p1 mem1] d(2) by simp
  ultimately show ?thesis using d(2) by (intro exI [of _ ?d] exI [of _ ?s]) simp
qed

section \<open>Staying and growing in place\<close>

lemma sized_slab:
  assumes "bm_pool s" and "b \<in> live s" and "0 \<le> slab_num b"
  obtains x where "x < length (slab_segments s)" "b \<in> set (slab_segments s ! x)" "slab_num b = int x"
  using live_in_all_segs [OF assms(2)]
proof (cases rule: all_segs_cases)
  case unsized
  with assms(1,3) show ?thesis by (auto simp: bm_pool_def)
next
  case (slab x)
  with slab_nodes [OF assms(1) slab(1)] assms(2) have "slab_num b = int x"
    by (simp add: nodes_def live_def set_used)
  with slab that show ?thesis by blast
qed

lemma unsized_no_pages: "bm_pool s \<Longrightarrow> b \<in> live s \<Longrightarrow> slab_num b < 0 \<Longrightarrow> num_pages b = 0"
  using slab_nodes [of s]
  by (auto simp: bm_pool_def nodes_def live_def set_used dest!: live_in_all_segs elim!: all_segs_cases)

lemma bm_bufs_except: "bm_bufs {} s \<Longrightarrow> bm_bufs J s"
  by (simp add: bm_bufs_def)

lemma stay_regrown:
  assumes inv: "bm_inv s" and b: "b \<in> live s" "req < num_pages b"
    and p: "seg_buffer b = Some p" "get_buf s p = Some v"
  shows "regrown s b p v req {} b s"
proof -
  note invs = bm_invD [OF inv]
  have sized: "0 \<le> slab_num b" using unsized_no_pages [OF invs(2) b(1)] b(2) by force
  with live_buf_ok [OF inv b(1) p] have "mem v = Some (seg_addr s b)" by (simp add: buf_ok_def)
  then have "v\<lparr>mem := Some (seg_addr s b)\<rparr> = v" by (cases v) simp
  then show ?thesis using invs b p sized by (auto simp: regrown_def bm_bufs_except)
qed

lemma set_slab_fields [simp]:
  "chunk_index (set_slab x bs s) = chunk_index s" "heap (set_slab x bs s) = heap s"
  "slabs (set_slab x bs s) = slabs s" "page_size (set_slab x bs s) = page_size s"
  "next_buf (set_slab x bs s) = next_buf s" "next_seg (set_slab x bs s) = next_seg s"
  "memory (set_slab x bs s) = memory s" "in_progress (set_slab x bs s) = in_progress s"
  "min_num_pages_per_slab (set_slab x bs s) = min_num_pages_per_slab s"
  by (simp_all add: set_slab_def)

lemma grow_regrown:
  assumes inv: "bm_inv s" and b: "b \<in> live s" "num_pages b \<le> req"
    and x: "x < length (slab_segments s)" "b \<in> set (slab_segments s ! x)" "slab_num b = int x"
    and grow: "grow_in_place (seg_id b) req (slab_segments s ! x) = Some bs'"
    and p: "seg_buffer b = Some p" "get_buf s p = Some v"
  shows "regrown s b p v req {} (b\<lparr>num_pages := req\<rparr>) ((set_slab x bs' s)\<lparr>next_seg := next_seg s + 2\<rparr>)"
    (is "regrown _ _ _ _ _ _ ?d ?s")
proof -
  note invs = bm_invD [OF inv]
  have uniq: "c = b" if "c \<in> set (all_segs s)" "seg_id c = seg_id b" for c
    using live_unique [OF invs(2) b(1) that(1)] that(2) by simp
  have pool: "bm_pool ?s"
    by (rule grow_op.set_slab_pool [where i = "seg_id b" and req = req])
      (use x b grow invs(2) uniq in_slab_all_segs [OF x(1)] in auto)
  have used': "used bs' = map (\<lambda>c. if seg_id c = seg_id b then c\<lparr>num_pages := req\<rparr> else c) (used (slab_segments s ! x))"
    using slab_nodes [OF invs(2) x(1)] by (intro grow_in_place_used [OF grow]) (simp add: nodes_def)
  from used_set_slab [OF x(1)] obtain A B where AB: "used (all_segs s) = A @ used (slab_segments s ! x) @ B"
    "\<And>bs. used (all_segs (set_slab x bs s)) = A @ used bs @ B" by blast
  have "distinct (map seg_id (used (all_segs s)))"
    using all_segs_distinct [OF invs(2)] by (simp add: used_def distinct_map_filter)
  moreover have "b \<in> set (used (slab_segments s ! x))" using x b by (simp add: live_def set_used)
  moreover have "all_segs ?s = all_segs (set_slab x bs' s)" by (simp add: all_segs_def)
  ultimately have live': "live ?s = insert ?d (live s - {b})"
    using set_map_at [of seg_id A "used (slab_segments s ! x)" B b "\<lambda>c. c\<lparr>num_pages := req\<rparr>"]
    by (simp only: live_def AB used')
  have buf: "buf_ok s b v" by (rule live_buf_ok [OF inv b(1) p])
  have ok: "buf_ok ?s = buf_ok s" by (intro ext buf_ok_cong) simp_all
  have get: "get_buf ?s = get_buf s" by (rule ext) (simp add: get_buf_def)
  have "bm_index {} ?s"
    using invs(3) b(1) unfolding bm_index_all live' by (auto simp: image_iff)
  moreover have "bm_bufs {seg_id ?d} ?s"
    using invs(4) unfolding bm_bufs_def live' get ok by auto
  moreover have "bm_config ?s" using invs(1) by (simp add: bm_config_def)
  moreover have "v\<lparr>mem := Some (seg_addr ?s ?d)\<rparr> = v"
    using buf x(3) by (cases v) (simp add: buf_ok_def seg_addr_def)
  ultimately show ?thesis
    using pool live' b p x(3) unfolding regrown_def get by (auto simp: seg_addr_def)
qed

section \<open>reserveBuffer\<close>

lemma reserveBuffer_spec:
  assumes inv: "bm_inv s" and b: "b \<in> live s"
    and p: "seg_buffer b = Some p" "get_buf s p = Some v" and pinned: "1 \<le> buf_pin_count v"
  shows "\<exists>r s'. reserveBuffer os (seg_id b) num_bytes s = Some (r, s') \<and>
    (case r of Inr j \<Rightarrow> \<exists>ev d. seg_id d = j \<and> regrown s b p v (pages_for s num_bytes) ev d s'
     | Inl e \<Rightarrow> searched s s' \<and> (is_oom e \<or> e = Undefined \<and> slab_segments s' = []))"
proof -
  let ?req = "pages_for s num_bytes" and ?k = "nat (slab_num b)"
  note invs = bm_invD [OF inv]
  have look: "lookup_seg s (seg_id b) = Some b" by (rule lookup_live [OF invs(2) b])
  let ?grow = "if 0 \<le> slab_num b then grow_in_place (seg_id b) ?req (slab_segments s ! ?k) else None"
  have ok: ?thesis if "reserveBuffer os (seg_id b) num_bytes s = Some (Inr (seg_id d), s')"
    and "regrown s b p v ?req ev d s'" for d ev s' using that by auto
  show ?thesis
  proof (cases "?req < num_pages b")
    case True
    then have "reserveBuffer os (seg_id b) num_bytes s = Some (Inr (seg_id b), s)"
      by (simp add: reserveBuffer_def look Let_def)
    then show ?thesis using stay_regrown [OF inv b True p] by (rule ok)
  next
    case more: False
    show ?thesis
    proof (cases ?grow)
      case (Some bs')
      then have sized: "0 \<le> slab_num b" "grow_in_place (seg_id b) ?req (slab_segments s ! ?k) = Some bs'"
        by (auto split: if_splits)
      from sized_slab [OF invs(2) b sized(1)] obtain x where x: "x < length (slab_segments s)"
        "b \<in> set (slab_segments s ! x)" "slab_num b = int x" .
      let ?d = "b\<lparr>num_pages := ?req\<rparr>" and ?s = "(set_slab x bs' s)\<lparr>next_seg := next_seg s + 2\<rparr>"
      show ?thesis
      proof (rule ok)
        show "reserveBuffer os (seg_id b) num_bytes s = Some (Inr (seg_id ?d), ?s)"
          using more Some x(3) by (simp add: reserveBuffer_def look Let_def set_slab_def)
        show "regrown s b p v ?req {} ?d ?s"
          using more sized(2) x(3) by (intro grow_regrown [OF inv b _ x _ p]) auto
      qed
    next
      case None
      from findFreeBuffer_spec [OF inv, of os num_bytes] obtain r s1 where
        f: "findFreeBuffer os num_bytes s = Some (r, s1)" and r: "case r of Inr j \<Rightarrow> \<exists>ev. takes s ?req j ev s1
          | Inl e \<Rightarrow> searched s s1 \<and> (is_oom e \<or> e = Undefined \<and> slab_segments s1 = [])" by blast
      have rb: "reserveBuffer os (seg_id b) num_bytes s =
          (case r of Inl e \<Rightarrow> Some (Inl e, s1) | Inr j \<Rightarrow> Some (move_segment (seg_id b) j s1))"
        using more None f by (simp add: reserveBuffer_def look Let_def split: if_splits)
      show ?thesis
      proof (cases r)
        case (Inl e)
        with rb r show ?thesis by auto
      next
        case (Inr j)
        with r obtain ev where "takes s ?req j ev s1" by auto
        from move_regrown [OF inv this b _ p pinned] more obtain d s' where
          "move_segment (seg_id b) j s1 = (Inr j, s')" "seg_id d = j" "regrown s b p v ?req ev d s'" by force
        with rb Inr show ?thesis by auto
      qed
    qed
  qed
qed

end
