(* ===== verification/Buffer_Chunks.thy ===== *)
theory Buffer_Chunks
  imports Buffer_Reserve_Inv
begin

text \<open>
  The operations on chunks that clients see: \<open>Buffer::reserve\<close>, \<open>write\<close> and \<open>append\<close>,
  \<open>createBuffer\<close> and \<open>getBuffer\<close>, with what each of them does on every branch.
\<close>

section \<open>Buffer::reserve\<close>

text \<open>
  \<open>reserved s b p v n ev d v' s'\<close>: buffer \<open>p\<close> of chunk \<open>b\<close> has room for \<open>n\<close> bytes, now in
  segment \<open>d\<close> and as object \<open>v'\<close>; its bytes are where its pointer is; only the unpinned
  chunks \<open>ev\<close> are gone.
\<close>

definition reserved ::
  "BufferMgr \<Rightarrow> BufferSeg \<Rightarrow> nat \<Rightarrow> Buffer \<Rightarrow> nat \<Rightarrow> BufferSeg set \<Rightarrow> BufferSeg \<Rightarrow> Buffer \<Rightarrow> BufferMgr \<Rightarrow> bool" where
  "reserved s b p v n ev d v' s' \<longleftrightarrow>
     bm_inv s' \<and> ev \<subseteq> live s - {b} \<and> (\<forall>c \<in> ev. seg_pins s c < 1) \<and>
     live s' = insert d (live s - ev - {b}) \<and> chunk_key d = chunk_key b \<and> seg_buffer d = Some p \<and>
     get_buf s' p = Some v' \<and> n \<le> reservedSize v' \<and> buf_pin_count v' = buf_pin_count v \<and>
     buf_page_size v' = buf_page_size v \<and>
     (\<forall>q. q \<noteq> p \<longrightarrow> Some q \<notin> seg_buffer ` ev \<longrightarrow> get_buf s' q = get_buf s q) \<and>
     next_buf s' = next_buf s \<and> in_progress s' = in_progress s \<and> page_size s' = page_size s \<and>
     (0 < n \<longrightarrow> token v' = None \<and> mem v' \<noteq> None \<and> (token v \<noteq> None \<longrightarrow> buf_size v' = 0)) \<and>
     (token v = None \<longrightarrow> buf_size v' = buf_size v \<and>
        (\<forall>k < buf_size v. memory s' (the (mem v') + k) = memory s (the (mem v) + k)))"

lemma reserved_pages:
  assumes "bm_inv s" and "b \<in> live s" and "seg_buffer b = Some p" "get_buf s p = Some v"
    and "0 < buf_num_pages v"
  shows "0 \<le> slab_num b" and "token v = None" and "mem v = Some (seg_addr s b)"
proof -
  note ok = live_buf_ok [OF assms(1-4)]
  note invs = bm_invD [OF assms(1)]
  have "0 < buf_num_pages v * buf_page_size v" using ok assms(5) by (simp add: buf_ok_def)
  also have "\<dots> \<le> num_pages b * page_size s" using ok by (simp add: buf_ok_def)
  finally have "num_pages b \<noteq> 0" by (rule contrapos_pn) simp
  then show "0 \<le> slab_num b" using unsized_no_pages [OF invs(2) assms(2)] by force
  with ok show "token v = None" "mem v = Some (seg_addr s b)" by (simp_all add: buf_ok_def)
qed

lemma drop_token_inv:
  assumes inv: "bm_inv s" and p: "get_buf s p = Some v"
  shows "bm_inv (set_buf p (drop_token v) s)"
  using p by (rule set_buf_inv [OF inv]) (auto simp: drop_token_def buf_ok_def split: option.splits)

lemma drop_token_simps [simp]:
  "token (drop_token v) = None" "buf_pin_count (drop_token v) = buf_pin_count v"
  "buf_page_size (drop_token v) = buf_page_size v" "buf_num_pages (drop_token v) = buf_num_pages v"
  "page_dirty_flags (drop_token v) = page_dirty_flags v" "seg_it (drop_token v) = seg_it v"
  "token v = None \<Longrightarrow> drop_token v = v" "token v \<noteq> None \<Longrightarrow> buf_size (drop_token v) = 0"
  by (auto simp: drop_token_def split: option.splits)

lemma seg_addr_set_buf [simp]: "seg_addr (set_buf p v s) = seg_addr s"
  by (rule ext) (simp add: seg_addr_def)

lemma length_resize_flags [simp]: "length (resize_flags n fs) = n"
  by (simp add: resize_flags_def)

text \<open>The last step of \<open>reserve\<close>, on what \<open>reserveBuffer\<close> returned.\<close>

lemma regrown_reserved:
  assumes inv: "bm_inv s" and b: "b \<in> live s" and p: "seg_buffer b = Some p" "get_buf s p = Some v"
    and np: "np = (n + buf_page_size v - 1) div buf_page_size v" "buf_num_pages v < np"
    and grown: "regrown (set_buf p (drop_token v) s) b p (drop_token v) (pages_for s (buf_page_size v * np)) ev d s1"
    and v': "v' = (drop_token v)\<lparr>mem := Some (seg_addr s1 d), seg_it := seg_id d, buf_num_pages := np,
               page_dirty_flags := resize_flags np (page_dirty_flags v)\<rparr>"
  shows "reserved s b p v n ev d v' (set_buf p v' s1)"
proof -
  let ?s0 = "set_buf p (drop_token v) s"
  have pins: "seg_pins ?s0 = seg_pins s" by (rule seg_pins_set_buf [OF p(2)]) simp
  have ok: "buf_ok s b v" by (rule live_buf_ok [OF inv b p])
  then have ps: "0 < buf_page_size v" by (simp add: buf_ok_def)
  from grown have g: "bm_config s1" "bm_pool s1" "bm_index {} s1" "bm_bufs {seg_id d} s1"
    "live s1 = insert d (live s - ev - {b})" "seg_buffer d = Some p" "0 \<le> slab_num d"
    "pages_for s (buf_page_size v * np) \<le> num_pages d" "page_size s1 = page_size s"
    "get_buf s1 p = Some ((drop_token v)\<lparr>mem := Some (seg_addr s1 d)\<rparr>)" and ev: "ev \<subseteq> live s - {b}"
    by (auto simp: regrown_def)
  have "np * buf_page_size v \<le> pages_for s (buf_page_size v * np) * page_size s"
    using ceil_div_mult [of "page_size s" "buf_page_size v * np"] bm_invD(1) [OF inv]
    by (simp add: pages_for_def bm_config_def mult.commute)
  also have "\<dots> \<le> num_pages d * page_size s1" using g(8,9) by simp
  finally have fits: "np * buf_page_size v \<le> num_pages d * page_size s1" .
  have "buf_size (drop_token v) \<le> buf_num_pages v * buf_page_size v"
    using ok by (simp add: drop_token_def buf_ok_def split: option.splits)
  also have "\<dots> \<le> np * buf_page_size v" using np(2) by simp
  finally have ok': "buf_ok s1 d v'" using fits ps by (simp add: v' buf_ok_def)
  have only: "c = d" if "c \<in> live s1" "seg_buffer c = Some p" for c
  proof (rule ccontr)
    assume "c \<noteq> d"
    with that g(5) have "c \<in> live s" "c \<noteq> b" by auto
    with bm_bufs_buf_unique [OF bm_invD(2,4) [OF inv], of c b] b p(1) that(2) show False by simp
  qed
  have here: "seg_buffer c = Some p" if "c \<in> live s1" "seg_id c = seg_id d" for c
    using live_unique [OF g(2) that(1) live_in_all_segs, of d] that g(5,6) by simp
  have "bm_bufs {} (set_buf p v' s1)"
  proof (rule set_buf_bufs [OF g(4,10)])
    show "buf_ok s1 c v'" if "c \<in> live s1" "seg_buffer c = Some p" for c using only [OF that] ok' by simp
    show "seg_buffer c = Some p" if "c \<in> live s1" "seg_id c \<in> {seg_id d} - {}" for c using here that by simp
  qed
  with g have "bm_inv (set_buf p v' s1)" by (simp add: bm_inv_except_def bm_config_def bm_index_def)
  moreover have "n \<le> reservedSize v'"
    using ceil_div_mult [OF ps, of n] by (simp add: v' reservedSize_def np(1) mult.commute)
  moreover have "memory s1 (seg_addr s1 d + k) = memory s (the (mem v) + k)"
    if "token v = None" "k < buf_size v" for k
  proof -
    from ok that have "0 < buf_num_pages v" by (auto simp: buf_ok_def intro: Nat.gr0I)
    from reserved_pages [OF inv b p this] grown that show ?thesis by (simp add: regrown_def)
  qed
  ultimately show ?thesis
    using grown ev pins unfolding reserved_def regrown_def by (auto simp: v')
qed


lemma stay_reserved:
  assumes inv: "bm_inv s" and b: "b \<in> live s" and p: "seg_buffer b = Some p" "get_buf s p = Some v"
    and np: "(n + buf_page_size v - 1) div buf_page_size v \<le> buf_num_pages v"
  shows "reserved s b p v n {} b v s"
proof -
  have ps: "0 < buf_page_size v" using live_buf_ok [OF inv b p] by (simp add: buf_ok_def)
  have "n \<le> (n + buf_page_size v - 1) div buf_page_size v * buf_page_size v" by (rule ceil_div_mult [OF ps])
  also have "\<dots> \<le> buf_num_pages v * buf_page_size v" using np by simp
  finally have n: "n \<le> reservedSize v" by (simp add: reservedSize_def mult.commute)
  have "0 < buf_num_pages v" if "0 < n" using n that by (auto simp: reservedSize_def intro: Nat.gr0I)
  then have "token v = None \<and> mem v \<noteq> None" if "0 < n" using reserved_pages [OF inv b p] that by simp
  with inv b p n show ?thesis by (auto simp: reserved_def)
qed

lemma buffer_reserve_spec:
  assumes inv: "bm_inv s" and b: "b \<in> live s"
    and p: "seg_buffer b = Some p" "get_buf s p = Some v" and pinned: "1 \<le> buf_pin_count v"
  shows "\<exists>r s'. buffer_reserve os p n s = Some (r, s') \<and>
    (case r of Inr _ \<Rightarrow> \<exists>ev d v'. reserved s b p v n ev d v' s'
     | Inl e \<Rightarrow> searched (set_buf p (drop_token v) s) s' \<and> (is_oom e \<or> e = Undefined \<and> slab_segments s' = []))"
proof -
  define np where np: "np = (n + buf_page_size v - 1) div buf_page_size v"
  show ?thesis
  proof (cases "np \<le> buf_num_pages v")
    case True
    then have "buffer_reserve os p n s = Some (Inr (), s)" using p by (simp add: buffer_reserve_def np)
    moreover have "reserved s b p v n {} b v s" using True np by (intro stay_reserved [OF inv b p]) simp
    ultimately show ?thesis by auto
  next
    case False
    let ?s0 = "set_buf p (drop_token v) s"
    have it: "seg_it v = seg_id b" using live_buf_ok [OF inv b p] by (simp add: buf_ok_def)
    have pg: "pages_for ?s0 = pages_for s" by (rule ext) (simp add: pages_for_def)
    obtain r s1 where rb: "reserveBuffer os (seg_id b) (buf_page_size v * np) ?s0 = Some (r, s1)"
      and r: "case r of Inr j \<Rightarrow> \<exists>ev d. seg_id d = j \<and>
          regrown ?s0 b p (drop_token v) (pages_for s (buf_page_size v * np)) ev d s1
        | Inl e \<Rightarrow> searched ?s0 s1 \<and> (is_oom e \<or> e = Undefined \<and> slab_segments s1 = [])"
      using reserveBuffer_spec [OF drop_token_inv [OF inv p(2)], of b p "drop_token v" os "buf_page_size v * np"]
        b p(1) pinned unfolding pg by auto
    show ?thesis
    proof (cases r)
      case (Inl e)
      with r rb False p it show ?thesis by (simp add: buffer_reserve_def np Let_def)
    next
      case (Inr j)
      with r obtain ev d where d: "seg_id d = j"
        "regrown ?s0 b p (drop_token v) (pages_for s (buf_page_size v * np)) ev d s1" by auto
      define v' where v': "v' = (drop_token v)\<lparr>mem := Some (seg_addr s1 d), seg_it := seg_id d,
          buf_num_pages := np, page_dirty_flags := resize_flags np (page_dirty_flags v)\<rparr>"
      have "reserved s b p v n ev d v' (set_buf p v' s1)"
        using False by (intro regrown_reserved [OF inv b p np _ d(2) v']) simp
      moreover have "buffer_reserve os p n s = Some (Inr (), set_buf p v' s1)"
        using d rb Inr False p it by (simp add: buffer_reserve_def np Let_def regrown_def v')
      ultimately show ?thesis by auto
    qed
  qed
qed

end
