(* ===== verification/Buffer_Create_Spec.thy ===== *)
theory Buffer_Create_Spec
  imports Buffer_Chunks
begin

text \<open>
  \<open>createBuffer\<close>: a new chunk with room for what was asked, or an exception that leaves every
  chunk as it was.
\<close>

section \<open>The two outcomes\<close>

definition created ::
  "BufferMgr \<Rightarrow> ChunkKey \<Rightarrow> nat \<Rightarrow> BufferSeg set \<Rightarrow> BufferSeg \<Rightarrow> Buffer \<Rightarrow> BufferMgr \<Rightarrow> bool" where
  "created s key n ev d v s' \<longleftrightarrow>
     bm_inv s' \<and> ev \<subseteq> live s \<and> (\<forall>c \<in> ev. seg_pins s c < 1) \<and>
     live s' = insert d (live s - ev) \<and> chunk_key d = key \<and> seg_buffer d = Some (next_buf s) \<and>
     get_buf s' (next_buf s) = Some v \<and> n \<le> reservedSize v \<and> buf_size v = 0 \<and> buf_pin_count v = 1 \<and>
     (0 < n \<longrightarrow> mem v \<noteq> None) \<and>
     (\<forall>q. q \<noteq> next_buf s \<longrightarrow> Some q \<notin> seg_buffer ` ev \<longrightarrow> get_buf s' q = get_buf s q)"

definition same_pool :: "BufferMgr \<Rightarrow> BufferMgr \<Rightarrow> bool" where
  "same_pool s s' \<longleftrightarrow>
     live s' = live s \<and> set (chunk_index s') = set (chunk_index s) \<and> get_buf s' = get_buf s \<and>
     memory s' = memory s \<and> in_progress s' = in_progress s"

section \<open>Success\<close>

lemma with_chunk_get_buf: "get_buf (with_chunk key v s) = (get_buf s)(next_buf s \<mapsto> v)"
  by (rule ext) (simp add: get_buf_def with_chunk_def update_conv')

lemma new_Buffer_simps [simp]:
  "seg_it (new_Buffer i ps) = i" "buf_page_size (new_Buffer i ps) = ps" "buf_num_pages (new_Buffer i ps) = 0"
  "buf_size (new_Buffer i ps) = 0" "buf_pin_count (new_Buffer i ps) = 1" "token (new_Buffer i ps) = None"
  "page_dirty_flags (new_Buffer i ps) = []" "mem (new_Buffer i ps) = None"
  by (simp_all add: new_Buffer_def)

lemma seg_pins_with_chunk:
  assumes inv: "bm_inv s" and b: "b \<in> live s"
  shows "seg_pins (with_chunk key v s) b = seg_pins s b"
proof -
  from live_buffer [OF inv b] obtain p w where p: "seg_buffer b = Some p" "get_buf s p = Some w" .
  with get_buf_less [OF bm_invD(4) [OF inv] p(2)] show ?thesis
    by (simp add: seg_pins_def with_chunk_get_buf)
qed

lemma unsized_chunk_fresh:
  assumes "bm_inv s"
  shows "unsized_chunk (next_seg s) key p \<notin> live s"
  using all_segs_less [OF bm_invD(2) [OF assms]] live_in_all_segs by fastforce

lemma reserved_created:
  assumes inv: "bm_inv s" and v: "buf_size v = 0" "buf_pin_count v = 1" "token v = None"
    and r: "reserved (with_chunk key v s) (unsized_chunk (next_seg s) key (next_buf s)) (next_buf s) v n ev d v' s'"
  shows "created s key n ev d v' s'"
proof -
  let ?c = "unsized_chunk (next_seg s) key (next_buf s)"
  have fresh: "?c \<notin> live s" by (rule unsized_chunk_fresh [OF inv])
  have ev: "ev \<subseteq> live s" using r fresh by (auto simp: reserved_def with_chunk_live)
  have "live (with_chunk key v s) - ev - {?c} = live s - ev" using fresh by (auto simp: with_chunk_live)
  moreover have "seg_pins s c < 1" if "c \<in> ev" for c
  proof -
    have "seg_pins (with_chunk key v s) c < 1" using r that by (simp add: reserved_def)
    then show ?thesis using seg_pins_with_chunk [OF inv, of c key v] ev that by auto
  qed
  ultimately show ?thesis
    using r ev v unfolding reserved_def created_def by (auto simp: with_chunk_get_buf)
qed

section \<open>Failure\<close>

lemma update_seg_chunk_index:
  "(update_seg i f s)\<lparr>chunk_index := ci\<rparr> = update_seg i f (s\<lparr>chunk_index := ci\<rparr>)"
  by (simp add: update_seg_def Let_def)

text \<open>The handler of \<open>createBuffer\<close>, on the state the constructor of the buffer threw in.\<close>

definition undo_create :: "ChunkKey \<Rightarrow> nat \<Rightarrow> nat \<Rightarrow> BufferMgr \<Rightarrow> BufferMgr" where
  "undo_create key i p s =
     snd (deleteBuffer key (update_seg i (\<lambda>c. c\<lparr>seg_buffer := None\<rparr>) (delete_buf p s)))"

lemma undo_create_spec:
  assumes inv: "bm_inv s" and c: "c \<in> live s" "seg_id c = i" "chunk_key c = key" "seg_buffer c = Some p"
  shows "bm_inv (undo_create key i p s)" and "live (undo_create key i p s) = live s - {c}"
    and "chunk_index (undo_create key i p s) = AList.delete key (chunk_index s)"
    and "heap (undo_create key i p s) = AList.delete p (heap s)"
    and "memory (undo_create key i p s) = memory s" and "in_progress (undo_create key i p s) = in_progress s"
proof -
  note invs = bm_invD [OF inv]
  let ?f = "\<lambda>c. c\<lparr>seg_buffer := None\<rparr>"
  let ?s1 = "(delete_buf p s)\<lparr>chunk_index := AList.delete key (chunk_index s)\<rparr>"
  have "map_of (chunk_index s) key = Some i" using index_of_live [OF invs(3) c(1)] c by simp
  moreover have "lookup_seg (update_seg i ?f ?s1) i = Some (?f c)"
    using unlink_seg(1) [of ?s1 c p] invs(2) c by simp
  ultimately have u: "undo_create key i p s = removeSegment i (update_seg i ?f ?s1)"
    by (simp add: undo_create_def deleteBuffer_def delete_seg_buffer_def update_seg_chunk_index)
  have pool: "bm_pool (undo_create key i p s)" and live: "live (undo_create key i p s) = live s - {c}"
    unfolding u using unlink_seg(2,3) [of ?s1 c p] invs(2) c by simp_all
  show "live (undo_create key i p s) = live s - {c}" by (fact live)
  show ci: "chunk_index (undo_create key i p s) = AList.delete key (chunk_index s)"
    and h: "heap (undo_create key i p s) = AList.delete p (heap s)"
    and "memory (undo_create key i p s) = memory s" and "in_progress (undo_create key i p s) = in_progress s"
    unfolding u by simp_all
  show "bm_inv (undo_create key i p s)"
    by (rule chunk_removed [OF inv c(1,4) pool _ live])
      (use invs(1) c(3) ci h in \<open>simp_all add: u bm_config_def\<close>)
qed


lemma delete_update_fresh:
  "k \<notin> fst ` set al \<Longrightarrow> AList.delete k (AList.update k v al) = al"
  by (induction al) (auto simp: AList.delete_eq)

lemma failed_create:
  assumes inv: "bm_inv s" and key: "map_of (chunk_index s) key = None" "key \<noteq> []"
    and v: "seg_it v = next_seg s" "0 < buf_page_size v" "buf_num_pages v = 0" "page_dirty_flags v = []"
      "token v = None" "buf_size v = 0"
    and s2: "searched (set_buf (next_buf s) v (with_chunk key v s)) s2"
  shows "bm_inv (undo_create key (next_seg s) (next_buf s) s2)"
    and "same_pool s (undo_create key (next_seg s) (next_buf s) s2)"
    and "map_of (chunk_index s2) key = Some (next_seg s)"
proof -
  let ?p = "next_buf s" and ?i = "next_seg s" and ?s1 = "with_chunk key v s"
  let ?c = "unsized_chunk ?i key ?p" and ?s0 = "set_buf ?p v (with_chunk key v s)"
  have s1: "bm_inv ?s1" using v by (intro with_chunk_inv [OF inv key]) auto
  have "bm_inv ?s0" by (rule set_buf_inv [OF s1]) (simp_all add: with_chunk_get_buf)
  then have inv2: "bm_inv s2" by (rule searched_inv [OF s2])
  have l2: "live s2 = insert ?c (live s)" using s2 by (simp add: searched_def with_chunk_live)
  then have c: "?c \<in> live s2" by simp
  note u = undo_create_spec [OF inv2 c, of ?i key ?p]
  show "bm_inv (undo_create key ?i ?p s2)" by (rule u(1)) simp_all
  have ci: "chunk_index s2 = AList.update key ?i (chunk_index s)"
    using s2 by (simp add: searched_def with_chunk_def)
  then show "map_of (chunk_index s2) key = Some ?i" by (simp add: update_conv')
  have "key \<notin> fst ` set (chunk_index s)" using key(1) by (simp add: map_of_eq_None_iff)
  then have "chunk_index (undo_create key ?i ?p s2) = chunk_index s"
    using u(3) ci by (simp add: delete_update_fresh)
  moreover have "live (undo_create key ?i ?p s2) = live s"
    using u(2) l2 unsized_chunk_fresh [OF inv] by simp
  moreover have "get_buf (undo_create key ?i ?p s2) = get_buf s"
  proof
    fix q
    have "get_buf s ?p = None" using get_buf_less [OF bm_invD(4) [OF inv], of ?p] by (cases "get_buf s ?p") auto
    then show "get_buf (undo_create key ?i ?p s2) q = get_buf s q"
      using u(4) searched_bufs(1) [OF s2] by (simp add: get_buf_def delete_conv' fun_eq_iff with_chunk_def set_buf_def update_conv')
  qed
  moreover have "memory (undo_create key ?i ?p s2) = memory s"
    using u(5) s2 by (simp add: searched_def same_chunks_def with_chunk_def)
  moreover have "in_progress (undo_create key ?i ?p s2) = in_progress s"
    using u(6) s2 by (simp add: searched_def same_chunks_def with_chunk_def)
  ultimately show "same_pool s (undo_create key ?i ?p s2)" by (simp add: same_pool_def)
qed

section \<open>createBuffer\<close>

lemma allocateBuffer_with_chunk:
  assumes "bm_pool s" and "new_unsized key s = Some (i, s1)" and v: "v = new_Buffer (next_seg s) ps"
  shows "allocateBuffer os i ps n s1 =
    (if 0 < n then
       do {
         (r, s2) \<leftarrow> buffer_reserve os (next_buf s) n (with_chunk key v s);
         (case r of Inl e \<Rightarrow> Some (Inl e, delete_buf (next_buf s) s2) | Inr _ \<Rightarrow> Some (Inr (), s2))
       }
     else Some (Inr (), with_chunk key v s))"
  using new_unsized_with_chunk [OF assms(1,2)] by (simp add: allocateBuffer_def Let_def v)

lemma created_lookup:
  assumes "created s key n ev d v s'"
  shows "map_of (chunk_index s') key = Some (seg_id d)" and "lookup_seg s' (seg_id d) = Some d"
proof -
  from assms have inv: "bm_inv s'" and d: "d \<in> live s'" "chunk_key d = key" by (auto simp: created_def)
  note invs = bm_invD [OF inv]
  show "map_of (chunk_index s') key = Some (seg_id d)" using index_of_live [OF invs(3) d(1)] d(2) by simp
  show "lookup_seg s' (seg_id d) = Some d" by (rule lookup_live [OF invs(2) d(1)])
qed

lemma createBuffer_spec:
  assumes inv: "bm_inv s" and key: "map_of (chunk_index s) key = None" "key \<noteq> []"
  shows "\<exists>r s'. createBuffer os key cps n s = Some (r, s') \<and>
    (case r of Inr p \<Rightarrow> p = next_buf s \<and> (\<exists>ev d v. created s key n ev d v s')
     | Inl e \<Rightarrow> is_oom e \<and> bm_inv s' \<and> same_pool s s' \<or> e = Undefined \<and> slab_segments s' = [])"
proof -
  define ps where "ps = (if cps = 0 then page_size s else cps)"
  define v where "v = new_Buffer (next_seg s) ps"
  let ?p = "next_buf s" and ?s1 = "with_chunk key v s" and ?c = "unsized_chunk (next_seg s) key (next_buf s)"
  note invs = bm_invD [OF inv]
  have ps: "0 < ps" using invs(1) by (simp add: ps_def bm_config_def)
  from key(1) obtain i s0 where nu: "new_unsized key s = Some (i, s0)" by (simp add: new_unsized_def Let_def)
  have v: "seg_it v = next_seg s" "0 < buf_page_size v" "buf_num_pages v = 0" "page_dirty_flags v = []"
    "token v = None" "buf_size v = 0" "buf_pin_count v = 1" using ps by (simp_all add: v_def)
  have inv1: "bm_inv ?s1" using v by (intro with_chunk_inv [OF inv key]) auto
  have c: "?c \<in> live ?s1" "seg_buffer ?c = Some ?p" "get_buf ?s1 ?p = Some v"
    by (simp_all add: with_chunk_live with_chunk_get_buf)
  note ab = allocateBuffer_with_chunk [OF invs(2) nu v_def, of os n]
  have ok: ?thesis if "created s key n ev d v' s'" and "allocateBuffer os i ps n s0 = Some (Inr (), s')" for ev d v' s'
    using that created_lookup [OF that(1)] nu
    by (auto simp: createBuffer_def Let_def ps_def created_def)
  have stay: "reserved ?s1 ?c ?p v 0 {} ?c v ?s1"
    using ps v by (intro stay_reserved [OF inv1 c]) simp
  show ?thesis
  proof (cases "0 < n")
    case False
    then show ?thesis
      using ok [OF reserved_created [OF inv v(6,7,5)]] stay ab by simp
  next
    case True
    from buffer_reserve_spec [OF inv1 c, of os n] v(7) obtain r s2 where
      br: "buffer_reserve os ?p n ?s1 = Some (r, s2)" and r: "case r of
        Inr _ \<Rightarrow> \<exists>ev d v'. reserved ?s1 ?c ?p v n ev d v' s2
      | Inl e \<Rightarrow> searched (set_buf ?p (drop_token v) ?s1) s2 \<and> (is_oom e \<or> e = Undefined \<and> slab_segments s2 = [])"
      by auto
    show ?thesis
    proof (cases r)
      case (Inr u)
      with r obtain ev d v' where "reserved ?s1 ?c ?p v n ev d v' s2" by auto
      then show ?thesis using ok [OF reserved_created [OF inv v(6,7,5)]] ab True br Inr by simp
    next
      case (Inl e)
      with r v(5) have s2: "searched (set_buf ?p v ?s1) s2" "is_oom e \<or> e = Undefined \<and> slab_segments s2 = []"
        by simp_all
      note f = failed_create [OF inv key v(1-6) s2(1)]
      have cb: "createBuffer os key cps n s =
          Some (Inl e, if is_oom e then undo_create key (next_seg s) ?p s2 else delete_buf ?p s2)"
        using ab True br Inl nu f(3) by (simp add: createBuffer_def Let_def ps_def undo_create_def)
      show ?thesis using f s2(2) by (cases "is_oom e") (auto simp: cb delete_buf_def)
    qed
  qed
qed

end
