(* ===== verification/Buffer_Data.thy ===== *)
theory Buffer_Data
  imports Buffer_Create_Spec
begin

text \<open>
  The contents of buffers: what \<open>write\<close> and \<open>append\<close> store is what \<open>read\<close> returns, and the
  bytes outside the range written stay as they were, through any move of the buffer.
\<close>

section \<open>Memory\<close>

lemma readData_writeData: "readData addr (length src) (writeData addr src s) = src"
  by (rule nth_equalityI) (simp_all add: readData_def writeData_def)

lemma memory_writeData_other:
  "a < addr \<or> addr + length src \<le> a \<Longrightarrow> memory (writeData addr src s) a = memory s a"
  by (auto simp: writeData_def)

lemma readData_split: "readData addr (m + n) s = readData addr m s @ readData (addr + m) n s"
  by (rule nth_equalityI) (auto simp: readData_def nth_append add.assoc)

lemma writeData_fields [simp]:
  "live (writeData a src s) = live s" "bm_pool (writeData a src s) = bm_pool s"
  "chunk_index (writeData a src s) = chunk_index s" "heap (writeData a src s) = heap s"
  "slabs (writeData a src s) = slabs s" "page_size (writeData a src s) = page_size s"
  "next_buf (writeData a src s) = next_buf s"
  "min_num_pages_per_slab (writeData a src s) = min_num_pages_per_slab s"
  by (simp_all add: writeData_def)

lemma get_buf_writeData [simp]: "get_buf (writeData a src s) = get_buf s"
  by (rule ext) (simp add: get_buf_def)

lemma bm_inv_writeData [simp]: "bm_inv (writeData a src s) = bm_inv s"
proof -
  have "buf_ok (writeData a src s) = buf_ok s" by (intro ext buf_ok_cong) simp_all
  then show ?thesis by (simp add: bm_inv_except_def bm_config_def bm_index_def bm_bufs_def)
qed

lemma memory_set_buf: "memory (set_buf p v s) = memory s"
  by simp

section \<open>Flags\<close>

lemma length_fold_flags: "length (fold (\<lambda>i fs. fs[i := True]) is fs) = length fs"
  by (induction "is" arbitrary: fs) auto

lemma mark_written_simps [simp]:
  "mem (mark_written off n v) = mem v" "seg_it (mark_written off n v) = seg_it v"
  "buf_page_size (mark_written off n v) = buf_page_size v"
  "buf_num_pages (mark_written off n v) = buf_num_pages v"
  "token (mark_written off n v) = token v" "buf_pin_count (mark_written off n v) = buf_pin_count v"
  "length (page_dirty_flags (mark_written off n v)) = length (page_dirty_flags v)"
  "buf_size (mark_written off n v) = max (buf_size v) (off + n)"
  by (auto simp: mark_written_def Let_def length_fold_flags)

lemma fold_flags_nth:
  "j < length fs \<Longrightarrow> fold (\<lambda>i fs. fs[i := True]) is fs ! j = (j \<in> set is \<or> fs ! j)"
proof (induction "is" arbitrary: fs)
  case (Cons i "is")
  then show ?case by (cases "i = j") auto
qed simp

section \<open>write\<close>

lemma reserve_for_spec:
  assumes inv: "bm_inv s" and b: "b \<in> live s"
    and p: "seg_buffer b = Some p" "get_buf s p = Some v" and pinned: "1 \<le> buf_pin_count v" and n: "0 < n"
  shows "\<exists>r s'. reserve_for os p n v s = Some (r, s') \<and>
    (case r of Inr _ \<Rightarrow> \<exists>ev d v'. reserved s b p v n ev d v' s'
     | Inl e \<Rightarrow> bm_inv s' \<and> (is_oom e \<or> e = Undefined \<and> slab_segments s' = []))"
proof (cases "reservedSize v < n")
  case True
  from buffer_reserve_spec [OF inv b p pinned, of os n] obtain r s' where
    br: "buffer_reserve os p n s = Some (r, s')" and r: "case r of Inr _ \<Rightarrow> \<exists>ev d v'. reserved s b p v n ev d v' s'
     | Inl e \<Rightarrow> searched (set_buf p (drop_token v) s) s' \<and> (is_oom e \<or> e = Undefined \<and> slab_segments s' = [])"
    by blast
  have "bm_inv s'" if "searched (set_buf p (drop_token v) s) s'"
    using that drop_token_inv [OF inv p(2)] by (rule searched_inv)
  with br r True show ?thesis by (cases r) (auto simp: reserve_for_def)
next
  case False
  then have "0 < buf_num_pages v" using n by (auto simp: reservedSize_def intro: Nat.gr0I)
  from reserved_pages [OF inv b p this] False inv b p have "reserved s b p v n {} b v s"
    by (auto simp: reserved_def)
  with False show ?thesis by (auto simp: reserve_for_def)
qed

definition written ::
  "BufferMgr \<Rightarrow> nat \<Rightarrow> Buffer \<Rightarrow> u8 list \<Rightarrow> nat \<Rightarrow> Buffer \<Rightarrow> BufferMgr \<Rightarrow> bool" where
  "written s p v src offset v' s' \<longleftrightarrow>
     bm_inv s' \<and> get_buf s' p = Some v' \<and> mem v' \<noteq> None \<and> buf_pin_count v' = buf_pin_count v \<and>
     buffer_read p (length src) offset s' = Inr src \<and>
     (token v = None \<longrightarrow> buf_size v' = max (buf_size v) (offset + length src) \<and>
        (\<forall>k < buf_size v. k < offset \<or> offset + length src \<le> k \<longrightarrow>
           memory s' (the (mem v') + k) = memory s (the (mem v) + k)))"

lemma buffer_write_spec:
  assumes inv: "bm_inv s" and b: "b \<in> live s"
    and p: "seg_buffer b = Some p" "get_buf s p = Some v" and pinned: "1 \<le> buf_pin_count v" and src: "src \<noteq> []"
  shows "\<exists>r s'. buffer_write os p src offset s = Some (r, s') \<and>
    (case r of Inr _ \<Rightarrow> \<exists>v'. written s p v src offset v' s'
     | Inl e \<Rightarrow> bm_inv s' \<and> (is_oom e \<or> e = Undefined \<and> slab_segments s' = []))"
proof -
  let ?n = "length src + offset"
  from src have n: "0 < ?n" by simp
  from reserve_for_spec [OF inv b p pinned n, of os] obtain r s1 where
    rf: "reserve_for os p ?n v s = Some (r, s1)" and r: "case r of Inr _ \<Rightarrow> \<exists>ev d v'. reserved s b p v ?n ev d v' s1
     | Inl e \<Rightarrow> bm_inv s1 \<and> (is_oom e \<or> e = Undefined \<and> slab_segments s1 = [])" by blast
  show ?thesis
  proof (cases r)
    case (Inl e)
    with rf r p src show ?thesis by (simp add: buffer_write_def)
  next
    case (Inr u)
    with r obtain ev d v1 where res: "reserved s b p v ?n ev d v1 s1" by auto
    with n obtain a where a: "mem v1 = Some a" "get_buf s1 p = Some v1" "bm_inv s1" "?n \<le> reservedSize v1"
      by (auto simp: reserved_def)
    define v' where "v' = mark_written offset (length src) v1"
    let ?s = "set_buf p v' (writeData (a + offset) src s1)"
    have bw: "buffer_write os p src offset s = Some (Inr (), ?s)"
      using rf Inr p src a by (simp add: buffer_write_def v'_def)
    have "bm_inv ?s"
    proof (rule set_buf_inv)
      show "bm_inv (writeData (a + offset) src s1)" using a(3) by simp
      show "get_buf (writeData (a + offset) src s1) p = Some v1" using a(2) by simp
      show "buf_ok (writeData (a + offset) src s1) c v'" if "buf_ok (writeData (a + offset) src s1) c v1" for c
        using that a(4) by (simp add: buf_ok_def v'_def seg_addr_def reservedSize_def mult.commute)
    qed
    moreover have "readData (a + offset) (length src) ?s = src"
      using readData_writeData [of "a + offset" src s1] by (simp add: readData_def)
    moreover have "memory ?s (a + k) = memory s (the (mem v) + k)"
      if "token v = None" "k < buf_size v" "k < offset \<or> offset + length src \<le> k" for k
      using res that a(1) by (auto simp: reserved_def memory_writeData_other)
    ultimately have "written s p v src offset v' ?s"
      unfolding written_def using a res src
      by (auto simp: buffer_read_def v'_def reserved_def)
    with bw show ?thesis by auto
  qed
qed

section \<open>append\<close>

definition appended ::
  "BufferMgr \<Rightarrow> nat \<Rightarrow> Buffer \<Rightarrow> u8 list \<Rightarrow> Buffer \<Rightarrow> BufferMgr \<Rightarrow> bool" where
  "appended s p v src v' s' \<longleftrightarrow>
     bm_inv s' \<and> get_buf s' p = Some v' \<and> buf_pin_count v' = buf_pin_count v \<and>
     (if token v = None
      then buf_size v' = buf_size v + length src \<and>
           buffer_read p (buf_size v') 0 s' = Inr (readData (the (mem v)) (buf_size v) s @ src)
      else buf_size v' = length src \<and> buffer_read p (buf_size v') 0 s' = Inr src)"

lemma append_result:
  assumes res: "reserved s b p v (length src + buf_size v) ev d v1 s1" and a: "mem v1 = Some a" and src: "src \<noteq> []"
    and v': "v' = v1\<lparr>buf_size := buf_size v1 + length src\<rparr>"
  shows "appended s p v src v' (set_buf p v' (writeData (a + buf_size v1) src s1))" (is "appended _ _ _ _ _ ?s")
proof -
  let ?w = "writeData (a + buf_size v1) src s1"
  from res have g: "bm_inv s1" "get_buf s1 p = Some v1" "length src + buf_size v \<le> reservedSize v1"
    by (auto simp: reserved_def)
  have fits: "buf_size v1 + length src \<le> reservedSize v1"
    using res g(3) src by (cases "token v = None") (auto simp: reserved_def)
  have inv: "bm_inv ?s"
  proof (rule set_buf_inv)
    show "bm_inv ?w" using g(1) by simp
    show "get_buf ?w p = Some v1" using g(2) by simp
    show "buf_ok ?w c v'" if "buf_ok ?w c v1" for c
      using that fits by (simp add: buf_ok_def v' seg_addr_def reservedSize_def mult.commute)
  qed
  have mem: "memory ?s x = memory ?w x" for x by simp
  have keep: "readData a (buf_size v1) ?s = readData a (buf_size v1) s1"
    by (simp add: readData_def memory_writeData_other)
  have new: "readData (a + buf_size v1) (length src) ?s = src"
    using readData_writeData [of "a + buf_size v1" src s1] by (simp add: readData_def)
  have read: "buffer_read p (buf_size v') 0 ?s = Inr (readData a (buf_size v1) s1 @ src)"
    using src keep new a by (simp add: buffer_read_def v' readData_split)
  have "readData a (buf_size v1) s1 = readData (the (mem v)) (buf_size v) s" if "token v = None"
    using res that a by (simp add: reserved_def readData_def)
  moreover have "readData a (buf_size v1) s1 = []" "buf_size v1 = 0" if "token v \<noteq> None"
    using res that src by (auto simp: reserved_def readData_def)
  ultimately show ?thesis using inv read res a unfolding appended_def
    by (auto simp: v' reserved_def)
qed

lemma appended_flags:
  "appended (set_buf p (v\<lparr>is_appended := True, is_dirty := True\<rparr>) s) p
     (v\<lparr>is_appended := True, is_dirty := True\<rparr>) src v' s' \<longleftrightarrow> appended s p v src v' s'"
  by (simp add: appended_def readData_def cong: if_cong)

lemma buffer_append_spec:
  assumes inv: "bm_inv s" and b: "b \<in> live s"
    and p: "seg_buffer b = Some p" "get_buf s p = Some v" and pinned: "1 \<le> buf_pin_count v" and src: "src \<noteq> []"
  shows "\<exists>r s'. buffer_append os p src s = Some (r, s') \<and>
    (case r of Inr _ \<Rightarrow> \<exists>v'. appended s p v src v' s'
     | Inl e \<Rightarrow> bm_inv s' \<and> (is_oom e \<or> e = Undefined \<and> slab_segments s' = []))"
proof -
  let ?v = "v\<lparr>is_appended := True, is_dirty := True\<rparr>" and ?n = "length src + buf_size v"
  let ?s0 = "set_buf p ?v s"
  have inv0: "bm_inv ?s0" by (rule set_buf_inv [OF inv p(2)]) (simp add: buf_ok_def)
  have p0: "get_buf ?s0 p = Some ?v" by simp
  from src have n: "0 < ?n" by simp
  from reserve_for_spec [OF inv0 _ p(1) p0 _ n, of os] b pinned obtain r s1 where
    rf: "reserve_for os p ?n ?v ?s0 = Some (r, s1)"
    and r: "case r of Inr _ \<Rightarrow> \<exists>ev d v'. reserved ?s0 b p ?v ?n ev d v' s1
      | Inl e \<Rightarrow> bm_inv s1 \<and> (is_oom e \<or> e = Undefined \<and> slab_segments s1 = [])" by auto
  have rf': "reserve_for os p ?n v ?s0 = Some (r, s1)" using rf by (simp add: reserve_for_def reservedSize_def)
  show ?thesis
  proof (cases r)
    case (Inl e)
    with rf' r p show ?thesis by (simp add: buffer_append_def)
  next
    case (Inr u)
    with r obtain ev d v1 where res: "reserved ?s0 b p ?v ?n ev d v1 s1" by auto
    with n obtain a where a: "mem v1 = Some a" "get_buf s1 p = Some v1" by (auto simp: reserved_def)
    have "appended ?s0 p ?v src (v1\<lparr>buf_size := buf_size v1 + length src\<rparr>)
        (set_buf p (v1\<lparr>buf_size := buf_size v1 + length src\<rparr>) (writeData (a + buf_size v1) src s1))"
      using res by (intro append_result [OF _ a(1) src]) simp_all
    with rf' Inr p a show ?thesis by (auto simp: buffer_append_def appended_flags)
  qed
qed

end
