(* ===== verification/Buffer_Steps.thy ===== *)
theory Buffer_Steps
  imports Buffer_Data
begin

text \<open>
  The pool as a state machine: its remaining operations (pinning, touching, clearing,
  deleting by prefix, fetching), the step relation of all operations a client can call, and
  what holds in every state they can reach.
\<close>

section \<open>Operations that only touch one buffer or flag\<close>

lemma pin_buf_inv: "bm_inv s \<Longrightarrow> bm_inv (pin_buf p s)"
  by (auto simp: pin_buf_def buf_ok_def intro: set_buf_inv split: option.splits)

lemma unpin_buf_inv: "bm_inv s \<Longrightarrow> bm_inv (unpin_buf p s)"
  by (auto simp: unpin_buf_def buf_ok_def intro: set_buf_inv split: option.splits)

lemma bm_inv_upd [simp]:
  "bm_inv (s\<lparr>in_progress := ks\<rparr>) = bm_inv s" "bm_inv (s\<lparr>buffer_epoch := e\<rparr>) = bm_inv s"
  "bm_inv (s\<lparr>max_buffer_id := i\<rparr>) = bm_inv s"
proof -
  have "buf_ok (s\<lparr>in_progress := ks\<rparr>) = buf_ok s" "buf_ok (s\<lparr>buffer_epoch := e\<rparr>) = buf_ok s"
    "buf_ok (s\<lparr>max_buffer_id := i\<rparr>) = buf_ok s" by (intro ext buf_ok_cong; simp)+
  moreover have "get_buf (s\<lparr>max_buffer_id := i\<rparr>) = get_buf s" by (rule ext) (simp add: get_buf_def)
  ultimately show "bm_inv (s\<lparr>in_progress := ks\<rparr>) = bm_inv s" "bm_inv (s\<lparr>buffer_epoch := e\<rparr>) = bm_inv s"
    "bm_inv (s\<lparr>max_buffer_id := i\<rparr>) = bm_inv s"
    by (simp_all add: bm_inv_except_def bm_config_def bm_index_def bm_bufs_def)
qed

lemma begin_end_load_inv [simp]: "bm_inv (begin_load key s) = bm_inv s" "bm_inv (end_load key s) = bm_inv s"
  by (simp_all add: begin_load_def end_load_def)

lemma touch_inv:
  assumes inv: "bm_inv s" and b: "b \<in> live s" "seg_id b = i"
  shows "bm_inv (update_seg i (\<lambda>c. c\<lparr>last_touched := t\<rparr>) s)" (is "bm_inv ?s")
proof -
  note invs = bm_invD [OF inv]
  let ?b = "b\<lparr>last_touched := t\<rparr>"
  have pool: "bm_pool ?s" using b by (intro update_seg_pool [OF invs(2) _ b(1)]) simp_all
  have live: "live ?s = insert ?b (live s - {b})" by (rule update_seg_live_at [OF invs(2) b]) simp
  have ok: "buf_ok ?s = buf_ok s" by (intro ext buf_ok_cong) simp_all
  have index: "bm_index {} ?s" using invs(3) b(1) unfolding bm_index_all live by (auto simp: image_iff)
  from live_buffer [OF inv b(1)] obtain p v where "seg_buffer b = Some p" "get_buf s p = Some v" "buf_ok s b v" .
  then have "bm_bufs {} ?s"
    using invs(4) unfolding bm_bufs_def live ok by (auto simp: buf_ok_def seg_addr_def)
  with pool index invs(1) show ?thesis by (simp add: bm_inv_except_def bm_config_def)
qed

section \<open>Clearing\<close>

lemma deleteBuffer_inv:
  assumes "bm_inv s" and "deleteBuffer key s = (r, s')"
  shows "bm_inv s'"
proof (cases "map_of (chunk_index s) key")
  case None
  with assms show ?thesis by (simp add: deleteBuffer_def)
next
  case (Some i)
  with deleteBuffer_spec [OF assms(1)] assms(2) show ?thesis by fastforce
qed

lemma clear_segs_inv: "bm_inv s \<Longrightarrow> clear_segs is pinned s = (r, s') \<Longrightarrow> bm_inv s'"
  by (induction "is" pinned s rule: clear_segs.induct)
    (auto split: option.splits if_splits prod.splits sum.splits dest: deleteBuffer_inv)

lemma cleared_inv:
  assumes "bm_inv s"
  shows "bm_inv (reinit (clear s))"
proof -
  have live: "live (reinit (clear s)) = {}" by (simp add: live_def all_segs_def clear_def reinit_def)
  have "distinct (map fst (fold (\<lambda>p h. AList.delete p h) ps h))" if "distinct (map fst h)" for ps and h :: "(nat \<times> Buffer) list"
    using that by (induction ps arbitrary: h) (auto simp: distinct_delete)
  moreover have "set (fold (\<lambda>p h. AList.delete p h) ps h) \<subseteq> set h" for ps and h :: "(nat \<times> Buffer) list"
  proof (induction ps arbitrary: h)
    case (Cons p ps)
    have "set (AList.delete p h) \<subseteq> set h" by (auto simp: set_AList_delete)
    with Cons [of "AList.delete p h"] show ?case by auto
  qed simp
  ultimately have "bm_bufs {} (reinit (clear s))"
    using assms unfolding bm_bufs_def live by (fastforce simp: bm_inv_defs clear_def reinit_def)
  then show ?thesis using assms live
    by (auto simp: bm_inv_defs clear_def reinit_def pool_ok_def pool_nodes_def pool_pages_def)
qed

lemma clearSlabs_inv: "bm_inv s \<Longrightarrow> clearSlabs s = (r, s') \<Longrightarrow> bm_inv s'"
  by (auto simp: clearSlabs_def split: prod.splits sum.splits if_splits
      intro: cleared_inv dest: clear_segs_inv)

section \<open>Deleting by prefix\<close>

lemma removeSegment_chunk_index:
  "(removeSegment i s)\<lparr>chunk_index := ci\<rparr> = removeSegment i (s\<lparr>chunk_index := ci\<rparr>)"
  by (simp add: removeSegment_def Let_def split: option.splits)

lemma delete_buf_chunk_index: "(delete_buf p s)\<lparr>chunk_index := ci\<rparr> = delete_buf p (s\<lparr>chunk_index := ci\<rparr>)"
  by (cases s) (simp add: delete_buf_def)

lemma delete_seg_buffer_chunk_index:
  "(delete_seg_buffer i s)\<lparr>chunk_index := ci\<rparr> = delete_seg_buffer i (s\<lparr>chunk_index := ci\<rparr>)"
  by (simp add: delete_seg_buffer_def update_seg_chunk_index delete_buf_chunk_index split: option.splits)

lemma delete_seg_buffer_fields [simp]: "chunk_index (delete_seg_buffer i s) = chunk_index s"
  by (simp add: delete_seg_buffer_def split: option.splits)

lemma delete_prefix_loop_inv: "bm_inv s \<Longrightarrow> delete_prefix_loop pre keys s = (r, s') \<Longrightarrow> bm_inv s'"
proof (induction pre keys s rule: delete_prefix_loop.induct)
  case (2 pre key keys s)
  show ?case
  proof (cases "map_of (chunk_index s) key")
    case None
    with "2.prems" show ?thesis by (auto split: if_splits)
  next
    case (Some i)
    let ?s = "(removeSegment i (delete_seg_buffer i s))\<lparr>chunk_index := AList.delete key (chunk_index s)\<rparr>"
    have "deleteBuffer key s = (Inr (), ?s)"
      using Some by (simp add: deleteBuffer_def removeSegment_chunk_index delete_seg_buffer_chunk_index)
    with "2.prems"(1) have "bm_inv ?s" by (rule deleteBuffer_inv)
    with "2" Some show ?thesis by (auto simp: Let_def split: if_splits option.splits)
  qed
qed simp

lemma deleteBuffersWithPrefix_inv: "bm_inv s \<Longrightarrow> deleteBuffersWithPrefix pre s = (r, s') \<Longrightarrow> bm_inv s'"
  unfolding deleteBuffersWithPrefix_def by (rule delete_prefix_loop_inv)

section \<open>Creating and fetching\<close>

text \<open>The call returned to its caller, normally or with an exception it documents.\<close>

definition returns :: "bm_error + 'a \<Rightarrow> bool" where
  "returns r = (case r of Inl e \<Rightarrow> is_oom e | Inr _ \<Rightarrow> True)"

lemma returns_simps [simp]:
  "returns (Inr x)" "returns (Inl e) = is_oom e"
  by (simp_all add: returns_def)

lemma createBuffer_inv:
  assumes "bm_inv s" and "key \<noteq> []" and "createBuffer os key cps n s = Some (r, s')" and "returns r"
  shows "bm_inv s'"
proof (cases "map_of (chunk_index s) key")
  case None
  with createBuffer_spec [OF assms(1) None assms(2), of os cps n] assms(3,4) show ?thesis
    by (cases r) (auto simp: created_def)
next
  case (Some i)
  with assms(3,4) show ?thesis by (auto simp: createBuffer_def new_unsized_def Let_def split: if_splits)
qed

lemma createZeroCopyBuffer_inv:
  assumes "bm_inv s" and "key \<noteq> []" and "createZeroCopyBuffer key t s = (r, s')"
  shows "bm_inv s'"
proof (cases "map_of (chunk_index s) key")
  case None
  from createZeroCopyBuffer_spec [OF assms(1,2) None, of t] assms(3) show ?thesis by auto
next
  case (Some i)
  with assms(1,3) show ?thesis by (auto simp: createZeroCopyBuffer_def new_unsized_def Let_def split: if_splits)
qed

text \<open>What the pool relies on of its parent: filling a buffer leaves the pool consistent.\<close>

definition fetch_ok :: "parent_mgr \<Rightarrow> bool" where
  "fetch_ok par \<longleftrightarrow>
     (\<forall>key p n s r s'. bm_inv s \<longrightarrow> fetch par key p n s = Some (r, s') \<longrightarrow> bm_inv s')"

lemma get_present_inv:
  assumes inv: "bm_inv s" and par: "fetch_ok par" and key: "map_of (chunk_index s) key = Some i"
    and get: "get_present par key n i s = Some (r, s')"
  shows "bm_inv s'"
proof -
  note invs = bm_invD [OF inv]
  from index_lookup [OF invs(2,3) key] obtain b where b: "b \<in> live s" "seg_id b = i" "lookup_seg s i = Some b" .
  from live_buffer [OF inv b(1)] obtain p v where p: "seg_buffer b = Some p" "get_buf s p = Some v" .
  have pin: "bm_inv (pin_buf p s)" "b \<in> live (pin_buf p s)" 
    using pin_buf_inv [OF inv] b(1) p by (simp, simp add: pin_buf_def)
  let ?s1 = "(update_seg i (\<lambda>c. c\<lparr>last_touched := buffer_epoch s\<rparr>) (pin_buf p s))\<lparr>buffer_epoch := buffer_epoch s + 1\<rparr>"
  have s1: "bm_inv ?s1" using touch_inv [OF pin b(2)] by simp
  then have "bm_inv (begin_load key ?s1)" by simp
  with par have "fetch par key p n (begin_load key ?s1) = Some (q, s2) \<Longrightarrow> bm_inv s2" for q s2
    unfolding fetch_ok_def by blast
  with get s1 b(3) p(1) show ?thesis
    by (auto simp: get_present_def Let_def split: option.splits if_splits sum.splits bind_splits)
qed

lemma getBuffer_inv:
  assumes inv: "bm_inv s" and key: "key \<noteq> []" and par: "fetch_ok par"
    and get: "getBuffer os par key n s = Some (r, s')" and ret: "returns r"
  shows "bm_inv s'"
proof (cases "key \<in> set (in_progress s) \<or> map_of (chunk_index s) key \<noteq> None")
  case True
  with get inv get_present_inv [OF inv par] show ?thesis
    by (auto simp: getBuffer_def split: if_splits)
next
  case False
  let ?s1 = "begin_load key s"
  have s1: "bm_inv ?s1" using inv by simp
  from False get have miss: "get_missing os par key n s = Some (r, s')" by (simp add: getBuffer_def)
  have fetched: "bm_inv s3" if "bm_inv s2" "fetch par key p n s2 = Some (q, s3)" for p q s2 s3
    using par that unfolding fetch_ok_def by blast
  show ?thesis
  proof (cases "zero_copy par key n")
    case (Some t)
    obtain q s2 where "createZeroCopyBuffer key t ?s1 = (q, s2)" by fastforce
    with createZeroCopyBuffer_inv [OF s1 key this] Some miss show ?thesis
      by (auto simp: get_missing_def Let_def split: sum.splits)
  next
    case None
    with miss obtain q s2 where cb: "createBuffer os key (page_size ?s1) n ?s1 = Some (q, s2)"
      by (auto simp: get_missing_def Let_def split: bind_splits)
    show ?thesis
    proof (cases q)
      case (Inl e)
      with None miss cb ret createBuffer_inv [OF s1 key cb] show ?thesis
        by (auto simp: get_missing_def Let_def)
    next
      case (Inr p)
      with createBuffer_inv [OF s1 key cb] have "bm_inv s2" by simp
      with None miss cb Inr fetched show ?thesis
        by (auto simp: get_missing_def Let_def split: bind_splits sum.splits)
    qed
  qed
qed

end
