(* ===== verification/Buffer_Mgr_Props.thy ===== *)
theory Buffer_Mgr_Props
  imports Buffer_Steps
begin

text \<open>
  The properties of the buffer pool: the invariant of every reachable state, what creation,
  writing, appending and deletion do, separation of the chunks in memory, and that eviction
  picks the best run of segments.
\<close>

section \<open>The state machine of the pool\<close>

text \<open>
  One call of a client, whatever it is, on a state in which no other call is running. Writes
  go to a chunk the client has pinned.
\<close>

inductive bm_step :: "os_alloc \<Rightarrow> parent_mgr \<Rightarrow> BufferMgr \<Rightarrow> BufferMgr \<Rightarrow> bool" for os par where
  step_create: "key \<noteq> [] \<Longrightarrow> createBuffer os key cps n s = Some (r, s') \<Longrightarrow> returns r \<Longrightarrow> bm_step os par s s'"
| step_alloc: "alloc os n s = Some (r, s') \<Longrightarrow> returns r \<Longrightarrow> bm_step os par s s'"
| step_zero_copy: "key \<noteq> [] \<Longrightarrow> createZeroCopyBuffer key t s = (r, s') \<Longrightarrow> bm_step os par s s'"
| step_get: "key \<noteq> [] \<Longrightarrow> getBuffer os par key n s = Some (r, s') \<Longrightarrow> returns r \<Longrightarrow> bm_step os par s s'"
| step_delete: "deleteBuffer key s = (r, s') \<Longrightarrow> bm_step os par s s'"
| step_free: "free_buffer p s = (r, s') \<Longrightarrow> bm_step os par s s'"
| step_prefix: "deleteBuffersWithPrefix pre s = (r, s') \<Longrightarrow> bm_step os par s s'"
| step_clear: "clearSlabs s = (r, s') \<Longrightarrow> bm_step os par s s'"
| step_pin: "bm_step os par s (pin_buf p s)"
| step_unpin: "bm_step os par s (unpin_buf p s)"
| step_write:
    "b \<in> live s \<Longrightarrow> seg_buffer b = Some p \<Longrightarrow> get_buf s p = Some v \<Longrightarrow> 1 \<le> buf_pin_count v \<Longrightarrow>
     src \<noteq> [] \<Longrightarrow> buffer_write os p src offset s = Some (r, s') \<Longrightarrow> returns r \<Longrightarrow> bm_step os par s s'"
| step_append:
    "b \<in> live s \<Longrightarrow> seg_buffer b = Some p \<Longrightarrow> get_buf s p = Some v \<Longrightarrow> 1 \<le> buf_pin_count v \<Longrightarrow>
     src \<noteq> [] \<Longrightarrow> buffer_append os p src s = Some (r, s') \<Longrightarrow> returns r \<Longrightarrow> bm_step os par s s'"

inductive bm_reachable :: "os_alloc \<Rightarrow> parent_mgr \<Rightarrow> BufferMgr \<Rightarrow> bool" for os par where
  reach_new: "new_BufferMgr pool mins maxs ps = Some s \<Longrightarrow> bm_reachable os par s"
| reach_step: "bm_reachable os par s \<Longrightarrow> bm_step os par s s' \<Longrightarrow> bm_reachable os par s'"

lemma new_BufferMgr_inv:
  assumes "new_BufferMgr pool mins maxs ps = Some s"
  shows "bm_inv s"
proof -
  from assms have c: "0 < ps" "0 < mins" "mins mod ps = 0"
    and s: "page_size s = ps" "min_num_pages_per_slab s = mins div ps" "slabs s = []" "slab_segments s = []"
      "chunk_index s = []" "heap s = []" "unsized_segs s = []" "num_pages_allocated s = 0"
    by (auto simp: new_BufferMgr_def split: if_splits)
  have "0 < mins div ps" using c by (simp add: div_greater_zero_iff dvd_imp_le mod_eq_0_iff_dvd)
  with c s show ?thesis
    by (auto simp: bm_inv_defs pool_ok_def pool_nodes_def pool_pages_def live_def all_segs_def)
qed

lemma bm_step_inv:
  assumes "bm_step os par s s'" and "bm_inv s" and "fetch_ok par"
  shows "bm_inv s'"
  using assms
proof cases
  case (step_write b p v src offset r)
  then show ?thesis
    using buffer_write_spec [OF assms(2) step_write(1-5), of os offset] by (cases r) (auto simp: written_def)
next
  case (step_append b p v src r)
  then show ?thesis
    using buffer_append_spec [OF assms(2) step_append(1-5), of os] by (cases r) (auto simp: appended_def)
next
  case (step_alloc n r)
  then have "createBuffer os [-1, int (max_buffer_id s)] (page_size s) n (s\<lparr>max_buffer_id := max_buffer_id s + 1\<rparr>) = Some (r, s')"
    by (simp add: alloc_def)
  from createBuffer_inv [OF _ _ this step_alloc(2)] assms(2) show ?thesis by simp
next
  case (step_free p r)
  then show ?thesis using assms(2)
    by (auto simp: free_buffer_def split: option.splits dest: deleteBuffer_inv)
qed (auto intro: assms(2) createBuffer_inv createZeroCopyBuffer_inv getBuffer_inv deleteBuffer_inv
    deleteBuffersWithPrefix_inv clearSlabs_inv pin_buf_inv unpin_buf_inv)

section \<open>Separation in memory\<close>

text \<open>The bytes of a slab and of a segment; what the allocator guarantees of the slabs.\<close>

definition slab_bytes :: "BufferMgr \<Rightarrow> nat \<Rightarrow> nat set" where
  "slab_bytes s x =
     {slabs s ! x ..< slabs s ! x + total_pages (slab_segments s ! x) * page_size s}"

definition slabs_disjoint :: "BufferMgr \<Rightarrow> bool" where
  "slabs_disjoint s \<longleftrightarrow>
     (\<forall>x < length (slab_segments s). \<forall>y < length (slab_segments s).
        x \<noteq> y \<longrightarrow> slab_bytes s x \<inter> slab_bytes s y = {})"

definition seg_bytes :: "BufferMgr \<Rightarrow> BufferSeg \<Rightarrow> nat set" where
  "seg_bytes s b = {seg_addr s b ..< seg_addr s b + num_pages b * page_size s}"

lemma seg_bytes_in_slab:
  assumes "bm_pool s" and x: "x < length (slab_segments s)" and b: "b \<in> set (slab_segments s ! x)" "slab_num b = int x"
  shows "seg_bytes s b \<subseteq> slab_bytes s x"
proof -
  have "layout 0 (slab_segments s ! x)" using assms(1) x by (simp add: bm_pool_def pool_ok_def)
  from layout_bounds [OF this b(1)] have "0 \<le> start_page b"
    "nat (start_page b) + num_pages b \<le> total_pages (slab_segments s ! x)" by auto
  then have "(nat (start_page b) + num_pages b) * page_size s \<le> total_pages (slab_segments s ! x) * page_size s"
    by (intro mult_right_mono) auto
  then show ?thesis using b(2) by (auto simp: seg_bytes_def slab_bytes_def seg_addr_def add_mult_distrib)
qed

lemma pages_disjoint_bytes:
  assumes "seg_pages b \<inter> seg_pages c = {}" and "slab_num b = slab_num c" and "0 \<le> start_page b" "0 \<le> start_page c"
  shows "seg_bytes s b \<inter> seg_bytes s c = {}"
proof (cases "num_pages b = 0 \<or> num_pages c = 0")
  case True
  then show ?thesis by (auto simp: seg_bytes_def)
next
  case False
  have "start_page b + int (num_pages b) \<le> start_page c \<or> start_page c + int (num_pages c) \<le> start_page b"
  proof (rule ccontr)
    assume "\<not> ?thesis"
    with False have "max (start_page b) (start_page c) \<in> seg_pages b \<inter> seg_pages c" by (auto simp: seg_pages_def)
    with assms(1) show False by blast
  qed
  then have "nat (start_page b) + num_pages b \<le> nat (start_page c) \<or> nat (start_page c) + num_pages c \<le> nat (start_page b)"
    using assms(3,4) by auto
  then have "(nat (start_page b) + num_pages b) * page_size s \<le> nat (start_page c) * page_size s \<or>
    (nat (start_page c) + num_pages c) * page_size s \<le> nat (start_page b) * page_size s"
    by (meson mult_le_mono1)
  then show ?thesis using assms(2) by (auto simp: seg_bytes_def seg_addr_def add_mult_distrib)
qed

lemma layout_distinct_disjoint:
  assumes "layout p bs" and "b \<in> set bs" "c \<in> set bs" "b \<noteq> c"
  shows "seg_pages b \<inter> seg_pages c = {}"
proof -
  from assms(2) obtain xs ys where bs: "bs = xs @ b # ys" by (auto dest: split_list)
  show ?thesis
  proof (cases "c \<in> set ys")
    case True
    then obtain us vs where "ys = us @ c # vs" by (auto dest: split_list)
    with bs assms(1) show ?thesis using layout_disjoint [of p xs b us c vs] by simp
  next
    case False
    with bs assms(3,4) have "c \<in> set xs" by auto
    then obtain us vs where "xs = us @ c # vs" by (auto dest: split_list)
    with bs assms(1) show ?thesis using layout_disjoint [of p us c vs b ys] by auto
  qed
qed

lemma live_bytes_disjoint:
  assumes inv: "bm_inv s" and slabs: "slabs_disjoint s"
    and b: "b \<in> live s" "0 \<le> slab_num b" and c: "c \<in> live s" "0 \<le> slab_num c" and ne: "b \<noteq> c"
  shows "seg_bytes s b \<inter> seg_bytes s c = {}"
proof -
  note pool = bm_invD(2) [OF inv]
  from sized_slab [OF pool b] obtain x where x: "x < length (slab_segments s)" "b \<in> set (slab_segments s ! x)"
    "slab_num b = int x" .
  from sized_slab [OF pool c] obtain y where y: "y < length (slab_segments s)" "c \<in> set (slab_segments s ! y)"
    "slab_num c = int y" .
  show ?thesis
  proof (cases "x = y")
    case True
    have "layout 0 (slab_segments s ! x)" using pool x(1) by (simp add: bm_pool_def pool_ok_def)
    from layout_distinct_disjoint [OF this x(2) _ ne] y(2) True have "seg_pages b \<inter> seg_pages c = {}" by simp
    then show ?thesis using True x(3) y(3) b c sized_iff_start_page [OF pool] by (intro pages_disjoint_bytes) auto
  next
    case False
    with slabs x(1) y(1) have "slab_bytes s x \<inter> slab_bytes s y = {}" by (simp add: slabs_disjoint_def)
    with seg_bytes_in_slab [OF pool x] seg_bytes_in_slab [OF pool y] show ?thesis by blast
  qed
qed

section \<open>Choosing what to evict\<close>

text \<open>
  A run of neighbouring segments that could be evicted for \<open>req\<close> pages, and what evicting it
  costs: the latest touch of any chunk in it.
\<close>

definition evictable_run :: "BufferMgr \<Rightarrow> nat \<Rightarrow> nat \<Rightarrow> BufferSeg list \<Rightarrow> bool" where
  "evictable_run s req x r \<longleftrightarrow>
     x < length (slab_segments s) \<and> (\<exists>pre post. slab_segments s ! x = pre @ r @ post) \<and> r \<noteq> [] \<and>
     (\<forall>b \<in> set r. mem_status b = USED \<longrightarrow> seg_pins s b \<le> 0) \<and> req \<le> total_pages r"

definition run_cost :: "BufferSeg list \<Rightarrow> nat" where
  "run_cost r = foldr (\<lambda>b m. max (unat (last_touched b)) m) (used r) 0"

lemma run_cost_simps [simp]:
  "run_cost [] = 0"
  "run_cost (b # r) = (if mem_status b = USED then max (unat (last_touched b)) (run_cost r) else run_cost r)"
  by (auto simp: run_cost_def)

lemma run_cost_append: "run_cost (r @ r') = max (run_cost r) (run_cost r')"
  by (induction r) auto

lemma evict_scan_run:
  assumes "\<forall>b \<in> set r. mem_status b = USED \<longrightarrow> pins b \<le> 0" and "req \<le> pc + total_pages r" and "r \<noteq> []"
  shows "\<exists>sc'. evict_scan pins req pc sc (r @ post) = Solution sc' \<and> sc' \<le> max sc (run_cost r)"
  using assms
proof (induction r arbitrary: pc sc)
  case (Cons b r)
  let ?sc = "if mem_status b = USED then max sc (unat (last_touched b)) else sc"
  show ?case
  proof (cases "req \<le> pc + num_pages b")
    case True
    with Cons.prems(1) show ?thesis by (auto simp: Let_def)
  next
    case False
    with Cons.prems(2) have "r \<noteq> []" "req \<le> (pc + num_pages b) + total_pages r" by auto
    from Cons.IH [of "pc + num_pages b" ?sc] Cons.prems(1) this obtain sc' where
      "evict_scan pins req (pc + num_pages b) ?sc (r @ post) = Solution sc'" "sc' \<le> max ?sc (run_cost r)" by auto
    with False Cons.prems(1) show ?thesis by (auto simp: Let_def)
  qed
qed simp

lemma evict_scan_found:
  "evict_scan pins req pc sc bs = Solution sc' \<Longrightarrow>
     \<exists>r post. bs = r @ post \<and> r \<noteq> [] \<and> (\<forall>b \<in> set r. mem_status b = USED \<longrightarrow> pins b \<le> 0) \<and>
       req \<le> pc + total_pages r \<and> sc' = max sc (run_cost r)"
proof (induction bs arbitrary: pc sc)
  case (Cons b bs)
  let ?sc = "if mem_status b = USED then max sc (unat (last_touched b)) else sc"
  have free: "mem_status b = USED \<longrightarrow> pins b \<le> 0" using Cons.prems by (auto split: if_splits)
  show ?case
  proof (cases "req \<le> pc + num_pages b")
    case True
    with Cons.prems free have "sc' = ?sc" by (auto simp: Let_def split: if_splits)
    with True free show ?thesis by (intro exI [of _ "[b]"] exI [of _ bs]) auto
  next
    case False
    with Cons.prems have "evict_scan pins req (pc + num_pages b) ?sc bs = Solution sc'"
      by (auto simp: Let_def split: if_splits)
    from Cons.IH [OF this] obtain r post where "bs = r @ post" "r \<noteq> []" "\<forall>b \<in> set r. mem_status b = USED \<longrightarrow> pins b \<le> 0"
      "req \<le> pc + num_pages b + total_pages r" "sc' = max ?sc (run_cost r)" by blast
    with free show ?thesis by (intro exI [of _ "b # r"] exI [of _ post]) auto
  qed
qed simp

lemma evictable_run_window:
  assumes "evictable_run s req x r"
  shows "\<exists>i sc. window (seg_pins s) req (slab_segments s ! x) i sc \<and> sc \<le> run_cost r"
proof -
  from assms obtain pre post where split: "slab_segments s ! x = pre @ r @ post" and r: "r \<noteq> []"
    "\<forall>b \<in> set r. mem_status b = USED \<longrightarrow> seg_pins s b \<le> 0" "req \<le> 0 + total_pages r"
    by (auto simp: evictable_run_def)
  from evict_scan_run [OF r(2,3,1), of 0 post] obtain sc where
    "evict_scan (seg_pins s) req 0 0 (r @ post) = Solution sc" "sc \<le> run_cost r" by auto
  moreover from r(1) obtain b r' where "r = b # r'" by (cases r) auto
  ultimately show ?thesis using split unfolding window_def by (intro exI conjI) auto
qed

lemma window_evictable_run:
  assumes "window (seg_pins s) req (slab_segments s ! x) i sc" and "x < length (slab_segments s)"
  shows "\<exists>r. evictable_run s req x r \<and> seg_id (hd r) = i \<and> run_cost r = sc"
proof -
  from assms(1) obtain pre b post where split: "slab_segments s ! x = pre @ b # post" "seg_id b = i"
    "evict_scan (seg_pins s) req 0 0 (b # post) = Solution sc" by (auto simp: window_def simp del: evict_scan.simps)
  from evict_scan_found [OF split(3)] obtain r post' where r: "b # post = r @ post'" "r \<noteq> []"
    "\<forall>b \<in> set r. mem_status b = USED \<longrightarrow> seg_pins s b \<le> 0" "req \<le> total_pages r" "sc = run_cost r" by auto
  from r(1,2) have "hd r = b" by (cases r) auto
  then show ?thesis using r split assms(2) unfolding evictable_run_def by (intro exI [of _ r]) auto
qed

lemma best_eviction_cases:
  shows "best_eviction req s = None \<Longrightarrow> \<not> evictable_run s req x r"
    and "best_eviction req s = Some (x, i) \<Longrightarrow>
      \<exists>r. evictable_run s req x r \<and> seg_id (hd r) = i \<and> (\<forall>y r'. evictable_run s req y r' \<longrightarrow> run_cost r \<le> run_cost r')"
proof -
  let ?scan = "evict_scan_pool (seg_pins s) req 0 (slab_segments s) (2 ^ 64 - 1, None)"
  note min = evict_scan_pool_min [of "seg_pins s" req 0 "slab_segments s" "(2 ^ 64 - 1, None)"]
  have le: "fst ?scan \<le> run_cost r' \<and> fst ?scan < 2 ^ 64 - 1" if run: "evictable_run s req y r'" for y r'
  proof -
    from evictable_run_window [OF run] obtain j sc where w: "window (seg_pins s) req (slab_segments s ! y) j sc"
      "sc \<le> run_cost r'" by blast
    moreover have "slab_segments s ! y \<in> set (slab_segments s)" using run by (simp add: evictable_run_def)
    ultimately have "fst ?scan \<le> sc" using min by blast
    with w window_score [OF w(1)] show ?thesis by auto
  qed
  {
    assume "best_eviction req s = None"
    then have "snd ?scan = None" by (simp add: best_eviction_def)
    with min have "?scan = (2 ^ 64 - 1, None)" by blast
    then show "\<not> evictable_run s req x r" using le [of x r] by auto
  }
  {
    assume "best_eviction req s = Some (x, i)"
    then have scan: "?scan = (fst ?scan, Some (x, i))" by (metis best_eviction_def prod.collapse)
    from evict_scan_pool_best [OF scan] have x: "x < length (slab_segments s)"
      "window (seg_pins s) req (slab_segments s ! x) i (fst ?scan)" by auto
    from window_evictable_run [OF x(2,1)] le
    show "\<exists>r. evictable_run s req x r \<and> seg_id (hd r) = i \<and> (\<forall>y r'. evictable_run s req y r' \<longrightarrow> run_cost r \<le> run_cost r')"
      by fastforce
  }
qed
section \<open>A pool to evaluate on\<close>

text \<open>
  Eight pages of one byte in one slab: chunk \<open>[1]\<close> (pinned) on pages 0 and 1, chunk \<open>[2]\<close> on
  pages 2 to 4, pages 5 to 7 free, and a chunk \<open>[3]\<close> (pinned) with no memory yet. The
  allocator grants up to 100 bytes a call.
\<close>

definition ex_seg :: "nat \<Rightarrow> int \<Rightarrow> nat \<Rightarrow> nat \<Rightarrow> ChunkKey \<Rightarrow> int \<Rightarrow> u32 \<Rightarrow> BufferSeg" where
  "ex_seg i sp np p key sn lt =
     (mk_seg i sp np USED lt)\<lparr>seg_buffer := Some p, chunk_key := key, slab_num := sn\<rparr>"

definition ex_buf :: "nat option \<Rightarrow> nat \<Rightarrow> nat \<Rightarrow> int \<Rightarrow> Buffer" where
  "ex_buf m i np pc =
     (new_Buffer i 1)\<lparr>mem := m, buf_num_pages := np, buf_size := np, buf_pin_count := pc,
                      page_dirty_flags := replicate np False\<rparr>"

definition ex_pool :: BufferMgr where
  "ex_pool =
     \<lparr>max_buffer_pool_size = 16, min_slab_size = 2, max_slab_size = 8, page_size = 1,
      slabs = [100],
      slab_segments = [[ex_seg 4 0 2 10 [1] 0 2, ex_seg 5 2 3 11 [2] 0 3, mk_seg 6 5 3 FREE 0]],
      in_progress = [], chunk_index = [([1], 4), ([2], 5), ([3], 7)],
      max_buffer_pool_num_pages = 16, num_pages_allocated = 8, min_num_pages_per_slab = 2,
      max_num_pages_per_slab = 8, current_max_slab_page_size = 8, allocations_capped = False,
      max_buffer_id = 0, buffer_epoch = 4, unsized_segs = [ex_seg 7 (-1) 0 12 [3] (-1) 0],
      heap = [(10, ex_buf (Some 100) 4 2 2), (11, ex_buf (Some 102) 5 3 0), (12, ex_buf None 7 0 2)],
      memory = (\<lambda>a. of_nat a), next_buf = 13, next_seg = 8, alloc_calls = 2\<rparr>"

definition ex_os :: os_alloc where
  "ex_os n bytes = (if bytes \<le> 100 then Some (n * 100 + 100) else None)"

definition ex_parent :: parent_mgr where
  "ex_parent = \<lparr>zero_copy = (\<lambda>_ _. None), fetch = (\<lambda>_ _ _ s. Some (Inr (), s))\<rparr>"

lemma ex_seg_simps [simp]:
  "seg_id (ex_seg i sp np p key sn lt) = i" "start_page (ex_seg i sp np p key sn lt) = sp"
  "num_pages (ex_seg i sp np p key sn lt) = np" "mem_status (ex_seg i sp np p key sn lt) = USED"
  "seg_buffer (ex_seg i sp np p key sn lt) = Some p" "chunk_key (ex_seg i sp np p key sn lt) = key"
  "slab_num (ex_seg i sp np p key sn lt) = sn" "last_touched (ex_seg i sp np p key sn lt) = lt"
  by (simp_all add: ex_seg_def)

lemma ex_buf_simps [simp]:
  "mem (ex_buf m i np pc) = m" "seg_it (ex_buf m i np pc) = i" "buf_num_pages (ex_buf m i np pc) = np"
  "buf_size (ex_buf m i np pc) = np" "buf_pin_count (ex_buf m i np pc) = pc"
  "buf_page_size (ex_buf m i np pc) = 1" "token (ex_buf m i np pc) = None"
  "page_dirty_flags (ex_buf m i np pc) = replicate np False"
  by (simp_all add: ex_buf_def)

lemma ex_live:
  "live ex_pool = {ex_seg 4 0 2 10 [1] 0 2, ex_seg 5 2 3 11 [2] 0 3, ex_seg 7 (-1) 0 12 [3] (-1) 0}"
  by (auto simp: live_def all_segs_def set_used ex_pool_def)

lemma ex_get_buf:
  "get_buf ex_pool 10 = Some (ex_buf (Some 100) 4 2 2)" "get_buf ex_pool 11 = Some (ex_buf (Some 102) 5 3 0)"
  "get_buf ex_pool 12 = Some (ex_buf None 7 0 2)"
  by (simp_all add: get_buf_def ex_pool_def)

lemma ex_pool_inv: "bm_inv ex_pool"
proof -
  have "bm_pool ex_pool"
    by (auto simp: bm_pool_def pool_ok_def pool_nodes_def pool_pages_def nodes_def ids_def ex_pool_def)
  moreover have "bm_index {} ex_pool"
    unfolding bm_index_all ex_live by (auto simp: ex_pool_def)
  moreover have "bm_bufs {} ex_pool"
    unfolding bm_bufs_def ex_live
    by (simp add: ex_get_buf buf_ok_def seg_addr_def) (simp add: ex_pool_def)
  ultimately show ?thesis by (simp add: bm_inv_except_def bm_config_def ex_pool_def)
qed

lemma ex_parent_ok: "fetch_ok ex_parent"
  by (simp add: fetch_ok_def ex_parent_def)

section \<open>Properties\<close>

lemma reachable_bm_inv: "bm_reachable os par s \<Longrightarrow> fetch_ok par \<Longrightarrow> bm_inv s"
  by (induction rule: bm_reachable.induct) (auto intro: new_BufferMgr_inv bm_step_inv)







text \<open>
  C27. Appending to a pinned chunk whose memory is its own adds the bytes to its end: reading
  the whole buffer returns the old contents followed by the new bytes. Appending to a
  zero-copy chunk instead drops what it held: afterwards it contains the new bytes only.
\<close>

theorem buffer_append_read:
  assumes "bm_inv s" and "b \<in> live s" and "seg_buffer b = Some p" and "get_buf s p = Some v"
    and "1 \<le> buf_pin_count v" and "src \<noteq> []"
  shows "\<exists>r s'. buffer_append os p src s = Some (r, s') \<and>
    (case r of Inr _ \<Rightarrow> \<exists>v'. appended s p v src v' s'
     | Inl e \<Rightarrow> bm_inv s' \<and> (is_oom e \<or> e = Undefined \<and> slab_segments s' = []))"
  using assms by (rule buffer_append_spec)

theorem buffer_append_read_witness:
  "ex_seg 4 0 2 10 [1] 0 2 \<in> live ex_pool \<and>
   (\<exists>r s'. buffer_append ex_os 10 [7, 8] ex_pool = Some (r, s') \<and>
    (case r of Inr _ \<Rightarrow> \<exists>v'. appended ex_pool 10 (ex_buf (Some 100) 4 2 2) [7, 8] v' s'
     | Inl e \<Rightarrow> bm_inv s' \<and> (is_oom e \<or> e = Undefined \<and> slab_segments s' = [])))"
proof -
  have b: "ex_seg 4 0 2 10 [1] 0 2 \<in> live ex_pool" by (simp add: ex_live)
  have "seg_buffer (ex_seg 4 0 2 10 [1] 0 2) = Some 10" by simp
  from buffer_append_read [OF ex_pool_inv b this ex_get_buf(1), of "[7, 8]" ex_os] b
  show ?thesis by simp
qed



lemma write_in_place:
  assumes inv: "bm_inv s" and b: "b \<in> live s" "seg_buffer b = Some p" "get_buf s p = Some v"
    and src: "src \<noteq> []" "length src + offset \<le> reservedSize v"
  shows "buffer_write os p src offset s =
      Some (Inr (), set_buf p (mark_written offset (length src) v) (writeData (seg_addr s b + offset) src s))"
    and "{seg_addr s b + offset ..< seg_addr s b + offset + length src} \<subseteq> seg_bytes s b" and "0 \<le> slab_num b"
proof -
  have np: "0 < buf_num_pages v" using src by (auto simp: reservedSize_def intro: Nat.gr0I)
  note r = reserved_pages [OF inv b np]
  show "0 \<le> slab_num b" by (fact r(1))
  show "buffer_write os p src offset s =
      Some (Inr (), set_buf p (mark_written offset (length src) v) (writeData (seg_addr s b + offset) src s))"
    using b src r by (simp add: buffer_write_def reserve_for_def)
  have "reservedSize v \<le> num_pages b * page_size s"
    using live_buf_ok [OF inv b] by (simp add: buf_ok_def reservedSize_def mult.commute)
  with src(2) show "{seg_addr s b + offset ..< seg_addr s b + offset + length src} \<subseteq> seg_bytes s b"
    by (auto simp: seg_bytes_def)
qed

text \<open>
  C28. A write that fits in what its buffer has reserved changes no byte of any other chunk.
\<close>

theorem write_isolated:
  assumes "bm_inv s" and "slabs_disjoint s"
    and "b \<in> live s" "seg_buffer b = Some p" "get_buf s p = Some v"
    and "src \<noteq> []" "length src + offset \<le> reservedSize v"
    and "c \<in> live s" "0 \<le> slab_num c" "c \<noteq> b" and "a \<in> seg_bytes s c"
  shows "\<exists>s'. buffer_write os p src offset s = Some (Inr (), s') \<and> memory s' a = memory s a"
proof -
  note w = write_in_place [OF assms(1,3-7)]
  have "seg_bytes s c \<inter> seg_bytes s b = {}"
    using assms w(3) by (intro live_bytes_disjoint) auto
  with assms(11) w(2) have "a \<notin> {seg_addr s b + offset ..< seg_addr s b + offset + length src}" by blast
  then have "memory (writeData (seg_addr s b + offset) src s) a = memory s a"
    by (intro memory_writeData_other) auto
  with w(1) show ?thesis by simp
qed

theorem write_isolated_witness:
  "102 \<in> seg_bytes ex_pool (ex_seg 5 2 3 11 [2] 0 3) \<and>
   (\<exists>s'. buffer_write ex_os 10 [7] 1 ex_pool = Some (Inr (), s') \<and> memory s' 102 = memory ex_pool 102)"
proof -
  have d: "slabs_disjoint ex_pool" by (simp add: slabs_disjoint_def ex_pool_def)
  have b: "ex_seg 4 0 2 10 [1] 0 2 \<in> live ex_pool" "ex_seg 5 2 3 11 [2] 0 3 \<in> live ex_pool" by (simp_all add: ex_live)
  have ne: "ex_seg 5 2 3 11 [2] 0 3 \<noteq> ex_seg 4 0 2 10 [1] 0 2" by (simp add: ex_seg_def mk_seg_def)
  have a: "102 \<in> seg_bytes ex_pool (ex_seg 5 2 3 11 [2] 0 3)"
    by (simp add: seg_bytes_def seg_addr_def) (simp add: ex_pool_def)
  from write_isolated [OF ex_pool_inv d b(1) _ ex_get_buf(1) _ _ b(2) _ ne a, of "[7]" 1 ex_os] a
  show ?thesis by (simp add: reservedSize_def)
qed

text \<open>
  C16. The eviction search is exact. When it finds no run to evict there is none: every
  stretch of segments with enough pages contains a pinned chunk. When it returns one, that
  run has enough pages, no pinned chunk, and no other such run was last touched earlier.
\<close>

theorem best_eviction_optimal:
  "case best_eviction req s of
     None \<Rightarrow> \<nexists>x r. evictable_run s req x r
   | Some (x, i) \<Rightarrow> \<exists>r. evictable_run s req x r \<and> seg_id (hd r) = i \<and>
       \<not> (\<exists>y r'. evictable_run s req y r' \<and> run_cost r' < run_cost r)"
proof (cases "best_eviction req s")
  case None
  then show ?thesis using best_eviction_cases(1) by auto
next
  case (Some ki)
  obtain k i where "ki = (k, i)" by fastforce
  with Some best_eviction_cases(2) [of req s k i] show ?thesis by (fastforce simp: not_less)
qed

lemma total_pages_used:
  "sum_list (map (\<lambda>b. if mem_status b \<noteq> FREE then num_pages b * ps else 0) bs) \<le> total_pages bs * ps"
  by (induction bs) (auto simp: add_mult_distrib)

lemma in_use_le_pool:
  "sum_list (map (\<lambda>b. if mem_status b \<noteq> FREE then num_pages b * ps else 0) (concat bss)) \<le> pool_pages bss * ps"
proof (induction bss)
  case (Cons bs bss)
  with total_pages_used [of ps bs] show ?case by (simp add: pool_pages_def add_mult_distrib del: not_FREE)
qed (simp add: pool_pages_def)

text \<open>
  In every reachable state the bytes in use are at most the bytes of the slabs, and these
  at most the size the pool was configured with.
\<close>

theorem pool_accounting:
  assumes "bm_reachable os par s" and "fetch_ok par"
  shows "getInUseSize s \<le> getAllocated s \<and> getAllocated s \<le> getMaxSize s"
proof -
  have "bm_inv s" using assms by (rule reachable_bm_inv)
  then have "pool_pages (slab_segments s) = num_pages_allocated s"
    and "num_pages_allocated s \<le> max_buffer_pool_num_pages s" by (simp_all add: bm_inv_defs)
  then show ?thesis
    using in_use_le_pool [of "page_size s" "slab_segments s"]
    by (simp add: getInUseSize_def getAllocated_def getMaxSize_def mult.commute del: not_FREE)
qed

theorem pool_accounting_witness:
  "\<exists>s. new_BufferMgr 16 2 8 1 = Some s \<and> bm_reachable ex_os ex_parent s \<and>
     getInUseSize s \<le> getAllocated s \<and> getAllocated s \<le> getMaxSize s"
proof -
  obtain s where s: "new_BufferMgr 16 2 8 1 = Some s" by (simp add: new_BufferMgr_def)
  then have "bm_reachable ex_os ex_parent s" by (rule reach_new)
  with s pool_accounting [OF this ex_parent_ok] show ?thesis by blast
qed

text \<open>
  Deleting a chunk that is in the pool removes exactly its entry from the index and leaves
  a consistent pool with one chunk less; deleting one that is not fails the check.
\<close>

theorem deleteBuffer_correct:
  assumes "bm_inv s"
  shows "if isBufferOnDevice key s
    then \<exists>s'. deleteBuffer key s = (Inr (), s') \<and> bm_inv s' \<and>
           map_of (chunk_index s') = (map_of (chunk_index s))(key := None) \<and>
           getNumChunks s = Suc (getNumChunks s') \<and> memory s' = memory s
    else deleteBuffer key s = (Inl CheckFailed, s)"
proof (cases "map_of (chunk_index s) key")
  case None
  then show ?thesis by (simp add: isBufferOnDevice_def deleteBuffer_def)
next
  case (Some i)
  from deleteBuffer_spec [OF assms Some] obtain s' where d: "deleteBuffer key s = (Inr (), s')" "bm_inv s'"
    "chunk_index s' = AList.delete key (chunk_index s)" "memory s' = memory s" by blast
  have "distinct (map fst (chunk_index s))" using assms by (simp add: bm_inv_defs)
  with Some have "getNumChunks s = Suc (getNumChunks s')"
    by (simp add: getNumChunks_def d(3) length_AList_delete)
  with d Some show ?thesis by (simp add: isBufferOnDevice_def delete_conv')
qed

theorem deleteBuffer_correct_witness:
  "bm_inv ex_pool \<and> isBufferOnDevice [2] ex_pool \<and>
   (\<exists>s'. deleteBuffer [2] ex_pool = (Inr (), s') \<and> bm_inv s' \<and> \<not> isBufferOnDevice [2] s')"
proof -
  have on: "isBufferOnDevice [2] ex_pool" by (simp add: isBufferOnDevice_def ex_pool_def)
  with deleteBuffer_correct [OF ex_pool_inv, of "[2]"] ex_pool_inv show ?thesis
    by (auto simp: isBufferOnDevice_def)
qed




text \<open>
  C30. When a new pool is smaller than the largest slab it may make, a request that fits in
  such a slab but not in the pool is not refused: the search for a chunk to evict reads the
  first slab although there is none.
\<close>

theorem no_slab_to_evict_from:
  assumes "new_BufferMgr pool mins maxs ps = Some s"
    and "pool div ps < pages_for s num_bytes" and "pages_for s num_bytes \<le> maxs div ps"
  shows "\<exists>s'. findFreeBuffer os num_bytes s = Some (Inl Undefined, s')"
proof -
  let ?req = "pages_for s num_bytes"
  from assms(1) have s: "slab_segments s = []" "num_pages_allocated s = 0" "\<not> allocations_capped s"
    "max_buffer_pool_num_pages s = pool div ps" "max_num_pages_per_slab s = maxs div ps"
    "current_max_slab_page_size s = maxs div ps" by (auto simp: new_BufferMgr_def split: if_splits)
  have "\<exists>s1. add_slab_loop os ?req s = Some (False, s1) \<and> slab_segments s1 = [] \<and> \<not> allocations_capped s1"
    using s assms(2,3) by (subst add_slab_loop.simps) (auto simp: clamp_slab_def Let_def)
  then obtain s1 where "add_slab_loop os ?req s = Some (False, s1)" "slab_segments s1 = []"
    "\<not> allocations_capped s1" by blast
  with s assms(3) show ?thesis by (simp add: findFreeBuffer_def force_eviction_def Let_def)
qed

theorem no_slab_to_evict_from_witness:
  "\<exists>s s'. new_BufferMgr 4 2 8 1 = Some s \<and> findFreeBuffer ex_os 5 s = Some (Inl Undefined, s')"
proof -
  obtain s where s: "new_BufferMgr 4 2 8 1 = Some s" by (simp add: new_BufferMgr_def)
  then have "pages_for s 5 = 5" by (auto simp: new_BufferMgr_def pages_for_def)
  with no_slab_to_evict_from [OF s, of 5 ex_os] s show ?thesis by simp
qed

lemma clear_segs_free:
  "\<forall>i \<in> set is. \<exists>b. lookup_seg s i = Some b \<and> mem_status b = FREE \<Longrightarrow> clear_segs is pinned s = (Inr pinned, s)"
  by (induction "is") auto

lemma map_of_fold_delete:
  "map_of (fold (\<lambda>p h. AList.delete p h) ps h) p = (if p \<in> set ps then None else map_of h p)"
  by (induction ps arbitrary: h) (auto simp: delete_conv')

lemma set_map_filterI: "x \<in> set xs \<Longrightarrow> f x = Some y \<Longrightarrow> y \<in> set (List.map_filter f xs)"
  by (force simp: List.map_filter_def)

text \<open>
  C31. Clearing looks for pinned chunks in the slabs only: when the slabs hold no chunk, a
  pinned chunk outside them (a zero-copy one, say) loses its buffer object all the same.
\<close>

theorem clearSlabs_drops_pinned:
  assumes "bm_inv s" and "used (concat (slab_segments s)) = []"
    and "b \<in> live s" "seg_buffer b = Some p" and "1 \<le> seg_pins s b"
  shows "get_buf s p \<noteq> None \<and> (\<exists>s'. clearSlabs s = (Inr (), s') \<and> get_buf s' p = None)"
proof -
  note invs = bm_invD [OF assms(1)]
  have "\<exists>b. lookup_seg s i = Some b \<and> mem_status b = FREE" if "i \<in> set (map seg_id (concat (slab_segments s)))" for i
  proof -
    from that obtain c where c: "c \<in> set (concat (slab_segments s))" "seg_id c = i" by auto
    then have "lookup_seg s i = Some c" using lookup_seg_iff [OF invs(2), of i c] by (auto simp: all_segs_def)
    moreover have "c \<notin> set (used (concat (slab_segments s)))" using assms(2) by simp
    then have "mem_status c = FREE" using c(1) by (auto simp: set_used)
    ultimately show ?thesis by auto
  qed
  then have "clearSlabs s = (Inr (), reinit (clear s))" by (simp add: clearSlabs_def clear_segs_free)
  moreover have "p \<in> set (List.map_filter (\<lambda>(_, i). Option.bind (lookup_seg s i) seg_buffer) (chunk_index s))"
  proof -
    have "(chunk_key b, seg_id b) \<in> set (chunk_index s)"
      using index_of_live [OF invs(3) assms(3)] by (auto dest: map_of_SomeD)
    then show ?thesis using lookup_live [OF invs(2) assms(3)] assms(4) by (intro set_map_filterI) auto
  qed
  then have "get_buf (reinit (clear s)) p = None"
    by (simp add: get_buf_def clear_def reinit_def map_of_fold_delete)
  moreover have "get_buf s p \<noteq> None" by (rule live_buffer [OF assms(1,3)]) (use assms(4) in simp)
  ultimately show ?thesis by blast
qed

theorem clearSlabs_drops_pinned_witness:
  "\<exists>s s' b. bm_inv s \<and> b \<in> live s \<and> seg_buffer b = Some 0 \<and> seg_pins s b = 1 \<and>
     clearSlabs s = (Inr (), s') \<and> get_buf s' 0 = None"
proof -
  obtain s0 where s0: "new_BufferMgr 16 2 8 1 = Some s0" by (simp add: new_BufferMgr_def)
  then have f: "next_buf s0 = 0" "next_seg s0 = 0" "slab_segments s0 = []" "chunk_index s0 = []"
    by (auto simp: new_BufferMgr_def)
  let ?v = "(new_Buffer 0 1)\<lparr>mem := Some 500, token := Some (500, 4), buf_size := 4\<rparr>"
  let ?s = "with_chunk [3] ?v s0" and ?b = "unsized_chunk 0 [3] 0"
  have inv: "bm_inv ?s" by (rule with_chunk_inv [OF new_BufferMgr_inv [OF s0]]) (simp_all add: f)
  have b: "?b \<in> live ?s" "seg_buffer ?b = Some 0" by (simp_all add: with_chunk_live f)
  have pins: "seg_pins ?s ?b = 1" by (simp add: seg_pins_def with_chunk_get_buf f)
  have "used (concat (slab_segments ?s)) = []" by (simp add: with_chunk_def f)
  from clearSlabs_drops_pinned [OF inv this b] pins obtain s' where
    "clearSlabs ?s = (Inr (), s')" "get_buf s' 0 = None" by auto
  with inv b pins show ?thesis by (intro exI conjI)
qed

end
