(* ===== verification/Decoders.thy ===== *)
theory Decoders
  imports HDK_Prelude
begin

text \<open>
  The fixed-width decoders of \<open>QueryEngine/DecodersImpl.h\<close>, which read one value of a column
  chunk, and the conversions between a value and its little-endian bytes.  A chunk is a list
  of bytes; \<open>None\<close> is a read outside it.
\<close>

section \<open>Little-endian memory\<close>

fun le_value :: "u8 list \<Rightarrow> int" where
  "le_value [] = 0"
| "le_value (b # bs) = uint b + 256 * le_value bs"

definition read_le :: "u8 list \<Rightarrow> nat \<Rightarrow> nat \<Rightarrow> int option" where
  "read_le bs off n = (if off + n \<le> length bs then Some (le_value (take n (drop off bs))) else None)"

text \<open>A signed integer of \<open>n\<close> bytes; an unsigned one is \<open>read_le\<close> itself.\<close>

definition read_signed :: "u8 list \<Rightarrow> nat \<Rightarrow> nat \<Rightarrow> int option" where
  "read_signed bs off n = map_option (signed_take_bit (8 * n - 1)) (read_le bs off n)"

text \<open>The conversions to \<open>int32_t\<close> and \<open>int64_t\<close>.\<close>

definition to_i32 :: "int \<Rightarrow> int" where "to_i32 i = signed_take_bit 31 i"

definition to_i64 :: "int \<Rightarrow> int" where "to_i64 i = signed_take_bit 63 i"

definition NULL_SMALLINT :: int where "NULL_SMALLINT = - 32768"

definition NULL_INT :: int where "NULL_INT = - 2147483648"

section \<open>Decoders\<close>

text \<open>The value a width other than 1, 2, 4 and 8 decodes to.\<close>

definition bad_width_value :: int where "bad_width_value = - (2 ^ 63) + 1"

definition fixed_width_int_decode :: "u8 list \<Rightarrow> int \<Rightarrow> int \<Rightarrow> int option" where
  "fixed_width_int_decode byte_stream byte_width pos =
     (if byte_width \<in> {1, 2, 4, 8}
      then if pos < 0 then None
           else read_signed byte_stream (nat (pos * byte_width)) (nat byte_width)
      else Some bad_width_value)"

text \<open>The unsigned decoder returns \<open>int64_t\<close>, so an 8-byte value wraps.\<close>

definition fixed_width_unsigned_decode :: "u8 list \<Rightarrow> int \<Rightarrow> int \<Rightarrow> int option" where
  "fixed_width_unsigned_decode byte_stream byte_width pos =
     (if byte_width \<in> {1, 2, 4, 8}
      then if pos < 0 then None
           else map_option to_i64 (read_le byte_stream (nat (pos * byte_width)) (nat byte_width))
      else Some bad_width_value)"

definition diff_fixed_width_int_decode :: "u8 list \<Rightarrow> int \<Rightarrow> int \<Rightarrow> int \<Rightarrow> int option" where
  "diff_fixed_width_int_decode byte_stream byte_width baseline pos =
     map_option (\<lambda>v. to_i64 (v + baseline)) (fixed_width_int_decode byte_stream byte_width pos)"

definition fixed_width_small_date_decode ::
    "u8 list \<Rightarrow> int \<Rightarrow> int \<Rightarrow> int \<Rightarrow> int \<Rightarrow> int option" where
  "fixed_width_small_date_decode byte_stream byte_width null_val ret_null_val pos =
     map_option (\<lambda>val. if val = null_val then ret_null_val else to_i64 (val * 86400))
       (fixed_width_int_decode byte_stream byte_width pos)"

text \<open>The 64 bits of a \<open>double\<close>, and its conversion to \<open>int64_t\<close>, which rounds towards zero
  and is undefined when the value does not fit.\<close>

definition fixed_width_double_decode :: "u8 list \<Rightarrow> int \<Rightarrow> int option" where
  "fixed_width_double_decode byte_stream pos =
     (if pos < 0 then None else read_le byte_stream (nat (pos * 8)) 8)"

definition double_to_i64 :: "int \<Rightarrow> int option" where
  "double_to_i64 bits =
     (let sign = (bits div 2 ^ 63) mod 2; ex = nat ((bits div 2 ^ 52) mod 2048); frac = bits mod 2 ^ 52;
          m = 2 ^ 52 + frac;
          mag = (if ex = 0 then 0 else if ex \<ge> 1075 then m * 2 ^ (ex - 1075) else m div 2 ^ (1075 - ex));
          v = (if sign = 1 then - mag else mag)
      in if ex = 2047 \<or> v < - (2 ^ 63) \<or> 2 ^ 63 \<le> v then None else Some v)"

section \<open>Encoding\<close>

text \<open>The bytes of a value at a width, in the order the decoders read them.\<close>

fun le_bytes :: "nat \<Rightarrow> int \<Rightarrow> u8 list" where
  "le_bytes 0 v = []"
| "le_bytes (Suc n) v = word_of_int (v mod 256) # le_bytes n (v div 256)"

lemma length_le_bytes [simp]: "length (le_bytes n v) = n"
  by (induction n arbitrary: v) simp_all

lemma uint_byte: "uint (word_of_int (v mod 256) :: u8) = v mod 256"
  by (simp add: uint_word_of_int)

lemma le_value_bytes: "le_value (le_bytes n v) = v mod 2 ^ (8 * n)"
proof (induction n arbitrary: v)
  case (Suc n)
  have "(2::int) ^ (8 * Suc n) = 256 * 2 ^ (8 * n)" by (simp add: power_add)
  then show ?case
    by (simp add: Suc uint_byte zmod_zmult2_eq del: power_Suc)
qed simp

lemma le_value_bound: "0 \<le> le_value bs \<and> le_value bs < 2 ^ (8 * length bs)"
proof (induction bs)
  case (Cons b bs)
  have "uint b < 256" using uint_lt2p [of b] by simp
  moreover have "(2::int) ^ (8 * length (b # bs)) = 256 * 2 ^ (8 * length bs)" by (simp add: power_add)
  ultimately show ?case using Cons by (simp del: power_Suc)
qed simp

text \<open>Decoding what was encoded gives the value back when it fits the width.\<close>

lemma read_signed_bytes:
  assumes "0 < n" and "- (2 ^ (8 * n - 1)) \<le> v" and "v < 2 ^ (8 * n - 1)"
    and "drop off bs = le_bytes n v @ rest" and "off \<le> length bs"
  shows "read_signed bs off n = Some v"
proof -
  have len: "off + n \<le> length bs"
  proof -
    have "length (drop off bs) \<ge> n" using assms(4) by simp
    then show ?thesis using assms(1) by simp
  qed
  have "read_le bs off n = Some (v mod 2 ^ (8 * n))"
    using len assms(4) by (simp add: read_le_def le_value_bytes)
  moreover have "signed_take_bit (8 * n - 1) (v mod 2 ^ (8 * n)) = v"
  proof -
    have "signed_take_bit (8 * n - 1) (take_bit (Suc (8 * n - 1)) v) = signed_take_bit (8 * n - 1) v"
      by (simp add: signed_take_bit_take_bit)
    also have "\<dots> = v" using assms(2,3) by (simp add: signed_take_bit_int_eq_self)
    finally show ?thesis using assms(1) by (simp add: take_bit_eq_mod)
  qed
  ultimately show ?thesis by (simp add: read_signed_def)
qed

text \<open>A column of values of one width, laid out as the encoders write it.\<close>

definition encode_column :: "nat \<Rightarrow> int list \<Rightarrow> u8 list" where
  "encode_column w vs = concat (map (le_bytes w) vs)"

lemma length_encode_column [simp]: "length (encode_column w vs) = length vs * w"
  by (induction vs) (simp_all add: encode_column_def)

lemma drop_encode_column:
  assumes "i < length vs"
  shows "drop (i * w) (encode_column w vs) = le_bytes w (vs ! i) @ encode_column w (drop (Suc i) vs)"
  using assms
proof (induction vs arbitrary: i)
  case (Cons v vs)
  then show ?case by (cases i) (simp_all add: encode_column_def)
qed simp

lemma fixed_width_int_decode_encode:
  assumes "w \<in> {1, 2, 4, 8}" and "i < length vs"
    and "- (2 ^ (8 * w - 1)) \<le> vs ! i" and "vs ! i < 2 ^ (8 * w - 1)"
  shows "fixed_width_int_decode (encode_column w vs) (int w) (int i) = Some (vs ! i)"
proof -
  have w: "int w \<in> {1, 2, 4, 8}" "0 < w" using assms(1) by auto
  have "i * w \<le> length (encode_column w vs)" using assms(2) by simp
  from read_signed_bytes [OF w(2) assms(3,4) drop_encode_column [OF assms(2)] this]
  have "read_signed (encode_column w vs) (i * w) w = Some (vs ! i)" .
  moreover have "nat (int i * int w) = i * w" by (metis nat_int of_nat_mult)
  ultimately show ?thesis using w(1) by (simp add: fixed_width_int_decode_def)
qed

end
