(* ===== verification/Join_Column.thy ===== *)
theory Join_Column
  imports Decoders
begin

text \<open>
  The columns a hash join is built from: \<open>JoinChunk\<close>, \<open>JoinColumn\<close> and
  \<open>JoinColumnTypeInfo\<close> of \<open>QueryEngine/JoinHashTable/Runtime/HashJoinRuntime.h\<close> and the
  iterators of \<open>JoinColumnIterator.h\<close>, which walk the rows of a column across its chunks in
  steps, one residue class of rows per thread.  The lemmas show that a slice visits exactly the
  rows \<open>start\<close>, \<open>start + step\<close>, \<open>start + 2 * step\<close>, \<dots> of the concatenated chunks, and that
  the slices of all the threads together visit every row once.
\<close>

section \<open>Columns\<close>

datatype ColumnType = SmallDate | Signed | Unsigned | Double

text \<open>\<open>col_buff = None\<close> is the null pointer.\<close>

record JoinChunk =
  col_buff :: "u8 list option"
  chunk_num_elems :: nat

record JoinColumn =
  col_chunks_buff :: "JoinChunk list"
  num_chunks :: nat
  num_elems :: nat
  elem_sz :: nat

record JoinColumnTypeInfo =
  ti_elem_sz :: nat
  min_val :: int
  max_val :: int
  null_val :: int
  uses_bw_eq :: bool
  translated_null_val :: int
  column_type :: ColumnType

section \<open>The iterator\<close>

record JoinColumnIterator =
  chunk_data :: "u8 list option"
  index_of_chunk :: nat
  index_inside_chunk :: nat
  index :: nat

definition getElementSwitch :: "JoinColumnTypeInfo \<Rightarrow> u8 list \<Rightarrow> nat \<Rightarrow> int option" where
  "getElementSwitch type_info data i =
     (case column_type type_info of
        SmallDate \<Rightarrow>
          (let null = (if ti_elem_sz type_info = 4 then NULL_INT else NULL_SMALLINT)
           in fixed_width_small_date_decode data (int (ti_elem_sz type_info)) null null (int i))
      | Signed \<Rightarrow> fixed_width_int_decode data (int (ti_elem_sz type_info)) (int i)
      | Unsigned \<Rightarrow> fixed_width_unsigned_decode data (int (ti_elem_sz type_info)) (int i)
      | Double \<Rightarrow> Option.bind (fixed_width_double_decode data (int i)) double_to_i64)"

text \<open>\<open>operator*\<close>: the row number and the decoded element.\<close>

definition iter_deref :: "JoinColumnTypeInfo \<Rightarrow> JoinColumnIterator \<Rightarrow> (nat \<times> int) option" where
  "iter_deref type_info it =
     (case chunk_data it of None \<Rightarrow> None
      | Some data \<Rightarrow> map_option (Pair (index it)) (getElementSwitch type_info data (index_inside_chunk it)))"

text \<open>The inner loop of \<open>operator++\<close>, which moves on to the chunk the position falls into.\<close>

function skip_chunks :: "JoinColumn \<Rightarrow> JoinColumnIterator \<Rightarrow> JoinColumnIterator option" where
  "skip_chunks jc it =
     (if chunk_data it = None then Some it
      else if length (col_chunks_buff jc) \<le> index_of_chunk it then None
      else let n = chunk_num_elems (col_chunks_buff jc ! index_of_chunk it) in
           if index_inside_chunk it < n then Some it
           else let ioc = Suc (index_of_chunk it) in
                if ioc < num_chunks jc
                then if ioc < length (col_chunks_buff jc)
                     then skip_chunks jc (it\<lparr>index_inside_chunk := index_inside_chunk it - n,
                            index_of_chunk := ioc, chunk_data := col_buff (col_chunks_buff jc ! ioc)\<rparr>)
                     else None
                else skip_chunks jc (it\<lparr>index_inside_chunk := index_inside_chunk it - n,
                       index_of_chunk := ioc, chunk_data := None\<rparr>))"
  by pat_completeness auto

termination skip_chunks
  by (relation "measure (\<lambda>(jc, it). if chunk_data it = None then 0 else Suc (length (col_chunks_buff jc) - index_of_chunk it))")
     auto

declare skip_chunks.simps [simp del]

definition iter_next :: "JoinColumn \<Rightarrow> nat \<Rightarrow> JoinColumnIterator \<Rightarrow> JoinColumnIterator option" where
  "iter_next jc step it =
     skip_chunks jc (it\<lparr>index := index it + step, index_inside_chunk := index_inside_chunk it + step\<rparr>)"

text \<open>The constructor: it advances an iterator at row 0 by \<open>start\<close> rows.\<close>

definition iter_new :: "JoinColumn \<Rightarrow> nat \<Rightarrow> JoinColumnIterator option" where
  "iter_new jc start =
     (if 0 < num_elems jc
      then case col_chunks_buff jc of
             [] \<Rightarrow> None
           | c # _ \<Rightarrow> iter_next jc start \<lparr>chunk_data = col_buff c, index_of_chunk = 0, index_inside_chunk = 0, index = 0\<rparr>
      else iter_next jc start \<lparr>chunk_data = None, index_of_chunk = 0, index_inside_chunk = 0, index = 0\<rparr>)"

text \<open>Each step of the iteration moves forward inside the chunk or on to a later chunk.\<close>

lemma skip_chunks_forward:
  assumes "skip_chunks jc it = Some it'" and "chunk_data it' \<noteq> None"
  shows "index_of_chunk it' < length (col_chunks_buff jc)
       \<and> index_inside_chunk it' < chunk_num_elems (col_chunks_buff jc ! index_of_chunk it')
       \<and> (index_of_chunk it' = index_of_chunk it \<and> index_inside_chunk it' = index_inside_chunk it
          \<or> index_of_chunk it < index_of_chunk it') \<and> index it' = index it"
  using assms
proof (induction jc it rule: skip_chunks.induct)
  case (1 jc it)
  show ?case
    using "1.prems" "1.IH"(1) [OF _ _ refl _ refl] "1.IH"(2) [OF _ _ refl _ refl]
    by (subst (asm) skip_chunks.simps) (force simp: Let_def split: if_splits)
qed

text \<open>The range-for loop over a slice.  With a step of 0 it would never end: no element is
  returned then.\<close>

function iter_elements ::
    "JoinColumn \<Rightarrow> JoinColumnTypeInfo \<Rightarrow> nat \<Rightarrow> JoinColumnIterator \<Rightarrow> (nat \<times> int) list option" where
  "iter_elements jc ti step it =
     (if chunk_data it = None then Some []
      else if step = 0 then None
      else case iter_deref ti it of None \<Rightarrow> None
           | Some x \<Rightarrow>
               (case iter_next jc step it of None \<Rightarrow> None
                | Some it' \<Rightarrow> map_option ((#) x) (iter_elements jc ti step it')))"
  by pat_completeness auto

definition rows_left :: "JoinColumn \<Rightarrow> JoinColumnIterator \<Rightarrow> nat" where
  "rows_left jc it =
     (if chunk_data it = None then 0
      else Suc (chunk_num_elems (col_chunks_buff jc ! index_of_chunk it) - index_inside_chunk it))"

termination iter_elements
proof (relation "measures [\<lambda>(jc, ti, step, it). if chunk_data it = None then 0 else Suc (length (col_chunks_buff jc)) - index_of_chunk it,
                           \<lambda>(jc, ti, step, it). rows_left jc it]", goal_cases)
  case 1
  show ?case by simp
next
  case (2 jc ti step it x it')
  then show ?case
    using skip_chunks_forward [of jc _ it']
    by (cases "chunk_data it' = None") (fastforce simp: iter_next_def rows_left_def)+
qed

declare iter_elements.simps [simp del]

definition slice_elements :: "JoinColumn \<Rightarrow> JoinColumnTypeInfo \<Rightarrow> nat \<Rightarrow> nat \<Rightarrow> (nat \<times> int) list option" where
  "slice_elements jc ti start step = Option.bind (iter_new jc start) (iter_elements jc ti step)"

section \<open>What a slice visits\<close>

text \<open>A well-formed column: the counts agree with the chunks and every element can be decoded.\<close>

definition chunk_vals :: "JoinColumnTypeInfo \<Rightarrow> JoinChunk \<Rightarrow> int list" where
  "chunk_vals ti c = map (\<lambda>i. the (getElementSwitch ti (the (col_buff c)) i)) [0..<chunk_num_elems c]"

definition col_vals :: "JoinColumn \<Rightarrow> JoinColumnTypeInfo \<Rightarrow> int list" where
  "col_vals jc ti = concat (map (chunk_vals ti) (col_chunks_buff jc))"

definition chunk_ok :: "JoinColumnTypeInfo \<Rightarrow> JoinChunk \<Rightarrow> bool" where
  "chunk_ok ti c \<longleftrightarrow>
     (case col_buff c of None \<Rightarrow> False
      | Some data \<Rightarrow> (\<forall>i \<in> set [0..<chunk_num_elems c]. getElementSwitch ti data i \<noteq> None))"

definition col_ok :: "JoinColumn \<Rightarrow> JoinColumnTypeInfo \<Rightarrow> bool" where
  "col_ok jc ti \<longleftrightarrow>
     num_chunks jc = length (col_chunks_buff jc) \<and>
     num_elems jc = sum_list (map chunk_num_elems (col_chunks_buff jc)) \<and>
     (\<forall>c \<in> set (col_chunks_buff jc). chunk_ok ti c)"

definition rows_before :: "JoinColumn \<Rightarrow> nat \<Rightarrow> nat" where
  "rows_before jc k = sum_list (map chunk_num_elems (take k (col_chunks_buff jc)))"

lemma rows_before_Suc:
  "k < length (col_chunks_buff jc) \<Longrightarrow>
     rows_before jc (Suc k) = rows_before jc k + chunk_num_elems (col_chunks_buff jc ! k)"
  by (simp add: rows_before_def take_Suc_conv_app_nth)

lemma rows_before_all: "col_ok jc ti \<Longrightarrow> rows_before jc (length (col_chunks_buff jc)) = num_elems jc"
  by (simp add: rows_before_def col_ok_def)

lemma rows_before_le:
  assumes "col_ok jc ti" and "k < length (col_chunks_buff jc)"
  shows "rows_before jc k + chunk_num_elems (col_chunks_buff jc ! k) \<le> num_elems jc"
proof -
  have "map chunk_num_elems (col_chunks_buff jc) =
        map chunk_num_elems (take (Suc k) (col_chunks_buff jc)) @ map chunk_num_elems (drop (Suc k) (col_chunks_buff jc))"
    by (metis append_take_drop_id map_append)
  then have "num_elems jc = rows_before jc (Suc k) + sum_list (map chunk_num_elems (drop (Suc k) (col_chunks_buff jc)))"
    using assms(1) unfolding col_ok_def rows_before_def by (metis sum_list_append)
  then show ?thesis using rows_before_Suc [OF assms(2)] by simp
qed

lemma length_col_vals: "col_ok jc ti \<Longrightarrow> length (col_vals jc ti) = num_elems jc"
  by (simp add: col_ok_def col_vals_def length_concat comp_def chunk_vals_def)

text \<open>The iterator stands at row \<open>p\<close>, or past the end.\<close>

definition iter_at :: "JoinColumn \<Rightarrow> JoinColumnIterator \<Rightarrow> nat \<Rightarrow> bool" where
  "iter_at jc it p \<longleftrightarrow> index it = p \<and>
     (if p < num_elems jc
      then index_of_chunk it < length (col_chunks_buff jc)
         \<and> chunk_data it = col_buff (col_chunks_buff jc ! index_of_chunk it)
         \<and> rows_before jc (index_of_chunk it) + index_inside_chunk it = p
         \<and> index_inside_chunk it < chunk_num_elems (col_chunks_buff jc ! index_of_chunk it)
      else chunk_data it = None)"

lemma skip_chunks_at:
  assumes "col_ok jc ti" and "index_of_chunk it < length (col_chunks_buff jc)"
    and "chunk_data it = col_buff (col_chunks_buff jc ! index_of_chunk it)"
    and "rows_before jc (index_of_chunk it) + index_inside_chunk it = index it"
  shows "\<exists>it'. skip_chunks jc it = Some it' \<and> iter_at jc it' (index it)"
  using assms
proof (induction jc it rule: skip_chunks.induct)
  case (1 jc it)
  let ?k = "index_of_chunk it" and ?n = "chunk_num_elems (col_chunks_buff jc ! index_of_chunk it)"
  have ok: "chunk_ok ti (col_chunks_buff jc ! ?k)" using "1.prems"(1,2) by (auto simp: col_ok_def)
  then have data: "chunk_data it \<noteq> None" using "1.prems"(3) by (auto simp: chunk_ok_def split: option.splits)
  then obtain y where datum: "chunk_data it = Some y" by blast
  have nc: "num_chunks jc = length (col_chunks_buff jc)" using "1.prems"(1) by (simp add: col_ok_def)
  show ?case
  proof (cases "index_inside_chunk it < ?n")
    case True
    have "index it < num_elems jc" using rows_before_le [OF "1.prems"(1,2)] True "1.prems"(4) by linarith
    then show ?thesis using True data "1.prems" by (subst skip_chunks.simps) (auto simp: iter_at_def Let_def)
  next
    case False
    show ?thesis
    proof (cases "Suc ?k < length (col_chunks_buff jc)")
      case True
      have "\<exists>it'. skip_chunks jc (it\<lparr>index_inside_chunk := index_inside_chunk it - ?n, index_of_chunk := Suc ?k,
                 chunk_data := col_buff (col_chunks_buff jc ! Suc ?k)\<rparr>) = Some it' \<and> iter_at jc it' (index it)"
        using "1.IH"(1) [OF data _ refl False refl] "1.prems" True nc False rows_before_Suc [OF "1.prems"(2)] by simp
      then show ?thesis using datum False True nc "1.prems"(2) by (subst skip_chunks.simps) (simp add: Let_def)
    next
      case last: False
      have "num_elems jc \<le> index it"
        using rows_before_all [OF "1.prems"(1)] rows_before_Suc [OF "1.prems"(2)] last "1.prems"(2,4) False
        by (metis Suc_lessI add_le_cancel_left linorder_not_less)
      moreover have "skip_chunks jc it = Some (it\<lparr>index_inside_chunk := index_inside_chunk it - ?n,
          index_of_chunk := Suc ?k, chunk_data := None\<rparr>)"
        using datum False last nc "1.prems"(2)
        by (subst skip_chunks.simps, subst (2) skip_chunks.simps) (simp add: Let_def)
      ultimately show ?thesis by (simp add: iter_at_def)
    qed
  qed
qed

lemma iter_next_at:
  assumes "col_ok jc ti" and "iter_at jc it p" and "p < num_elems jc"
  shows "\<exists>it'. iter_next jc step it = Some it' \<and> iter_at jc it' (p + step)"
  using skip_chunks_at [OF assms(1), of "it\<lparr>index := index it + step, index_inside_chunk := index_inside_chunk it + step\<rparr>"] assms(2,3)
  by (auto simp: iter_next_def iter_at_def)

lemma iter_new_at:
  assumes "col_ok jc ti"
  shows "\<exists>it. iter_new jc start = Some it \<and> iter_at jc it start"
proof (cases "0 < num_elems jc")
  case True
  then have "col_chunks_buff jc \<noteq> []" using assms by (auto simp: col_ok_def)
  then obtain c cs where cs: "col_chunks_buff jc = c # cs" by (cases "col_chunks_buff jc") auto
  then show ?thesis
    using True skip_chunks_at [OF assms, of "\<lparr>chunk_data = col_buff c, index_of_chunk = 0, index_inside_chunk = start, index = start\<rparr>"]
    by (simp add: iter_new_def iter_next_def rows_before_def)
next
  case False
  then show ?thesis by (simp add: iter_new_def iter_next_def skip_chunks.simps iter_at_def)
qed

lemma concat_nth_before:
  assumes "k < length xss" and "i < length (xss ! k)"
  shows "concat xss ! (sum_list (map length (take k xss)) + i) = xss ! k ! i"
  using assms
proof (induction xss arbitrary: k)
  case (Cons xs xss)
  then show ?case by (cases k) (auto simp: nth_append add.assoc)
qed simp

lemma iter_deref_at:
  assumes "col_ok jc ti" and "iter_at jc it p" and "p < num_elems jc"
  shows "iter_deref ti it = Some (p, col_vals jc ti ! p)"
proof -
  let ?k = "index_of_chunk it" and ?c = "col_chunks_buff jc ! index_of_chunk it"
  have k: "?k < length (col_chunks_buff jc)" "chunk_data it = col_buff ?c"
    "rows_before jc ?k + index_inside_chunk it = p" "index_inside_chunk it < chunk_num_elems ?c" "index it = p"
    using assms(2,3) by (simp_all add: iter_at_def)
  have "chunk_ok ti ?c" using assms(1) k(1) by (auto simp: col_ok_def)
  then obtain data v where data: "col_buff ?c = Some data" "getElementSwitch ti data (index_inside_chunk it) = Some v"
    using k(4) by (force simp: chunk_ok_def split: option.splits)
  have "concat (map (chunk_vals ti) (col_chunks_buff jc)) !
          (sum_list (map length (take ?k (map (chunk_vals ti) (col_chunks_buff jc)))) + index_inside_chunk it)
        = map (chunk_vals ti) (col_chunks_buff jc) ! ?k ! index_inside_chunk it"
    by (rule concat_nth_before) (use k in \<open>simp_all add: chunk_vals_def\<close>)
  moreover have "sum_list (map length (take ?k (map (chunk_vals ti) (col_chunks_buff jc)))) = rows_before jc ?k"
    by (simp add: rows_before_def take_map comp_def chunk_vals_def)
  ultimately have "col_vals jc ti ! p = v"
    using k data by (simp add: col_vals_def chunk_vals_def)
  then show ?thesis using k data by (simp add: iter_deref_def)
qed

text \<open>The rows of a slice.\<close>

function strided :: "nat \<Rightarrow> nat \<Rightarrow> nat \<Rightarrow> nat list" where
  "strided i step n = (if i < n \<and> 0 < step then i # strided (i + step) step n else [])"
  by pat_completeness auto

termination strided by (relation "measure (\<lambda>(i, step, n). n - i)") auto

declare strided.simps [simp del]

lemma iter_elements_at:
  assumes "col_ok jc ti" and "0 < step" and "iter_at jc it p"
  shows "iter_elements jc ti step it = Some (map (\<lambda>i. (i, col_vals jc ti ! i)) (strided p step (num_elems jc)))"
  using assms(2,3)
proof (induction p step "num_elems jc" arbitrary: it rule: strided.induct)
  case (1 p step)
  show ?case
  proof (cases "p < num_elems jc")
    case True
    then have "chunk_data it \<noteq> None"
      using iter_deref_at [OF assms(1) "1.prems"(2) True] by (auto simp: iter_deref_def split: option.splits)
    moreover obtain it' where "iter_next jc step it = Some it'" "iter_at jc it' (p + step)"
      using iter_next_at [OF assms(1) "1.prems"(2) True] by blast
    ultimately show ?thesis
      using "1.hyps" "1.prems"(1) True iter_deref_at [OF assms(1) "1.prems"(2) True]
      by (subst iter_elements.simps, subst strided.simps) simp
  next
    case False
    then show ?thesis
      using "1.prems" by (subst iter_elements.simps, subst strided.simps) (simp add: iter_at_def)
  qed
qed

lemma slice_elements_eq:
  assumes "col_ok jc ti" and "0 < step"
  shows "slice_elements jc ti start step = Some (map (\<lambda>i. (i, col_vals jc ti ! i)) (strided start step (num_elems jc)))"
  using iter_new_at [OF assms(1), of start] iter_elements_at [OF assms(1,2)]
  by (auto simp: slice_elements_def)

section \<open>The slices of all threads\<close>

lemma set_strided: "0 < step \<Longrightarrow> set (strided i step n) = {j. j < n \<and> i \<le> j \<and> j mod step = i mod step}"
proof (induction i step n rule: strided.induct)
  case (1 i step n)
  have split: "i \<le> j \<and> j mod step = i mod step \<longleftrightarrow> j = i \<or> i + step \<le> j \<and> j mod step = (i + step) mod step" for j
  proof
    assume j: "i \<le> j \<and> j mod step = i mod step"
    then have "step dvd j - i" by (metis mod_eq_dvd_iff_nat)
    then have "j - i = 0 \<or> step \<le> j - i" using dvd_imp_le by (cases "j - i = 0") auto
    then show "j = i \<or> i + step \<le> j \<and> j mod step = (i + step) mod step" using j by auto
  qed auto
  show ?case
  proof (cases "i < n")
    case True
    with 1 have "set (strided i step n) = insert i {j. j < n \<and> i + step \<le> j \<and> j mod step = (i + step) mod step}"
      by (subst strided.simps) simp
    also have "\<dots> = {j. j < n \<and> i \<le> j \<and> j mod step = i mod step}" using split True by blast
    finally show ?thesis .
  next
    case False
    then show ?thesis by (subst strided.simps) auto
  qed
qed

lemma strided_ge: "x \<in> set (strided i step n) \<Longrightarrow> i \<le> x"
  by (induction i step n rule: strided.induct) (metis add_leD1 empty_iff list.set(1) order_refl set_ConsD strided.simps)

lemma distinct_strided: "distinct (strided i step n)"
proof (induction i step n rule: strided.induct)
  case (1 i step n)
  show ?case
  proof (cases "i < n \<and> 0 < step")
    case True
    have "i \<notin> set (strided (i + step) step n)" using strided_ge [of i "i + step" step n] True by auto
    then show ?thesis using 1 True by (subst strided.simps) simp
  next
    case False
    then have "strided i step n = []" by (subst strided.simps) auto
    then show ?thesis by simp
  qed
qed

text \<open>Together the threads' slices are the rows of the column, each once.\<close>

lemma mset_strided:
  assumes "0 < T"
  shows "mset (concat (map (\<lambda>t. strided t T n) [0..<T])) = mset [0..<n]"
proof -
  have "distinct (map (\<lambda>x. x) (concat (map (\<lambda>t. strided t T n) [0..<T])))"
  proof (rule distinct_map_concat)
    show "\<forall>x < length (map (\<lambda>t. strided t T n) [0..<T]). distinct (map (\<lambda>x. x) (map (\<lambda>t. strided t T n) [0..<T] ! x))"
      using distinct_strided by simp
    show "\<forall>x < length (map (\<lambda>t. strided t T n) [0..<T]). \<forall>y < length (map (\<lambda>t. strided t T n) [0..<T]). x \<noteq> y \<longrightarrow>
        (\<lambda>x. x) ` set (map (\<lambda>t. strided t T n) [0..<T] ! x) \<inter> (\<lambda>x. x) ` set (map (\<lambda>t. strided t T n) [0..<T] ! y) = {}"
      by (auto simp: set_strided [OF assms])
  qed
  moreover have "set (concat (map (\<lambda>t. strided t T n) [0..<T])) = set [0..<n]"
  proof -
    have "\<exists>t < T. j \<in> set (strided t T n)" if "j < n" for j
      using that assms by (auto simp: set_strided intro!: exI [of _ "j mod T"])
    then show ?thesis using assms by (fastforce simp: set_strided)
  qed
  ultimately show ?thesis by (metis distinct_upt list.map_ident set_eq_iff_mset_eq_distinct)
qed

end
