(* ===== verification/Thread_Sched.thy ===== *)
theory Thread_Sched
  imports HDK_Prelude
begin

text \<open>
  The multi-threaded loops of the sources have one shape: every thread walks its own slice of
  a column and applies the same loop body to each element, where the body's effect on the
  shared buffer is a single atomic operation (a compare-and-swap or a fetch-and-add), and a
  thread leaves its loop as soon as the body returns a non-zero code.  This theory gives that
  shape a meaning: \<open>thread_run\<close> is the loop of one thread, \<open>sched_run\<close> runs all the threads
  under an arbitrary schedule.  \<open>sched_run_inv\<close> is the rule by which an invariant of the body
  carries over to every interleaving; the components use it for each of their parallel phases.
\<close>

section \<open>One thread\<close>

text \<open>
  A loop body maps the shared state and an element to the next state and a return code;
  \<open>None\<close> is an access outside a buffer.
\<close>

type_synonym ('s, 'a) body = "'s \<Rightarrow> 'a \<Rightarrow> ('s \<times> int) option"

fun thread_run :: "('s, 'a) body \<Rightarrow> 's \<Rightarrow> 'a list \<Rightarrow> ('s \<times> int) option" where
  "thread_run f s [] = Some (s, 0)"
| "thread_run f s (x # xs) =
     (case f s x of None \<Rightarrow> None
      | Some (s', r) \<Rightarrow> if r = 0 then thread_run f s' xs else Some (s', r))"

lemma thread_run_append:
  "thread_run f s (xs @ ys) =
     (case thread_run f s xs of None \<Rightarrow> None
      | Some (s', r) \<Rightarrow> if r = 0 then thread_run f s' ys else Some (s', r))"
  by (induction xs arbitrary: s) (auto split: option.splits)

section \<open>All threads under a schedule\<close>

text \<open>
  A thread is its pending elements and its return code.  A schedule is a list of thread
  numbers; when it is used up the remaining work is done thread by thread, so that every
  schedule, however short, runs all the threads to their end.
\<close>

type_synonym 'a thread = "'a list \<times> int"

fun thread_step :: "('s, 'a) body \<Rightarrow> 's \<Rightarrow> 'a thread \<Rightarrow> ('s \<times> 'a thread) option" where
  "thread_step f s ([], e) = Some (s, ([], e))"
| "thread_step f s (x # xs, e) =
     (case f s x of None \<Rightarrow> None
      | Some (s', r) \<Rightarrow> Some (s', (if r = 0 then xs else [], r)))"

fun finish_threads :: "('s, 'a) body \<Rightarrow> 's \<Rightarrow> 'a thread list \<Rightarrow> ('s \<times> int list) option" where
  "finish_threads f s [] = Some (s, [])"
| "finish_threads f s ((xs, e) # ts) =
     (case thread_run f s xs of None \<Rightarrow> None
      | Some (s', r) \<Rightarrow>
          (case finish_threads f s' ts of None \<Rightarrow> None
           | Some (s'', rs) \<Rightarrow> Some (s'', (if e = 0 then r else e) # rs)))"

fun sched_run :: "('s, 'a) body \<Rightarrow> nat list \<Rightarrow> 's \<Rightarrow> 'a thread list \<Rightarrow> ('s \<times> int list) option" where
  "sched_run f [] s ts = finish_threads f s ts"
| "sched_run f (i # sched) s ts =
     (if i < length ts
      then case thread_step f s (ts ! i) of None \<Rightarrow> None
           | Some (s', t') \<Rightarrow> sched_run f sched s' (ts[i := t'])
      else sched_run f sched s ts)"

text \<open>Starting one thread per slice, all with return code 0.\<close>

definition run_threads :: "('s, 'a) body \<Rightarrow> nat list \<Rightarrow> 's \<Rightarrow> 'a list list \<Rightarrow> ('s \<times> int list) option" where
  "run_threads f sched s slices = sched_run f sched s (map (\<lambda>xs. (xs, 0)) slices)"

section \<open>Invariants under every schedule\<close>

text \<open>
  \<open>body_inv f I M Bad\<close>: from a state in which the elements \<open>A\<close> have been processed the body
  can process any further element of \<open>M\<close> without leaving the buffers; it returns 0 and the
  element counts as processed, or it returns another code and \<open>Bad\<close> holds.
\<close>

definition body_inv ::
    "('s, 'a) body \<Rightarrow> ('s \<Rightarrow> 'a multiset \<Rightarrow> bool) \<Rightarrow> 'a multiset \<Rightarrow> bool \<Rightarrow> bool" where
  "body_inv f I M Bad \<longleftrightarrow>
     (\<forall>s A x. I s A \<longrightarrow> add_mset x A \<subseteq># M \<longrightarrow>
        (\<exists>s' r. f s x = Some (s', r) \<and> (if r = 0 then I s' (add_mset x A) else Bad \<and> I s' A)))"

lemma body_invD:
  assumes "body_inv f I M Bad" and "I s A" and "add_mset x A \<subseteq># M"
  obtains s' where "f s x = Some (s', 0)" and "I s' (add_mset x A)"
  | s' r where "f s x = Some (s', r)" and "r \<noteq> 0" and "Bad" and "I s' A"
  using assms unfolding body_inv_def by metis

lemma thread_run_inv:
  assumes "body_inv f I M Bad" and "I s A" and "A + mset xs \<subseteq># M"
  obtains s' r A' where "thread_run f s xs = Some (s', r)" and "I s' A'" and "A' \<subseteq># A + mset xs"
    and "r = 0 \<Longrightarrow> A' = A + mset xs" and "r \<noteq> 0 \<Longrightarrow> Bad"
  using assms(2,3)
proof (induction xs arbitrary: s A thesis)
  case Nil
  then show ?case by simp
next
  case (Cons x xs)
  have sub: "add_mset x A \<subseteq># M"
    using Cons.prems(3) by (simp add: subset_mset.order_trans [rotated])
  show ?case
  proof (rule body_invD [of f I M Bad s A x])
    fix s' assume s': "f s x = Some (s', 0)" "I s' (add_mset x A)"
    show ?thesis
    proof (rule Cons.IH [OF _ s'(2)])
      show "add_mset x A + mset xs \<subseteq># M" using Cons.prems(3) by simp
      fix s'' r A' assume "thread_run f s' xs = Some (s'', r)" "I s'' A'"
        "A' \<subseteq># add_mset x A + mset xs" "r = 0 \<Longrightarrow> A' = add_mset x A + mset xs" "r \<noteq> 0 \<Longrightarrow> Bad"
      then show ?thesis using s' Cons.prems(1) [of s'' r A'] by simp
    qed
  next
    fix s' r assume "f s x = Some (s', r)" "r \<noteq> 0" "Bad" "I s' A"
    then show ?thesis using Cons.prems(1) [of s' r A] by simp
  qed (use assms(1) Cons.prems(2) sub in auto)
qed

definition pending :: "'a thread list \<Rightarrow> 'a multiset" where
  "pending ts = mset (concat (map fst ts))"

lemma pending_Nil [simp]: "pending [] = {#}"
  and pending_Cons [simp]: "pending ((xs, e) # ts) = mset xs + pending ts"
  by (simp_all add: pending_def)

lemma pending_update:
  assumes "i < length ts"
  shows "pending ts + mset (fst t) = pending (ts[i := t]) + mset (fst (ts ! i))"
  using assms
proof (induction ts arbitrary: i)
  case (Cons u ts)
  then show ?case by (cases i; cases u; cases t) (auto simp: pending_def ac_simps)
qed simp

text \<open>What holds between two steps of the schedule.\<close>

definition threads_ok ::
    "('s \<Rightarrow> 'a multiset \<Rightarrow> bool) \<Rightarrow> 'a multiset \<Rightarrow> bool \<Rightarrow> 's \<Rightarrow> 'a multiset \<Rightarrow> 'a thread list \<Rightarrow> bool" where
  "threads_ok I M Bad s A ts \<longleftrightarrow>
     I s A \<and> A + pending ts \<subseteq># M \<and> (\<forall>t \<in> set ts. snd t \<noteq> 0 \<longrightarrow> fst t = []) \<and>
     (if \<forall>t \<in> set ts. snd t = 0 then A + pending ts = M else Bad)"

lemma finish_threads_inv:
  assumes "body_inv f I M Bad" and "I s A" and "A + pending ts \<subseteq># M"
    and "\<forall>t \<in> set ts. snd t \<noteq> 0 \<longrightarrow> fst t = []" and "(\<exists>t \<in> set ts. snd t \<noteq> 0) \<longrightarrow> Bad"
  obtains s' rs A' where "finish_threads f s ts = Some (s', rs)" and "length rs = length ts"
    and "I s' A'" and "A' \<subseteq># A + pending ts"
    and "\<forall>r \<in> set rs. r = 0 \<Longrightarrow> A' = A + pending ts" and "\<exists>r \<in> set rs. r \<noteq> 0 \<Longrightarrow> Bad"
  using assms(2-)
proof (induction ts arbitrary: s A thesis)
  case Nil
  then show ?case by simp
next
  case (Cons t ts)
  obtain xs e where t: "t = (xs, e)" by (cases t)
  have sub: "A + mset xs + pending ts \<subseteq># M" using Cons.prems(3) by (simp add: t ac_simps)
  then have subx: "A + mset xs \<subseteq># M" by (rule subset_mset.order_trans [OF mset_subset_eq_add_left])
  obtain s' r A1 where 1: "thread_run f s xs = Some (s', r)" "I s' A1" "A1 \<subseteq># A + mset xs"
      "r = 0 \<Longrightarrow> A1 = A + mset xs" "r \<noteq> 0 \<Longrightarrow> Bad"
    using thread_run_inv [OF assms(1) Cons.prems(2) subx] by metis
  have sub1: "A1 + pending ts \<subseteq># A + mset xs + pending ts" using 1(3) by (simp add: mset_subset_eq_mono_add)
  have sub1': "A1 + pending ts \<subseteq># M" using sub1 sub by (rule subset_mset.order_trans)
  have rest: "\<forall>t \<in> set ts. snd t \<noteq> 0 \<longrightarrow> fst t = []" "(\<exists>t \<in> set ts. snd t \<noteq> 0) \<longrightarrow> Bad"
    using Cons.prems(4,5) by auto
  obtain s'' rs A' where 2: "finish_threads f s' ts = Some (s'', rs)" "length rs = length ts"
      "I s'' A'" "A' \<subseteq># A1 + pending ts" "\<forall>r \<in> set rs. r = 0 \<Longrightarrow> A' = A1 + pending ts"
      "\<exists>r \<in> set rs. r \<noteq> 0 \<Longrightarrow> Bad"
    using Cons.IH [OF _ 1(2) sub1' rest] by blast
  show ?case
  proof (rule Cons.prems(1))
    show "finish_threads f s (t # ts) = Some (s'', (if e = 0 then r else e) # rs)" using 1 2 by (simp add: t)
    show "length ((if e = 0 then r else e) # rs) = length (t # ts)" using 2 by simp
    show "I s'' A'" by (rule 2)
    show "A' \<subseteq># A + pending (t # ts)" using subset_mset.order_trans [OF 2(4) sub1] by (simp add: t ac_simps)
    show "\<exists>q \<in> set ((if e = 0 then r else e) # rs). q \<noteq> 0 \<Longrightarrow> Bad"
      using 1(5) 2(6) Cons.prems(5) by (auto simp: t split: if_splits)
    show "A' = A + pending (t # ts)" if "\<forall>q \<in> set ((if e = 0 then r else e) # rs). q = 0"
    proof -
      have "r = 0" "\<forall>q \<in> set rs. q = 0" using that by (auto split: if_splits)
      then show ?thesis using 1(4) 2(5) by (simp add: t ac_simps)
    qed
  qed
qed

lemma thread_step_ok:
  assumes "body_inv f I M Bad" and "threads_ok I M Bad s A ts" and "i < length ts"
  obtains s' t' A' where "thread_step f s (ts ! i) = Some (s', t')" and "threads_ok I M Bad s' A' (ts[i := t'])"
proof -
  obtain xs e where t: "ts ! i = (xs, e)" by (cases "ts ! i")
  have W: "I s A" "A + pending ts \<subseteq># M" "\<forall>t \<in> set ts. snd t \<noteq> 0 \<longrightarrow> fst t = []"
    "(\<forall>t \<in> set ts. snd t = 0) \<Longrightarrow> A + pending ts = M" "\<not> (\<forall>t \<in> set ts. snd t = 0) \<Longrightarrow> Bad"
    using assms(2) by (auto simp: threads_ok_def)
  show ?thesis
  proof (cases xs)
    case Nil
    then have "thread_step f s (ts ! i) = Some (s, ts ! i)" by (simp add: t)
    then show ?thesis using that [of s "ts ! i" A] assms(2) by simp
  next
    case (Cons x ys)
    have mem: "(x # ys, e) \<in> set ts" using t Cons assms(3) by (metis nth_mem)
    then have e: "e = 0" using W(3) by force
    have pend: "pending ts + mset zs = pending (ts[i := (zs, r)]) + mset (x # ys)" for zs r
      using pending_update [OF assms(3), of "(zs, r)"] by (simp add: t Cons)
    have "pending ts = pending (ts[i := (ys, 0)]) + {#x#}" using pend [of ys 0] by simp
    then have sub: "add_mset x A + pending (ts[i := (ys, 0)]) = A + pending ts" by simp
    have subx: "add_mset x A \<subseteq># M"
      using sub W(2) by (metis mset_subset_eq_add_left subset_mset.order_trans)
    have set: "set (ts[i := u]) \<subseteq> insert u (set ts)" for u by (rule set_update_subset_insert)
    show ?thesis
    proof (rule body_invD [OF assms(1) W(1) subx])
      fix s' assume s': "f s x = Some (s', 0)" "I s' (add_mset x A)"
      have codes: "(\<forall>t \<in> set (ts[i := (ys, 0)]). snd t = 0) \<longleftrightarrow> (\<forall>t \<in> set ts. snd t = 0)"
        using assms(3) t e by (auto simp: all_set_conv_all_nth nth_list_update) (metis snd_conv)
      have "threads_ok I M Bad s' (add_mset x A) (ts[i := (ys, 0)])"
        unfolding threads_ok_def codes sub
      proof (intro conjI ballI impI)
        fix u assume u: "u \<in> set (ts[i := (ys, 0)])" "snd u \<noteq> 0"
        then have "u \<noteq> (ys, 0)" by auto
        with u set [of "(ys, 0)"] have "u \<in> set ts" by blast
        then show "fst u = []" using W(3) u by blast
      qed (use s' W(2,4,5) in \<open>simp_all\<close>)
      then show ?thesis using that [of s' "(ys, 0)"] s' by (simp add: t Cons)
    next
      fix s' r assume s': "f s x = Some (s', r)" "r \<noteq> 0" "Bad" "I s' A"
      have "pending (ts[i := ([], r)]) \<subseteq># pending ts" using pend [of "[]" r] by simp
      then have "A + pending (ts[i := ([], r)]) \<subseteq># M" using W(2)
        by (meson mset_subset_eq_mono_add_right_cancel subset_mset.order_trans mset_subset_eq_mono_add subset_mset.order_refl)
      moreover have "([], r) \<in> set (ts[i := ([], r)])" using assms(3) by (simp add: set_update_memI)
      ultimately have "threads_ok I M Bad s' A (ts[i := ([], r)])"
        unfolding threads_ok_def
      proof (intro conjI ballI impI)
        fix u assume u: "u \<in> set (ts[i := ([], r)])" "snd u \<noteq> 0"
        with set [of "([], r)"] have "u \<in> insert ([], r) (set ts)" by blast
        then show "fst u = []" using W(3) u by auto
      next
        assume "([], r) \<in> set (ts[i := ([], r)])"
        with s' show "if \<forall>t \<in> set (ts[i := ([], r)]). snd t = 0 then A + pending (ts[i := ([], r)]) = M else Bad"
          by (auto simp del: in_set_conv_nth)
      qed (use s' in simp_all)
      then show ?thesis using that [of s' "([], r)"] s' by (simp add: t Cons)
    qed
  qed
qed

lemma finish_codes:
  assumes "finish_threads f s ts = Some (s', rs)" and "\<forall>r \<in> set rs. r = 0"
  shows "\<forall>t \<in> set ts. snd t = 0"
  using assms
proof (induction ts arbitrary: s s' rs)
  case (Cons t ts)
  then show ?case by (cases t) (fastforce split: option.splits if_splits prod.splits)
qed simp

lemma sched_run_ok:
  assumes "body_inv f I M Bad" and "threads_ok I M Bad s A ts"
  obtains s' rs A' where "sched_run f sched s ts = Some (s', rs)" and "length rs = length ts" and "I s' A'"
    and "\<forall>r \<in> set rs. r = 0 \<Longrightarrow> A' = M" and "\<exists>r \<in> set rs. r \<noteq> 0 \<Longrightarrow> Bad"
  using assms(2)
proof (induction sched arbitrary: s A ts thesis)
  case Nil
  have W: "I s A" "A + pending ts \<subseteq># M" "\<forall>t \<in> set ts. snd t \<noteq> 0 \<longrightarrow> fst t = []"
    "(\<forall>t \<in> set ts. snd t = 0) \<Longrightarrow> A + pending ts = M" "(\<exists>t \<in> set ts. snd t \<noteq> 0) \<longrightarrow> Bad"
    using Nil.prems(2) by (auto simp: threads_ok_def split: if_splits)
  obtain s' rs A' where r: "finish_threads f s ts = Some (s', rs)" "length rs = length ts" "I s' A'"
      "\<forall>r \<in> set rs. r = 0 \<Longrightarrow> A' = A + pending ts" "\<exists>r \<in> set rs. r \<noteq> 0 \<Longrightarrow> Bad"
    using finish_threads_inv [OF assms(1) W(1,2,3,5)] by metis
  have codes: "\<forall>t \<in> set ts. snd t = 0" if "\<forall>r \<in> set rs. r = 0"
    using finish_codes [OF r(1)] that by blast
  show ?case using Nil.prems(1) [of s' rs A'] r W(4) codes by simp
next
  case (Cons i sched)
  show ?case
  proof (cases "i < length ts")
    case True
    obtain s' t' A' where st: "thread_step f s (ts ! i) = Some (s', t')"
        and ok: "threads_ok I M Bad s' A' (ts[i := t'])"
      using thread_step_ok [OF assms(1) Cons.prems(2) True] .
    have "sched_run f (i # sched) s ts = sched_run f sched s' (ts[i := t'])" using True st by simp
    then show ?thesis using Cons.IH [OF _ ok] Cons.prems(1) by (metis length_list_update)
  next
    case False
    then show ?thesis using Cons.IH [OF _ Cons.prems(2)] Cons.prems(1) by (metis sched_run.simps(2))
  qed
qed

theorem run_threads_inv:
  assumes "body_inv f I (mset (concat slices)) Bad" and "I s {#}"
  obtains s' rs A where "run_threads f sched s slices = Some (s', rs)" and "length rs = length slices" and "I s' A"
    and "\<forall>r \<in> set rs. r = 0 \<Longrightarrow> A = mset (concat slices)" and "\<exists>r \<in> set rs. r \<noteq> 0 \<Longrightarrow> Bad"
proof -
  have "pending (map (\<lambda>xs. (xs, 0 :: int)) slices) = mset (concat slices)"
    by (simp add: pending_def comp_def)
  then have "threads_ok I (mset (concat slices)) Bad s {#} (map (\<lambda>xs. (xs, 0)) slices)"
    using assms(2) by (simp add: threads_ok_def)
  then show ?thesis
    using sched_run_ok [OF assms(1), of s "{#}" "map (\<lambda>xs. (xs, 0)) slices"] that
    unfolding run_threads_def by (metis length_map)
qed

text \<open>A body that never returns a code.\<close>

corollary run_threads_total:
  assumes "body_inv f I (mset (concat slices)) False" and "I s {#}"
  obtains s' rs where "run_threads f sched s slices = Some (s', rs)" and "length rs = length slices"
    and "\<forall>r \<in> set rs. r = 0" and "I s' (mset (concat slices))"
  using run_threads_inv [OF assms] by metis

end
