(* ===== verification/Perfect_Hash.thy ===== *)
theory Perfect_Hash
  imports Join_Column Thread_Sched "HOL-Library.Signed_Division" "HOL-Library.Monad_Syntax"
begin

text \<open>
  The perfect-hash join tables: the slot arithmetic of \<open>JoinHashTable/Runtime/JoinHashImpl.h\<close>,
  the parallel build phases of \<open>JoinHashTable/Runtime/HashJoinRuntime.cpp\<close>, the builder of
  \<open>JoinHashTable/Builders/PerfectHashTableBuilder.h\<close>, and the probes of \<open>GroupByRuntime.cpp\<close>
  together with the matching set that \<open>HashJoin::codegenMatchingSet\<close> emits.  This theory holds
  the definitions; the proofs are in \<open>Perfect_Hash_Build\<close> and \<open>Perfect_Hash_Props\<close>.

  A hash buffer is a list of \<open>int32_t\<close> values and a pointer into it is an offset; \<open>None\<close> is an
  access outside the buffer.  The one-to-many layout keeps positions, counts and row ids in one
  buffer, at the offsets 0, \<open>hash_entry_count\<close> and \<open>2 * hash_entry_count\<close>.
\<close>

section \<open>Buffers\<close>

definition load :: "int list \<Rightarrow> int \<Rightarrow> int option" where
  "load buff p = (if 0 \<le> p \<and> p < int (length buff) then Some (buff ! nat p) else None)"

definition store :: "int list \<Rightarrow> int \<Rightarrow> int \<Rightarrow> int list option" where
  "store buff p v = (if 0 \<le> p \<and> p < int (length buff) then Some (buff[nat p := v]) else None)"

text \<open>\<open>__sync_val_compare_and_swap\<close> and \<open>__sync_fetch_and_add\<close>: the old value and the new buffer.\<close>

definition insert_key_cas :: "int list \<Rightarrow> int \<Rightarrow> int \<Rightarrow> int \<Rightarrow> (int list \<times> int) option" where
  "insert_key_cas buff address compare val = do {
     old \<leftarrow> load buff address;
     buff' \<leftarrow> store buff address (if old = compare then to_i32 val else old);
     Some (buff', old) }"

definition mapd_add :: "int list \<Rightarrow> int \<Rightarrow> int \<Rightarrow> (int list \<times> int) option" where
  "mapd_add buff address val = do {
     old \<leftarrow> load buff address;
     buff' \<leftarrow> store buff address (to_i32 (old + val));
     Some (buff', old) }"

section \<open>Slots\<close>

definition fill_one_to_one_hashtable :: "nat \<Rightarrow> int list \<Rightarrow> int \<Rightarrow> int \<Rightarrow> (int list \<times> int) option" where
  "fill_one_to_one_hashtable idx buff entry_ptr invalid_slot_val = do {
     (buff', old) \<leftarrow> insert_key_cas buff entry_ptr invalid_slot_val (int idx);
     Some (buff', if old \<noteq> invalid_slot_val then - 1 else 0) }"

definition fill_hashtable_for_semi_join :: "nat \<Rightarrow> int list \<Rightarrow> int \<Rightarrow> int \<Rightarrow> (int list \<times> int) option" where
  "fill_hashtable_for_semi_join idx buff entry_ptr invalid_slot_val = do {
     (buff', old) \<leftarrow> insert_key_cas buff entry_ptr invalid_slot_val (int idx);
     Some (buff', 0) }"

definition get_bucketized_hash_slot :: "int \<Rightarrow> int \<Rightarrow> int \<Rightarrow> int \<Rightarrow> int" where
  "get_bucketized_hash_slot buff key min_key bucket_normalization = buff + (key - min_key) sdiv bucket_normalization"

definition get_hash_slot :: "int \<Rightarrow> int \<Rightarrow> int \<Rightarrow> int" where
  "get_hash_slot buff key min_key = buff + (key - min_key)"

section \<open>Initialisation\<close>

definition init_body :: "int \<Rightarrow> (int list, int) body" where
  "init_body invalid_slot_val groups_buffer pos = do {
     groups_buffer' \<leftarrow> store groups_buffer pos invalid_slot_val; Some (groups_buffer', 0) }"

text \<open>The scalar loop.\<close>

definition init_hash_join_buff_cpu :: "int list \<Rightarrow> int \<Rightarrow> int \<Rightarrow> int \<Rightarrow> (int list \<times> int) option" where
  "init_hash_join_buff_cpu groups_buffer invalid_slot_val start end' =
     thread_run (init_body invalid_slot_val) groups_buffer [start..end' - 1]"

text \<open>The AVX512 variant: single stores up to an aligned address, stores of 16 elements at a
  time, and single stores for the tail.  \<open>address\<close> is the address of the buffer.\<close>

definition vec_store :: "int \<Rightarrow> (int list, int) body" where
  "vec_store invalid_slot_val groups_buffer pos =
     thread_run (init_body invalid_slot_val) groups_buffer [pos..pos + 15]"

definition init_hash_join_buff_avx512 :: "u64 \<Rightarrow> int list \<Rightarrow> int \<Rightarrow> int \<Rightarrow> int \<Rightarrow> (int list \<times> int) option" where
  "init_hash_join_buff_avx512 address groups_buffer invalid_slot_val start end' =
     (let align_iters = uint (and (64 - (address + of_int (4 * start))) 0x3F) div 4;
          align_end = min (start + align_iters) end';
          pos1 = max start align_end;
          vec_end = pos1 + (end' - pos1) sdiv 16 * 16;
          pos2 = max pos1 vec_end
      in do {
        (buff1, _) \<leftarrow> thread_run (init_body invalid_slot_val) groups_buffer [start..align_end - 1];
        (buff2, _) \<leftarrow> thread_run (vec_store invalid_slot_val) buff1 (map (\<lambda>k. pos1 + 16 * int k) [0..<nat ((vec_end - pos1) div 16)]);
        thread_run (init_body invalid_slot_val) buff2 [pos2..end' - 1] })"

text \<open>The range of one thread; the end is kept in an \<open>int32_t\<close>.\<close>

definition init_range :: "int \<Rightarrow> int \<Rightarrow> int \<Rightarrow> int \<times> int" where
  "init_range hash_entry_count cpu_thread_idx cpu_thread_count =
     ((hash_entry_count * cpu_thread_idx) sdiv cpu_thread_count,
      to_i32 ((hash_entry_count * (cpu_thread_idx + 1)) sdiv cpu_thread_count))"

definition init_hash_join_buff :: "int list \<Rightarrow> int \<Rightarrow> int \<Rightarrow> int \<Rightarrow> int \<Rightarrow> (int list \<times> int) option" where
  "init_hash_join_buff groups_buffer hash_entry_count invalid_slot_val cpu_thread_idx cpu_thread_count =
     (case init_range hash_entry_count cpu_thread_idx cpu_thread_count of
        (start, end') \<Rightarrow> init_hash_join_buff_cpu groups_buffer invalid_slot_val start end')"

text \<open>All the initialising threads of a builder.\<close>

definition init_all :: "nat list \<Rightarrow> nat \<Rightarrow> int list \<Rightarrow> int \<Rightarrow> int \<Rightarrow> int list option" where
  "init_all sched thread_count buff hash_entry_count invalid_slot_val =
     map_option fst (run_threads (init_body invalid_slot_val) sched buff
       (map (\<lambda>t. case init_range hash_entry_count (int t) (int thread_count) of (start, end') \<Rightarrow> [start..end' - 1])
          [0..<thread_count]))"

section \<open>From a column element to its key\<close>

definition INVALID_STR_ID :: int where "INVALID_STR_ID = - 1"

definition map_str_id_to_outer_dict :: "int \<Rightarrow> int \<Rightarrow> int \<Rightarrow> int \<Rightarrow> int list \<Rightarrow> int option" where
  "map_str_id_to_outer_dict inner_elem min_inner_elem min_outer_elem max_outer_elem translation_map = do {
     outer_id \<leftarrow> load translation_map (inner_elem - min_inner_elem);
     Some (if outer_id > max_outer_elem \<or> outer_id < min_outer_elem then INVALID_STR_ID else outer_id) }"

text \<open>
  The part that the loops of \<open>fill_hash_join_buff_impl\<close>, \<open>count_matches_impl\<close> and
  \<open>fill_row_ids_impl\<close> share: a null is skipped or translated, a dictionary id is translated.
  \<open>Some None\<close> means that the row is skipped.
\<close>

definition translate_elem :: "JoinColumnTypeInfo \<Rightarrow> int list option \<Rightarrow> int \<Rightarrow> int \<Rightarrow> int option option" where
  "translate_elem type_info translation_map min_inner_elem elem0 =
     (if elem0 = null_val type_info \<and> \<not> uses_bw_eq type_info then Some None
      else let elem = (if elem0 = null_val type_info then translated_null_val type_info else elem0) in
      case translation_map of
        None \<Rightarrow> Some (Some elem)
      | Some tm \<Rightarrow>
          if \<not> uses_bw_eq type_info \<or> elem \<noteq> translated_null_val type_info
          then do {
            outer_id \<leftarrow> map_str_id_to_outer_dict elem min_inner_elem (min_val type_info) (max_val type_info) tm;
            Some (if outer_id = INVALID_STR_ID then None else Some outer_id) }
          else Some (Some elem))"

section \<open>One-to-one tables\<close>

definition fill_body ::
    "JoinColumnTypeInfo \<Rightarrow> int list option \<Rightarrow> int \<Rightarrow> (int list \<Rightarrow> int \<Rightarrow> nat \<Rightarrow> (int list \<times> int) option)
     \<Rightarrow> (int list, nat \<times> int) body" where
  "fill_body type_info translation_map min_inner_elem filling_func buff item = do {
     elem \<leftarrow> translate_elem type_info translation_map min_inner_elem (snd item);
     case elem of
       None \<Rightarrow> Some (buff, 0)
     | Some e \<Rightarrow> do { (buff', r) \<leftarrow> filling_func buff e (fst item); Some (buff', if r \<noteq> 0 then - 1 else 0) } }"

definition fill_hash_join_buff_impl ::
    "int list \<Rightarrow> JoinColumn \<Rightarrow> JoinColumnTypeInfo \<Rightarrow> int list option \<Rightarrow> int \<Rightarrow> nat \<Rightarrow> nat
     \<Rightarrow> (int list \<Rightarrow> int \<Rightarrow> nat \<Rightarrow> (int list \<times> int) option) \<Rightarrow> (int list \<times> int) option" where
  "fill_hash_join_buff_impl buff join_column type_info translation_map min_inner_elem cpu_thread_idx cpu_thread_count filling_func = do {
     items \<leftarrow> slice_elements join_column type_info cpu_thread_idx cpu_thread_count;
     thread_run (fill_body type_info translation_map min_inner_elem filling_func) buff items }"

text \<open>The filling functions of \<open>fill_hash_join_buff_bucketized\<close> and \<open>fill_hash_join_buff\<close>.\<close>

definition filling_func :: "(int \<Rightarrow> int) \<Rightarrow> bool \<Rightarrow> int \<Rightarrow> int list \<Rightarrow> int \<Rightarrow> nat \<Rightarrow> (int list \<times> int) option" where
  "filling_func slot for_semi_join invalid_slot_val buff elem idx =
     (if for_semi_join then fill_hashtable_for_semi_join idx buff (slot elem) invalid_slot_val
      else fill_one_to_one_hashtable idx buff (slot elem) invalid_slot_val)"

definition fill_hash_join_buff_bucketized ::
    "int list \<Rightarrow> int \<Rightarrow> bool \<Rightarrow> JoinColumn \<Rightarrow> JoinColumnTypeInfo \<Rightarrow> int list option \<Rightarrow> int \<Rightarrow> nat \<Rightarrow> nat \<Rightarrow> int
     \<Rightarrow> (int list \<times> int) option" where
  "fill_hash_join_buff_bucketized buff invalid_slot_val for_semi_join join_column type_info translation_map
     min_inner_elem cpu_thread_idx cpu_thread_count bucket_normalization =
     fill_hash_join_buff_impl buff join_column type_info translation_map min_inner_elem cpu_thread_idx cpu_thread_count
       (filling_func (\<lambda>elem. get_bucketized_hash_slot 0 elem (min_val type_info) bucket_normalization) for_semi_join invalid_slot_val)"

definition fill_hash_join_buff ::
    "int list \<Rightarrow> int \<Rightarrow> bool \<Rightarrow> JoinColumn \<Rightarrow> JoinColumnTypeInfo \<Rightarrow> int list option \<Rightarrow> int \<Rightarrow> nat \<Rightarrow> nat
     \<Rightarrow> (int list \<times> int) option" where
  "fill_hash_join_buff buff invalid_slot_val for_semi_join join_column type_info translation_map
     min_inner_elem cpu_thread_idx cpu_thread_count =
     fill_hash_join_buff_impl buff join_column type_info translation_map min_inner_elem cpu_thread_idx cpu_thread_count
       (filling_func (\<lambda>elem. get_hash_slot 0 elem (min_val type_info)) for_semi_join invalid_slot_val)"

section \<open>Prefix sums\<close>

fun scan_from :: "int \<Rightarrow> int list \<Rightarrow> int list" where
  "scan_from acc [] = []"
| "scan_from acc (x # xs) = to_i32 (acc + x) # scan_from (to_i32 (acc + x)) xs"

text \<open>The sum a scanning loop ends with.\<close>

definition scan_sum :: "int list \<Rightarrow> int" where
  "scan_sum xs = (if xs = [] then 0 else last (scan_from 0 xs))"

text \<open>The \<open>[start_off, end_off)\<close> ranges of the threads, as the loop header computes them.\<close>

fun scan_ranges :: "nat \<Rightarrow> nat \<Rightarrow> nat \<Rightarrow> nat \<Rightarrow> (nat \<times> nat) list" where
  "scan_ranges step elem_count start_off 0 = []"
| "scan_ranges step elem_count start_off (Suc threads) =
     (start_off, min (start_off + step) elem_count) # scan_ranges step elem_count (min (start_off + step) elem_count) threads"

definition sublist_at :: "nat \<times> nat \<Rightarrow> 'a list \<Rightarrow> 'a list" where
  "sublist_at r xs = take (snd r - fst r) (drop (fst r) xs)"

definition write_at :: "nat \<Rightarrow> 'a list \<Rightarrow> 'a list \<Rightarrow> 'a list" where
  "write_at start ys xs = take start xs @ ys @ drop (start + length ys) xs"

definition add_range :: "(nat \<times> nat) \<times> int \<Rightarrow> int list \<Rightarrow> int list" where
  "add_range rp out =
     (case rp of (r, prev_sum) \<Rightarrow> write_at (fst r) (map (\<lambda>v. to_i32 (v + prev_sum)) (sublist_at r out)) out)"

text \<open>The input and the output are the same vector; the ranges of the threads are disjoint, so
  each thread is one update of its range.\<close>

definition inclusive_scan :: "int list \<Rightarrow> nat \<Rightarrow> int list" where
  "inclusive_scan xs thread_count =
     (let elem_count = length xs in
      if elem_count < 10000 \<or> thread_count \<le> 1 then scan_from 0 xs
      else
        let step = (elem_count + thread_count - 1) div thread_count;
            ranges = scan_ranges step elem_count 0 thread_count;
            out = fold (\<lambda>r out. write_at (fst r) (scan_from 0 (sublist_at r xs)) out) ranges xs;
            partial_sums = scan_from 0 (map (\<lambda>r. scan_sum (sublist_at r xs)) ranges);
            ranges' = scan_ranges step elem_count (min step elem_count) (thread_count - 1)
        in fold add_range (zip ranges' partial_sums) out)"

section \<open>One-to-many tables\<close>

text \<open>\<open>target\<close> gives the slot offset of an element, \<open>Some None\<close> when its row is skipped.\<close>

definition perfect_target ::
    "JoinColumnTypeInfo \<Rightarrow> int list option \<Rightarrow> int \<Rightarrow> (int \<Rightarrow> int) \<Rightarrow> nat \<times> int \<Rightarrow> int option option" where
  "perfect_target type_info translation_map min_inner_elem slot_selector item =
     map_option (map_option slot_selector) (translate_elem type_info translation_map min_inner_elem (snd item))"

definition count_body :: "nat \<Rightarrow> ('a \<Rightarrow> int option option) \<Rightarrow> (int list, 'a) body" where
  "count_body hash_entry_count target buff item = do {
     slot \<leftarrow> target item;
     case slot of
       None \<Rightarrow> Some (buff, 0)
     | Some bin_idx \<Rightarrow> do { (buff', _) \<leftarrow> mapd_add buff (int hash_entry_count + bin_idx) 1; Some (buff', 0) } }"

definition fill_row_ids_body :: "nat \<Rightarrow> ('a \<Rightarrow> int option option) \<Rightarrow> ('a \<Rightarrow> nat) \<Rightarrow> (int list, 'a) body" where
  "fill_row_ids_body hash_entry_count target row buff item = do {
     slot \<leftarrow> target item;
     case slot of
       None \<Rightarrow> Some (buff, 0)
     | Some bin_idx \<Rightarrow> do {
         (buff', old) \<leftarrow> mapd_add buff (int hash_entry_count + bin_idx) 1;
         pos \<leftarrow> load buff' bin_idx;
         buff'' \<leftarrow> store buff' (2 * int hash_entry_count + to_i32 (old + pos)) (to_i32 (int (row item)));
         Some (buff'', 0) } }"

definition count_matches_impl ::
    "nat \<Rightarrow> int list \<Rightarrow> JoinColumn \<Rightarrow> JoinColumnTypeInfo \<Rightarrow> int list option \<Rightarrow> int \<Rightarrow> nat \<Rightarrow> nat \<Rightarrow> (int \<Rightarrow> int)
     \<Rightarrow> (int list \<times> int) option" where
  "count_matches_impl hash_entry_count buff join_column type_info translation_map min_inner_elem
     cpu_thread_idx cpu_thread_count slot_selector = do {
     items \<leftarrow> slice_elements join_column type_info cpu_thread_idx cpu_thread_count;
     thread_run (count_body hash_entry_count (perfect_target type_info translation_map min_inner_elem slot_selector)) buff items }"

definition fill_row_ids_impl ::
    "nat \<Rightarrow> int list \<Rightarrow> JoinColumn \<Rightarrow> JoinColumnTypeInfo \<Rightarrow> int list option \<Rightarrow> int \<Rightarrow> nat \<Rightarrow> nat \<Rightarrow> (int \<Rightarrow> int)
     \<Rightarrow> (int list \<times> int) option" where
  "fill_row_ids_impl hash_entry_count buff join_column type_info translation_map min_inner_elem
     cpu_thread_idx cpu_thread_count slot_selector = do {
     items \<leftarrow> slice_elements join_column type_info cpu_thread_idx cpu_thread_count;
     thread_run (fill_row_ids_body hash_entry_count (perfect_target type_info translation_map min_inner_elem slot_selector) fst) buff items }"

text \<open>\<open>memset\<close> of the counts.\<close>

definition zero_counts :: "nat \<Rightarrow> int list \<Rightarrow> int list option" where
  "zero_counts hash_entry_count buff =
     (if 2 * hash_entry_count \<le> length buff
      then Some (write_at hash_entry_count (replicate hash_entry_count 0) buff) else None)"

definition pos_body :: "nat \<Rightarrow> int list \<Rightarrow> (int list, nat) body" where
  "pos_body hash_entry_count count_copy buff i = do {
     c \<leftarrow> load buff (int (hash_entry_count + i));
     buff' \<leftarrow> (if c \<noteq> 0 then do { p \<leftarrow> load count_copy (int i); store buff (int i) p } else Some buff);
     Some (buff', 0) }"

record schedules =
  count_sched :: "nat list"
  pos_sched :: "nat list"
  rowid_sched :: "nat list"

text \<open>
  The phases of \<open>fill_one_to_many_hash_table_impl\<close>, each run by \<open>cpu_thread_count\<close> threads that
  are joined before the next phase starts.  \<open>slices\<close> are the elements of each thread.  The
  function aborts on its check when there is no entry (\<open>None\<close>).
\<close>

definition fill_one_to_many_phases ::
    "schedules \<Rightarrow> nat \<Rightarrow> int list \<Rightarrow> nat \<Rightarrow> (int list, 'a) body \<Rightarrow> (int list, 'a) body \<Rightarrow> 'a list list \<Rightarrow> int list option" where
  "fill_one_to_many_phases sc cpu_thread_count buff hash_entry_count count_matches_func fill_row_ids_func slices = do {
     buff1 \<leftarrow> zero_counts hash_entry_count buff;
     (buff2, _) \<leftarrow> run_threads count_matches_func (count_sched sc) buff1 slices;
     (if hash_entry_count = 0 then None else do {
       let count_copy = inclusive_scan (0 # take (hash_entry_count - 1) (drop hash_entry_count buff2)) cpu_thread_count;
       (buff3, _) \<leftarrow> run_threads (pos_body hash_entry_count count_copy) (pos_sched sc) buff2
                        (map (\<lambda>t. strided t cpu_thread_count hash_entry_count) [0..<cpu_thread_count]);
       buff4 \<leftarrow> zero_counts hash_entry_count buff3;
       (buff5, _) \<leftarrow> run_threads fill_row_ids_func (rowid_sched sc) buff4 slices;
       Some buff5 }) }"

fun collect :: "'a option list \<Rightarrow> 'a list option" where
  "collect [] = Some []"
| "collect (None # xs) = None"
| "collect (Some x # xs) = map_option ((#) x) (collect xs)"

definition fill_one_to_many_hash_table_impl ::
    "schedules \<Rightarrow> int list \<Rightarrow> nat \<Rightarrow> JoinColumn \<Rightarrow> JoinColumnTypeInfo \<Rightarrow> int list option \<Rightarrow> int \<Rightarrow> nat \<Rightarrow> (int \<Rightarrow> int) \<Rightarrow> int list option" where
  "fill_one_to_many_hash_table_impl sc buff hash_entry_count join_column type_info translation_map min_inner_elem
     cpu_thread_count slot_selector = do {
     slices \<leftarrow> collect (map (\<lambda>t. slice_elements join_column type_info t cpu_thread_count) [0..<cpu_thread_count]);
     let target = perfect_target type_info translation_map min_inner_elem slot_selector;
     fill_one_to_many_phases sc cpu_thread_count buff hash_entry_count
       (count_body hash_entry_count target) (fill_row_ids_body hash_entry_count target fst) slices }"

section \<open>Hash entry counts\<close>

record HashEntryInfo =
  hash_entry_count :: nat
  bucket_normalization :: int

datatype join_error = NeedsOneToManyHash | TooManyHashEntries | CheckFailed

definition getNormalizedHashEntryCount :: "HashEntryInfo \<Rightarrow> nat option" where
  "getNormalizedHashEntryCount hei =
     (if bucket_normalization hei \<le> 0 then None
      else let bn = nat (bucket_normalization hei);
               modulo_res = hash_entry_count hei mod bn; entry_count = hash_entry_count hei div bn
           in Some (if modulo_res \<noteq> 0 then entry_count + 1 else entry_count))"

text \<open>The integer range of a column and its bucket.\<close>

record col_range =
  int_min :: int
  int_max :: int
  bucket :: int
  has_nulls :: bool

definition get_bucketized_hash_entry_info :: "bool \<Rightarrow> col_range \<Rightarrow> bool \<Rightarrow> join_error + HashEntryInfo" where
  "get_bucketized_hash_entry_info is_date cr is_bw_eq =
     (if int_min cr > int_max cr
      then if int_min cr \<noteq> 0 \<or> int_max cr \<noteq> - 1 then Inl CheckFailed
           else Inr \<lparr>hash_entry_count = if is_bw_eq then 1 else 0, bucket_normalization = 1\<rparr>
      else if int_min cr = - (2 ^ 63) \<and> int_max cr = 2 ^ 63 - 1 then Inl TooManyHashEntries
      else let bn = (if is_date then bucket cr else 1) in
           if bn \<le> 0 then Inl CheckFailed
           else Inr \<lparr>hash_entry_count = nat ((int_max cr - int_min cr + 1 + (if is_bw_eq then 1 else 0)) mod 2 ^ 64),
                     bucket_normalization = bn\<rparr>)"

definition fill_one_to_many_hash_table ::
    "schedules \<Rightarrow> int list \<Rightarrow> HashEntryInfo \<Rightarrow> JoinColumn \<Rightarrow> JoinColumnTypeInfo \<Rightarrow> int list option \<Rightarrow> int \<Rightarrow> nat \<Rightarrow> int list option" where
  "fill_one_to_many_hash_table sc buff hei join_column type_info translation_map min_inner_elem cpu_thread_count =
     fill_one_to_many_hash_table_impl sc buff (hash_entry_count hei) join_column type_info translation_map min_inner_elem
       cpu_thread_count (\<lambda>elem. get_hash_slot 0 elem (min_val type_info))"

definition fill_one_to_many_hash_table_bucketized ::
    "schedules \<Rightarrow> int list \<Rightarrow> HashEntryInfo \<Rightarrow> JoinColumn \<Rightarrow> JoinColumnTypeInfo \<Rightarrow> int list option \<Rightarrow> int \<Rightarrow> nat \<Rightarrow> int list option" where
  "fill_one_to_many_hash_table_bucketized sc buff hei join_column type_info translation_map min_inner_elem cpu_thread_count = do {
     n \<leftarrow> getNormalizedHashEntryCount hei;
     fill_one_to_many_hash_table_impl sc buff n join_column type_info translation_map min_inner_elem
       cpu_thread_count (\<lambda>elem. get_bucketized_hash_slot 0 elem (min_val type_info) (bucket_normalization hei)) }"

section \<open>The builder\<close>

datatype HashType = OneToOne | OneToMany | ManyToMany

record PerfectHashTable =
  layout :: HashType
  entry_count :: nat
  emitted_keys_count :: nat
  cpu_hash_table_buff :: "int list"

text \<open>The constructor for the CPU; \<open>heap\<close> is what the freshly allocated array happens to hold.\<close>

definition new_PerfectHashTable :: "(nat \<Rightarrow> int) \<Rightarrow> HashType \<Rightarrow> nat \<Rightarrow> nat \<Rightarrow> PerfectHashTable" where
  "new_PerfectHashTable heap lay entries emitted =
     (let buff_size = (if lay = OneToOne then entries else 2 * entries + emitted)
      in \<lparr>layout = lay, entry_count = entries, emitted_keys_count = emitted,
          cpu_hash_table_buff = map heap [0..<buff_size]\<rparr>)"

text \<open>What the builder reads of the inner column's type.\<close>

record inner_type =
  is_date :: bool
  type_size :: nat
  type_null :: int
  type_kind :: ColumnType

definition builder_type_info :: "inner_type \<Rightarrow> col_range \<Rightarrow> bool \<Rightarrow> JoinColumnTypeInfo" where
  "builder_type_info ty cr is_bitwise_eq =
     \<lparr>ti_elem_sz = type_size ty, min_val = int_min cr, max_val = int_max cr, null_val = type_null ty,
      uses_bw_eq = is_bitwise_eq, translated_null_val = int_max cr + 1, column_type = type_kind ty\<rparr>"

text \<open>The string translation map: its data and the first inner id.\<close>

type_synonym id_map = "(int list \<times> int) option"

definition map_data :: "id_map \<Rightarrow> int list option" where "map_data m = map_option fst m"

definition map_start :: "id_map \<Rightarrow> int" where "map_start m = (case m of None \<Rightarrow> 0 | Some (_, s) \<Rightarrow> s)"

record build_env =
  env_heap :: "nat \<Rightarrow> int"
  env_threads :: nat
  env_init_sched :: "nat list"
  env_fill_sched :: "nat list"
  env_many_scheds :: schedules

text \<open>
  The outer option is an access outside a buffer (or a failed check of the entry count); the
  error of the one-to-one builder is thrown when any thread reported a collision.
\<close>

definition initOneToOneHashTableOnCpu ::
    "build_env \<Rightarrow> JoinColumn \<Rightarrow> col_range \<Rightarrow> bool \<Rightarrow> inner_type \<Rightarrow> id_map \<Rightarrow> bool \<Rightarrow> HashType \<Rightarrow> HashEntryInfo \<Rightarrow> int
     \<Rightarrow> (join_error + PerfectHashTable) option" where
  "initOneToOneHashTableOnCpu env join_column cr is_bitwise_eq ty str_map for_semi_join hash_type hei hash_join_invalid_val = do {
     n \<leftarrow> getNormalizedHashEntryCount hei;
     let table = new_PerfectHashTable (env_heap env) hash_type n 0;
     let type_info = builder_type_info ty cr is_bitwise_eq;
     buff \<leftarrow> init_all (env_init_sched env) (env_threads env) (cpu_hash_table_buff table) (int n) hash_join_invalid_val;
     slices \<leftarrow> collect (map (\<lambda>t. slice_elements join_column type_info t (env_threads env)) [0..<env_threads env]);
     (buff', codes) \<leftarrow> run_threads
        (fill_body type_info (map_data str_map) (map_start str_map)
          (filling_func (\<lambda>elem. get_bucketized_hash_slot 0 elem (min_val type_info) (bucket_normalization hei))
             for_semi_join hash_join_invalid_val))
        (env_fill_sched env) buff slices;
     Some (if \<exists>c \<in> set codes. c \<noteq> 0 then Inl NeedsOneToManyHash else Inr (table\<lparr>cpu_hash_table_buff := buff'\<rparr>)) }"

definition initOneToManyHashTableOnCpu ::
    "build_env \<Rightarrow> JoinColumn \<Rightarrow> col_range \<Rightarrow> bool \<Rightarrow> inner_type \<Rightarrow> id_map \<Rightarrow> HashEntryInfo \<Rightarrow> int \<Rightarrow> PerfectHashTable option" where
  "initOneToManyHashTableOnCpu env join_column cr is_bitwise_eq ty str_map hei hash_join_invalid_val = do {
     n \<leftarrow> getNormalizedHashEntryCount hei;
     let table = new_PerfectHashTable (env_heap env) OneToMany n (num_elems join_column);
     let type_info = builder_type_info ty cr is_bitwise_eq;
     buff \<leftarrow> init_all (env_init_sched env) (env_threads env) (cpu_hash_table_buff table) (int n) hash_join_invalid_val;
     buff' \<leftarrow> (if is_date ty
               then fill_one_to_many_hash_table_bucketized (env_many_scheds env) buff hei join_column type_info
                      (map_data str_map) (map_start str_map) (env_threads env)
               else fill_one_to_many_hash_table (env_many_scheds env) buff hei join_column type_info
                      (map_data str_map) (map_start str_map) (env_threads env));
     Some (table\<lparr>cpu_hash_table_buff := buff'\<rparr>) }"

section \<open>Probes\<close>

text \<open>\<open>hash_buff\<close> is the offset of the part of the buffer that is read.\<close>

definition bucketized_hash_join_idx :: "int list \<Rightarrow> int \<Rightarrow> int \<Rightarrow> int \<Rightarrow> int \<Rightarrow> int \<Rightarrow> int option" where
  "bucketized_hash_join_idx buff hash_buff key min_key max_key bn =
     (if min_key \<le> key \<and> key \<le> max_key then load buff (get_bucketized_hash_slot hash_buff key min_key bn) else Some (- 1))"

definition hash_join_idx :: "int list \<Rightarrow> int \<Rightarrow> int \<Rightarrow> int \<Rightarrow> int \<Rightarrow> int option" where
  "hash_join_idx buff hash_buff key min_key max_key =
     (if min_key \<le> key \<and> key \<le> max_key then load buff (get_hash_slot hash_buff key min_key) else Some (- 1))"

definition bucketized_hash_join_idx_nullable :: "int list \<Rightarrow> int \<Rightarrow> int \<Rightarrow> int \<Rightarrow> int \<Rightarrow> int \<Rightarrow> int \<Rightarrow> int option" where
  "bucketized_hash_join_idx_nullable buff hash_buff key min_key max_key null bn =
     (if key \<noteq> null then bucketized_hash_join_idx buff hash_buff key min_key max_key bn else Some (- 1))"

definition hash_join_idx_nullable :: "int list \<Rightarrow> int \<Rightarrow> int \<Rightarrow> int \<Rightarrow> int \<Rightarrow> int \<Rightarrow> int option" where
  "hash_join_idx_nullable buff hash_buff key min_key max_key null =
     (if key \<noteq> null then hash_join_idx buff hash_buff key min_key max_key else Some (- 1))"

definition bucketized_hash_join_idx_bitwise :: "int list \<Rightarrow> int \<Rightarrow> int \<Rightarrow> int \<Rightarrow> int \<Rightarrow> int \<Rightarrow> int \<Rightarrow> int \<Rightarrow> int option" where
  "bucketized_hash_join_idx_bitwise buff hash_buff key min_key max_key null translated_val bn =
     (if key \<noteq> null then bucketized_hash_join_idx buff hash_buff key min_key max_key bn
      else bucketized_hash_join_idx buff hash_buff translated_val min_key translated_val bn)"

definition hash_join_idx_bitwise :: "int list \<Rightarrow> int \<Rightarrow> int \<Rightarrow> int \<Rightarrow> int \<Rightarrow> int \<Rightarrow> int \<Rightarrow> int option" where
  "hash_join_idx_bitwise buff hash_buff key min_key max_key null translated_val =
     (if key \<noteq> null then hash_join_idx buff hash_buff key min_key max_key
      else hash_join_idx buff hash_buff translated_val min_key translated_val)"

text \<open>
  \<open>getHashJoinArgs\<close> and the choice of the probe in \<open>codegenSlot\<close> and \<open>codegenMatchingSet\<close>:
  the emitted call for a probe key whose type is a date, nullable, with null \<open>null\<close>.
\<close>

definition probe_slot ::
    "bool \<Rightarrow> bool \<Rightarrow> bool \<Rightarrow> int \<Rightarrow> col_range \<Rightarrow> HashEntryInfo \<Rightarrow> int list \<Rightarrow> int \<Rightarrow> int \<Rightarrow> int option" where
  "probe_slot key_is_date key_nullable is_bw_eq null cr hei buff hash_buff key =
     (let mn = int_min cr; mx = int_max cr; bn = bucket_normalization hei;
          translated = (if key_is_date then mx sdiv bn + 1 else mx + 1) in
      if key_is_date
      then if is_bw_eq then bucketized_hash_join_idx_bitwise buff hash_buff key mn mx null translated bn
           else if key_nullable then bucketized_hash_join_idx_nullable buff hash_buff key mn mx null bn
           else bucketized_hash_join_idx buff hash_buff key mn mx bn
      else if is_bw_eq then hash_join_idx_bitwise buff hash_buff key mn mx null translated
           else if key_nullable then hash_join_idx_nullable buff hash_buff key mn mx null
           else hash_join_idx buff hash_buff key mn mx)"

text \<open>The size of one part of a one-to-many table, in elements.\<close>

definition getComponentBufferSize :: "PerfectHashTable \<Rightarrow> nat" where
  "getComponentBufferSize table = (if layout table = OneToMany then entry_count table else 0)"

text \<open>
  The matching set: the slot is read from the positions, the number of rows from the counts
  (0 when the slot is negative), and the rows from the row ids, starting at the slot.
\<close>

definition matching_set :: "PerfectHashTable \<Rightarrow> (int list \<Rightarrow> int \<Rightarrow> int option) \<Rightarrow> int list option" where
  "matching_set table probe = do {
     let buff = cpu_hash_table_buff table;
     let sub = int (getComponentBufferSize table);
     slot \<leftarrow> probe buff 0;
     cnt \<leftarrow> probe buff sub;
     let row_count = (if slot \<ge> 0 then cnt else 0);
     collect (map (\<lambda>k. load buff (2 * sub + slot + k)) [0..row_count - 1]) }"

text \<open>Translation of a null key before a baseline or perfect probe; \<open>key_type\<close> is any integer type.\<close>

definition translate_null_key :: "int \<Rightarrow> int \<Rightarrow> int \<Rightarrow> int" where
  "translate_null_key key null translated_val = (if key = null then translated_val else key)"

section \<open>Choosing and building a table\<close>

text \<open>The range a join on dictionary-encoded strings uses, from the ranges of the two sides.\<close>

definition string_col_range :: "col_range \<Rightarrow> col_range \<Rightarrow> join_error + col_range" where
  "string_col_range outer_range rhs_source_range =
     (if int_min rhs_source_range > int_max rhs_source_range
      then if int_min rhs_source_range \<noteq> 0 \<or> int_max rhs_source_range \<noteq> - 1 then Inl CheckFailed else Inr rhs_source_range
      else Inr \<lparr>int_min = min (int_min rhs_source_range) (int_min outer_range),
                int_max = max (int_max rhs_source_range) (int_max outer_range),
                bucket = 0, has_nulls = has_nulls rhs_source_range\<rparr>)"

record join_config =
  huge_join_hash_threshold :: nat
  huge_join_hash_min_load :: nat

text \<open>The checks of \<open>getInstance\<close> before a table is built on the CPU.\<close>

datatype perfect_check = Proceed HashEntryInfo | Refuse join_error | CannotTranslateNull

definition getInstance_checks :: "join_config \<Rightarrow> bool \<Rightarrow> col_range \<Rightarrow> bool \<Rightarrow> nat \<Rightarrow> perfect_check" where
  "getInstance_checks config is_date_type cr is_bw_eq num_tuples_upper_bound =
     (case get_bucketized_hash_entry_info is_date_type cr is_bw_eq of
        Inl err \<Rightarrow> Refuse err
      | Inr hei \<Rightarrow>
          (case getNormalizedHashEntryCount hei of
             None \<Rightarrow> Refuse CheckFailed
           | Some entries \<Rightarrow>
               if entries > 2147483647 then Refuse TooManyHashEntries
               else if entries > huge_join_hash_threshold config
                       \<and> num_tuples_upper_bound * 100 < huge_join_hash_min_load config * entries
               then Refuse TooManyHashEntries
               else if is_bw_eq \<and> int_max cr \<ge> 2 ^ 63 - 1 then CannotTranslateNull
               else Proceed hei))"

definition isOneToOneHashPossible :: "bool \<Rightarrow> col_range \<Rightarrow> bool \<Rightarrow> nat list \<Rightarrow> join_error + bool" where
  "isOneToOneHashPossible is_date_type rhs_source_range is_bw_eq num_elems_per_device =
     (case get_bucketized_hash_entry_info is_date_type rhs_source_range is_bw_eq of
        Inl err \<Rightarrow> Inl err
      | Inr hei \<Rightarrow>
          (case getNormalizedHashEntryCount hei of
             None \<Rightarrow> Inl CheckFailed
           | Some n \<Rightarrow>
               let max_unique_hash_input_entries = n + (if has_nulls rhs_source_range then 1 else 0)
               in Inr (\<forall>rows \<in> set num_elems_per_device. rows \<le> max_unique_hash_input_entries)))"

text \<open>
  \<open>initHashTableForDevice\<close> at the CPU level when no table can be recycled; \<open>Inr None\<close> is the
  early return for a table without entries, which leaves no table behind.
\<close>

definition initHashTableForDevice ::
    "build_env \<Rightarrow> JoinColumn \<Rightarrow> col_range \<Rightarrow> bool \<Rightarrow> inner_type \<Rightarrow> id_map \<Rightarrow> bool \<Rightarrow> HashType
     \<Rightarrow> (join_error + PerfectHashTable option) option" where
  "initHashTableForDevice env join_column cr is_bitwise_eq ty str_map for_semi_join lay =
     (case get_bucketized_hash_entry_info (is_date ty) cr is_bitwise_eq of
        Inl err \<Rightarrow> Some (Inl err)
      | Inr hei \<Rightarrow> do {
          n \<leftarrow> getNormalizedHashEntryCount hei;
          if n = 0 \<and> lay = OneToOne then Some (Inr None)
          else if lay = OneToOne
          then do {
            r \<leftarrow> initOneToOneHashTableOnCpu env join_column cr is_bitwise_eq ty str_map for_semi_join lay hei (- 1);
            Some (case r of Inl err \<Rightarrow> Inl err | Inr table \<Rightarrow> Inr (Some table)) }
          else do {
            table \<leftarrow> initOneToManyHashTableOnCpu env join_column cr is_bitwise_eq ty str_map hei (- 1);
            Some (Inr (Some table)) } })"

text \<open>\<open>reify\<close> for one device: try the preferred layout and fall back to one-to-many.\<close>

definition reify ::
    "build_env \<Rightarrow> JoinColumn \<Rightarrow> col_range \<Rightarrow> col_range \<Rightarrow> bool \<Rightarrow> inner_type \<Rightarrow> id_map \<Rightarrow> bool \<Rightarrow> HashType \<Rightarrow> nat
     \<Rightarrow> (join_error + PerfectHashTable option) option" where
  "reify env join_column cr rhs_source_range is_bitwise_eq ty str_map for_semi_join preferred num_tuples_upper_bound =
     (if num_tuples_upper_bound > 2147483647 then Some (Inl TooManyHashEntries)
      else case isOneToOneHashPossible (is_date ty) rhs_source_range is_bitwise_eq [num_elems join_column] of
        Inl err \<Rightarrow> Some (Inl err)
      | Inr possible \<Rightarrow> do {
          let hash_type = (if possible then preferred else OneToMany);
          r \<leftarrow> initHashTableForDevice env join_column cr is_bitwise_eq ty str_map for_semi_join hash_type;
          if r = Inl NeedsOneToManyHash
          then initHashTableForDevice env join_column cr is_bitwise_eq ty str_map for_semi_join OneToMany
          else Some r })"

text \<open>The rows the generated code joins with a probe key: the slot of a one-to-one table or the
  matching set.\<close>

definition joined_rows :: "PerfectHashTable \<Rightarrow> (int list \<Rightarrow> int \<Rightarrow> int option) \<Rightarrow> int list option" where
  "joined_rows table probe =
     (if layout table = OneToOne
      then do { r \<leftarrow> probe (cpu_hash_table_buff table) 0; Some (if r < 0 then [] else [r]) }
      else matching_set table probe)"

section \<open>Decoding a table\<close>

record DecodedJoinHashBufferEntry =
  dec_key :: "int list"
  payload :: "int set"

definition to_set_one_to_one :: "int list \<Rightarrow> nat \<Rightarrow> DecodedJoinHashBufferEntry set" where
  "to_set_one_to_one ptr4 entries =
     set (map (\<lambda>e. \<lparr>dec_key = [int e], payload = {ptr4 ! e}\<rparr>) (filter (\<lambda>e. ptr4 ! e \<noteq> - 1) [0..<entries]))"

definition to_set_one_to_many :: "int list \<Rightarrow> nat \<Rightarrow> DecodedJoinHashBufferEntry set" where
  "to_set_one_to_many buff entries =
     set (map (\<lambda>e. \<lparr>dec_key = [int e],
                     payload = set (map (\<lambda>j. buff ! nat (2 * int entries + buff ! e + int j)) [0..<nat (buff ! (entries + e))])\<rparr>)
            (filter (\<lambda>e. buff ! e \<noteq> - 1) [0..<entries]))"

end
