(* ===== verification/Perfect_Hash_Build.thy ===== *)
theory Perfect_Hash_Build
  imports Perfect_Hash
begin

text \<open>
  The build phases of the perfect-hash tables: initialisation, prefix sums, and the generic
  correctness of a one-to-many build.  The latter is proved once, in the locale
  \<open>row_binning\<close>, for any assignment of rows to bins, and holds for every schedule of every
  phase; the slot selectors of the perfect tables and the composite-key lookup of the baseline
  tables are its instances.
\<close>

section \<open>Buffers\<close>

lemma load_nat [simp]: "i < length buff \<Longrightarrow> load buff (int i) = Some (buff ! i)"
  by (simp add: load_def)

lemma store_nat [simp]: "i < length buff \<Longrightarrow> store buff (int i) v = Some (buff[i := v])"
  by (simp add: store_def)

lemma to_i32_id: "- (2 ^ 31) \<le> i \<Longrightarrow> i < 2 ^ 31 \<Longrightarrow> to_i32 i = i"
  by (simp add: to_i32_def signed_take_bit_int_eq_self)

lemma to_i32_nat: "n < 2 ^ 31 \<Longrightarrow> to_i32 (int n) = int n"
  by (rule to_i32_id) simp_all

lemma insert_key_cas_nat:
  "i < length buff \<Longrightarrow>
     insert_key_cas buff (int i) cmp v = Some (buff[i := if buff ! i = cmp then to_i32 v else buff ! i], buff ! i)"
  by (simp add: insert_key_cas_def)

lemma mapd_add_nat:
  "i < length buff \<Longrightarrow> mapd_add buff (int i) v = Some (buff[i := to_i32 (buff ! i + v)], buff ! i)"
  by (simp add: mapd_add_def)

section \<open>Initialisation\<close>

definition init_inv :: "int \<Rightarrow> int list \<Rightarrow> int list \<Rightarrow> int multiset \<Rightarrow> bool" where
  "init_inv v buff0 buff A \<longleftrightarrow> length buff = length buff0 \<and>
     (\<forall>i < length buff0. buff ! i = (if int i \<in># A then v else buff0 ! i))"

lemma init_body_inv:
  assumes "\<forall>p \<in># M. 0 \<le> p \<and> p < int (length buff0)"
  shows "body_inv (init_body v) (init_inv v buff0) M False"
  unfolding body_inv_def
proof (intro allI impI)
  fix buff A p assume I: "init_inv v buff0 buff A" and sub: "add_mset p A \<subseteq># M"
  have "p \<in># M" using sub by (simp add: insert_subset_eq_iff)
  then have p: "0 \<le> p" "p < int (length buff0)" using assms by auto
  then have "init_body v buff p = Some (buff[nat p := v], 0)"
    using I by (simp add: init_body_def store_def init_inv_def)
  moreover have "init_inv v buff0 (buff[nat p := v]) (add_mset p A)"
    using I p by (auto simp: init_inv_def nth_list_update)
  ultimately show "\<exists>s' r. init_body v buff p = Some (s', r) \<and>
      (if r = 0 then init_inv v buff0 s' (add_mset p A) else False \<and> init_inv v buff0 s' A)" by simp
qed

lemma step_between:
  assumes "f 0 \<le> (i :: int)" and "i < f (n :: nat)"
  shows "\<exists>t < n. f t \<le> i \<and> i < f (Suc t)"
  using assms(2)
proof (induction n)
  case 0
  then show ?case using assms(1) by simp
next
  case (Suc n)
  then show ?case by (cases "i < f n") (auto intro: less_SucI)
qed

lemma init_range_nat:
  assumes "n < 2 ^ 31" and "t < T"
  shows "init_range (int n) (int t) (int T) = (int (n * t div T), int (n * Suc t div T))"
proof -
  have "n * Suc t div T \<le> n * T div T" using assms(2) by (intro div_le_mono mult_le_mono) auto
  also have "\<dots> = n" using assms(2) by simp
  finally have le: "n * Suc t div T \<le> n" .
  have "int n * (int t + 1) sdiv int T = int (n * Suc t div T)" and "int n * int t sdiv int T = int (n * t div T)"
    by (simp_all add: signed_divide_int_def zdiv_int ac_simps sgn_if distrib_left)
  then show ?thesis using le assms(1) by (simp add: init_range_def to_i32_nat)
qed

text \<open>The threads' ranges cover the entries of the table.\<close>

lemma init_ranges_cover:
  assumes "n < 2 ^ 31" and "0 < T"
  shows "set (concat (map (\<lambda>t. case init_range (int n) (int t) (int T) of (s, e) \<Rightarrow> [s..e - 1]) [0..<T])) = {0..<int n}"
proof -
  let ?f = "\<lambda>t. int (n * t div T)"
  have "set (concat (map (\<lambda>t. case init_range (int n) (int t) (int T) of (s, e) \<Rightarrow> [s..e - 1]) [0..<T]))
        = (\<Union>t < T. {?f t..<?f (Suc t)})"
    using init_range_nat [OF assms(1)] by (auto simp: lessThan_atLeast0)
  also have "\<dots> = {0..<int n}"
  proof (intro set_eqI iffI)
    fix i assume "i \<in> (\<Union>t < T. {?f t..<?f (Suc t)})"
    then obtain t where t: "t < T" "?f t \<le> i" "i < ?f (Suc t)" by auto
    have "n * Suc t div T \<le> n * T div T" using t(1) by (intro div_le_mono mult_le_mono) auto
    also have "\<dots> = n" using assms(2) by simp
    finally show "i \<in> {0..<int n}" using t by auto
  next
    fix i assume i: "i \<in> {0..<int n}"
    have "?f T = int n" using assms(2) by simp
    then show "i \<in> (\<Union>t < T. {?f t..<?f (Suc t)})" using step_between [of ?f i T] i by auto
  qed
  finally show ?thesis .
qed

lemma init_all_spec:
  assumes "n < 2 ^ 31" and "0 < T" and "n \<le> length buff"
  shows "init_all sched T buff (int n) v = Some (replicate n v @ drop n buff)"
proof -
  let ?slices = "map (\<lambda>t. case init_range (int n) (int t) (int T) of (s, e) \<Rightarrow> [s..e - 1]) [0..<T]"
  have set: "set (concat ?slices) = {0..<int n}" by (rule init_ranges_cover [OF assms(1,2)])
  have bi: "body_inv (init_body v) (init_inv v buff) (mset (concat ?slices)) False"
    by (rule init_body_inv) (use set assms(3) in \<open>auto simp del: set_concat\<close>)
  have "init_inv v buff buff {#}" by (simp add: init_inv_def)
  then obtain buff' rs where r: "run_threads (init_body v) sched buff ?slices = Some (buff', rs)"
      "length rs = length ?slices" "\<forall>r \<in> set rs. r = 0" "init_inv v buff buff' (mset (concat ?slices))"
    by (rule run_threads_total [OF bi])
  have "buff' = replicate n v @ drop n buff"
  proof (rule nth_equalityI)
    show "length buff' = length (replicate n v @ drop n buff)" using r(4) assms(3) by (simp add: init_inv_def)
    fix i assume "i < length buff'"
    then show "buff' ! i = (replicate n v @ drop n buff) ! i"
      using r(4) assms(3) unfolding init_inv_def set_mset_mset set by (simp add: nth_append)
  qed
  then show ?thesis using r(1) by (simp add: init_all_def)
qed

text \<open>The vectorised loop and the scalar loop.\<close>

lemma init_body_code: "thread_run (init_body v) buff ps = Some (buff', r) \<Longrightarrow> r = 0"
  by (induction ps arbitrary: buff) (auto simp: init_body_def bind_eq_Some_conv split: option.splits if_splits)

lemma init_run_append:
  "thread_run (init_body v) buff (xs @ ys) =
     Option.bind (thread_run (init_body v) buff xs) (\<lambda>(buff', _). thread_run (init_body v) buff' ys)"
  by (auto simp: thread_run_append split: option.splits dest: init_body_code)

lemma vec_store_run:
  "thread_run (vec_store v) buff ps = thread_run (init_body v) buff (concat (map (\<lambda>p. [p..p + 15]) ps))"
proof (induction ps arbitrary: buff)
  case (Cons p ps)
  have "vec_store v buff p = thread_run (init_body v) buff [p..p + 15]" by (simp add: vec_store_def)
  then show ?case by (simp add: thread_run_append Cons split: option.splits)
qed simp

lemma upto_join:
  assumes "a \<le> b" and "b \<le> c + 1"
  shows "[a..b - 1] @ [b..c] = [a..c :: int]"
proof (cases "a = b \<or> b = c + 1")
  case False
  then show ?thesis using assms upto_split2 [of a "b - 1" c] by simp
qed auto

lemma concat_blocks:
  "concat (map (\<lambda>p. [p..p + 15]) (map (\<lambda>k. p + 16 * int k) [0..<n])) = [p..p + 16 * int n - 1]"
proof (induction n)
  case (Suc n)
  have "[p..p + 16 * int n - 1] @ [p + 16 * int n..p + 16 * int n + 15] = [p..p + 16 * int (Suc n) - 1]"
    using upto_join [of p "p + 16 * int n" "p + 16 * int (Suc n) - 1"] by (simp add: algebra_simps)
  then show ?case using Suc by simp
qed simp

lemma init_hash_join_buff_avx512_run:
  "init_hash_join_buff_avx512 address buff v start end' = init_hash_join_buff_cpu buff v start end'"
proof -
  define ai where "ai = uint (and (64 - (address + of_int (4 * start))) (0x3F :: u64)) div 4"
  define ae where "ae = min (start + ai) end'"
  define p1 where "p1 = max start ae"
  define ve where "ve = p1 + (end' - p1) sdiv 16 * 16"
  define p2 where "p2 = max p1 ve"
  define blocks where "blocks = map (\<lambda>k. p1 + 16 * int k) [0..<nat ((ve - p1) div 16)]"
  let ?run = "thread_run (init_body v)"
  have ai: "0 \<le> ai" unfolding ai_def by (rule pos_imp_zdiv_nonneg_iff [THEN iffD2]) simp_all
  have "?run buff ([start..ae - 1] @ concat (map (\<lambda>p. [p..p + 15]) blocks) @ [p2..end' - 1]) = ?run buff [start..end' - 1]"
  proof -
    have q: "(ve - p1) div 16 = (end' - p1) sdiv 16" by (simp add: ve_def)
    have "concat (map (\<lambda>p. [p..p + 15]) blocks) = [p1..p2 - 1]"
    proof (cases "p1 \<le> end'")
      case True
      then have "(end' - p1) sdiv 16 = (end' - p1) div 16" by (simp add: signed_divide_int_def sgn_if)
      then have "0 \<le> (end' - p1) sdiv 16" using True by (simp add: pos_imp_zdiv_nonneg_iff)
      then have "p1 + 16 * int (nat ((ve - p1) div 16)) = p2" by (simp add: p2_def ve_def)
      then show ?thesis unfolding blocks_def by (simp only: concat_blocks)
    next
      case False
      have "(end' - p1) sdiv 16 \<le> 0" using False by (simp add: signed_divide_int_def sgn_if pos_imp_zdiv_nonneg_iff)
      then have "nat ((ve - p1) div 16) = 0" "p2 = p1" using q by (simp_all add: p2_def ve_def)
      then show ?thesis by (simp add: blocks_def)
    qed
    moreover have "[start..ae - 1] @ [p1..p2 - 1] @ [p2..end' - 1] = [start..end' - 1]"
    proof (cases "start \<le> end'")
      case True
      then have le: "start \<le> ae" "ae \<le> end'" "p1 = ae" using ai by (simp_all add: ae_def p1_def)
      have "(end' - p1) sdiv 16 = (end' - p1) div 16" using le by (simp add: signed_divide_int_def sgn_if)
      then have "p2 \<le> end'" "p1 \<le> p2" using le by (simp_all add: p2_def ve_def minus_mod_eq_div_mult [symmetric])
      then show ?thesis using le upto_join [of ae p2 "end' - 1"] upto_join [of start ae "end' - 1"] by simp
    next
      case False
      then have "ae = end'" "p1 = start" using ai by (simp_all add: ae_def p1_def)
      moreover have "(end' - p1) sdiv 16 \<le> 0"
        using False \<open>p1 = start\<close> by (simp add: signed_divide_int_def sgn_if pos_imp_zdiv_nonneg_iff)
      ultimately have "p2 = start" by (simp add: p2_def ve_def)
      then show ?thesis using False \<open>ae = end'\<close> \<open>p1 = start\<close> by simp
    qed
    ultimately show ?thesis by simp
  qed
  then show ?thesis
    unfolding init_hash_join_buff_avx512_def init_hash_join_buff_cpu_def Let_def
    unfolding ai_def [symmetric] unfolding ae_def [symmetric] unfolding p1_def [symmetric]
    unfolding ve_def [symmetric] unfolding p2_def [symmetric] blocks_def [symmetric] vec_store_run
    by (simp add: init_run_append)
qed

section \<open>Prefix sums\<close>

lemma to_i32_eq_iff: "to_i32 a = to_i32 b \<longleftrightarrow> a mod 2 ^ 32 = b mod 2 ^ 32"
  by (simp add: to_i32_def signed_take_bit_eq_iff_take_bit_eq take_bit_eq_mod)

lemma to_i32_mod: "to_i32 a mod 2 ^ 32 = a mod 2 ^ 32"
  using to_i32_eq_iff [of "to_i32 a" a] by (simp add: to_i32_def)

lemma to_i32_add [simp]: "to_i32 (to_i32 a + b) = to_i32 (a + b)" "to_i32 (b + to_i32 a) = to_i32 (b + a)"
  using mod_add_left_eq [of "to_i32 a" "2 ^ 32" b] mod_add_left_eq [of a "2 ^ 32" b]
  by (simp_all only: to_i32_eq_iff to_i32_mod add.commute [of b])

lemma length_scan_from [simp]: "length (scan_from a xs) = length xs"
  by (induction xs arbitrary: a) simp_all

lemma scan_from_to_i32 [simp]: "scan_from (to_i32 a) xs = scan_from a xs"
  by (cases xs) simp_all

lemma scan_from_add [simp]: "scan_from (to_i32 a + b) xs = scan_from (a + b) xs"
  by (cases xs) (simp_all add: add.assoc)

lemma scan_from_nth: "i < length xs \<Longrightarrow> scan_from a xs ! i = to_i32 (a + sum_list (take (Suc i) xs))"
proof (induction xs arbitrary: a i)
  case (Cons x xs)
  then show ?case by (cases i) (simp_all add: add.assoc)
qed simp

lemma scan_from_append: "scan_from a (xs @ ys) = scan_from a xs @ scan_from (a + sum_list xs) ys"
  by (induction xs arbitrary: a) (simp_all add: add.assoc)

lemma scan_from_shift: "scan_from a ys = map (\<lambda>v. to_i32 (v + a)) (scan_from 0 ys)"
  by (rule nth_equalityI) (simp_all add: scan_from_nth add.commute)

lemma scan_sum_eq: "scan_sum xs = to_i32 (sum_list xs)"
proof (cases "xs = []")
  case True
  then show ?thesis by (simp add: scan_sum_def to_i32_def)
next
  case False
  then have "scan_from 0 xs \<noteq> []" by (metis length_scan_from length_0_conv)
  then have "last (scan_from 0 xs) = scan_from 0 xs ! (length xs - 1)" by (simp add: last_conv_nth)
  then show ?thesis using False by (simp add: scan_sum_def scan_from_nth)
qed

lemma scan_ranges_eq:
  "scan_ranges step n (min (t0 * step) n) k =
     map (\<lambda>t. (min (t * step) n, min (Suc t * step) n)) [t0..<t0 + k]"
proof (induction k arbitrary: t0)
  case (Suc k)
  have "min (min (t0 * step) n + step) n = min (Suc t0 * step) n" by auto
  then show ?case using Suc [of "Suc t0"] by (simp add: upt_conv_Cons del: upt_Suc)
qed simp

lemma take_scan_block:
  "s \<le> e \<Longrightarrow> scan_from 0 (take e xs) =
     scan_from 0 (take s xs) @ map (\<lambda>v. to_i32 (v + to_i32 (sum_list (take s xs)))) (scan_from 0 (sublist_at (s, e) xs))"
proof -
  assume "s \<le> e"
  then have "take e xs = take s xs @ sublist_at (s, e) xs"
    by (metis fst_conv le_add_diff_inverse snd_conv sublist_at_def take_add)
  then show ?thesis by (simp only: scan_from_append scan_from_shift [of "0 + _"]) simp
qed

lemma sum_take_block: "s \<le> e \<Longrightarrow> sum_list (take e xs) = sum_list (take s xs) + sum_list (sublist_at (s, e) xs)"
  for xs :: "int list"
  by (metis fst_conv le_add_diff_inverse snd_conv sublist_at_def take_add sum_list_append)

text \<open>The two parallel phases compute the sequential scan.\<close>

definition blk :: "nat \<Rightarrow> int list \<Rightarrow> nat \<Rightarrow> nat" where
  "blk step xs t = min (t * step) (length xs)"

definition blk_scan :: "nat \<Rightarrow> int list \<Rightarrow> nat \<Rightarrow> int list" where
  "blk_scan step xs t = scan_from 0 (sublist_at (blk step xs t, blk step xs (Suc t)) xs)"

lemma blk_le: "blk step xs t \<le> blk step xs (Suc t)" "blk step xs t \<le> length xs"
  by (auto simp: blk_def)

lemma length_blk_scan: "length (blk_scan step xs t) = blk step xs (Suc t) - blk step xs t"
  using blk_le(2) [of step xs "Suc t"] by (simp add: blk_scan_def sublist_at_def)

lemma length_concat_blks: "length (concat (map (blk_scan step xs) [0..<k])) = blk step xs k"
proof (induction k)
  case (Suc k)
  then show ?case using blk_le(1) [of step xs k] by (simp add: length_blk_scan)
qed (simp add: blk_def)

lemma scan_phase1:
  "fold (\<lambda>r out. write_at (fst r) (scan_from 0 (sublist_at r xs)) out)
     (map (\<lambda>t. (blk step xs t, blk step xs (Suc t))) [0..<k]) xs
   = concat (map (blk_scan step xs) [0..<k]) @ drop (blk step xs k) xs"
proof (induction k)
  case 0
  show ?case by (simp add: blk_def)
next
  case (Suc k)
  have "write_at (blk step xs k) (blk_scan step xs k) (concat (map (blk_scan step xs) [0..<k]) @ drop (blk step xs k) xs)
      = concat (map (blk_scan step xs) [0..<Suc k]) @ drop (blk step xs (Suc k)) xs"
    using blk_le(1) [of step xs k] length_concat_blks [of step xs k]
    by (simp add: write_at_def length_blk_scan)
  moreover define w where "w = (\<lambda>r out. write_at (fst r) (scan_from 0 (sublist_at r xs)) out)"
  moreover have "w (blk step xs k, blk step xs (Suc k)) = write_at (blk step xs k) (blk_scan step xs k)"
    by (simp add: w_def blk_scan_def fun_eq_iff)
  ultimately show ?case using Suc by simp
qed

lemma partial_sums_nth:
  assumes "t < k"
  shows "scan_from 0 (map (\<lambda>t. scan_sum (sublist_at (blk step xs t, blk step xs (Suc t)) xs)) [0..<k]) ! t
       = to_i32 (sum_list (take (blk step xs (Suc t)) xs))"
proof -
  have "to_i32 (sum_list (map (\<lambda>t. scan_sum (sublist_at (blk step xs t, blk step xs (Suc t)) xs)) [0..<j]))
      = to_i32 (sum_list (take (blk step xs j) xs))" for j
  proof (induction j)
    case (Suc j)
    let ?S = "sum_list (map (\<lambda>t. scan_sum (sublist_at (blk step xs t, blk step xs (Suc t)) xs)) [0..<j])"
      and ?b = "sum_list (sublist_at (blk step xs j, blk step xs (Suc j)) xs)"
    have "to_i32 (?S + to_i32 ?b) = to_i32 (to_i32 ?S + ?b)" by simp
    also have "\<dots> = to_i32 (sum_list (take (blk step xs j) xs) + ?b)" by (simp only: Suc to_i32_add)
    also have "\<dots> = to_i32 (sum_list (take (blk step xs (Suc j)) xs))"
      by (simp only: sum_take_block [OF blk_le(1)])
    finally show ?case by (simp add: scan_sum_eq)
  qed (simp add: blk_def)
  from this [of "Suc t"] show ?thesis using assms by (simp add: scan_from_nth take_map del: upt_Suc) 
qed

lemma scan_phase2:
  assumes "k < T" and "\<forall>t < k. ps ! t = to_i32 (sum_list (take (blk step xs (Suc t)) xs))"
  shows "fold add_range (map (\<lambda>t. ((blk step xs (Suc t), blk step xs (Suc (Suc t))), ps ! t)) [0..<k])
           (concat (map (blk_scan step xs) [0..<T]))
       = scan_from 0 (take (blk step xs (Suc k)) xs) @ concat (map (blk_scan step xs) [Suc k..<T])"
  using assms
proof (induction k)
  case 0
  have "blk_scan step xs 0 = scan_from 0 (take (blk step xs (Suc 0)) xs)"
    by (simp add: blk_scan_def blk_def sublist_at_def)
  then show ?case using 0 by (simp add: upt_conv_Cons)
next
  case (Suc k)
  let ?pre = "scan_from 0 (take (blk step xs (Suc k)) xs)" and ?b = "blk_scan step xs (Suc k)"
    and ?post = "concat (map (blk_scan step xs) [Suc (Suc k)..<T])"
  have len: "length ?pre = blk step xs (Suc k)" using blk_le(2) by simp
  have "add_range ((blk step xs (Suc k), blk step xs (Suc (Suc k))), p) (?pre @ ?b @ ?post)
      = ?pre @ map (\<lambda>v. to_i32 (v + p)) ?b @ ?post" for p
    using len length_blk_scan [of step xs "Suc k"] by (simp add: add_range_def write_at_def sublist_at_def)
  moreover have "scan_from 0 (take (blk step xs (Suc (Suc k))) xs) = ?pre @ map (\<lambda>v. to_i32 (v + ps ! k)) ?b"
    using take_scan_block [OF blk_le(1), of step xs "Suc k" xs] Suc.prems(2) by (simp add: blk_scan_def)
  moreover have "concat (map (blk_scan step xs) [Suc k..<T]) = ?b @ ?post"
    using Suc.prems(1) by (simp add: upt_conv_Cons)
  ultimately show ?case using Suc by simp
qed

lemma inclusive_scan_eq: "inclusive_scan xs T = scan_from 0 xs"
proof (cases "length xs < 10000 \<or> T \<le> 1")
  case True
  then show ?thesis by (simp add: inclusive_scan_def)
next
  case False
  define step where "step = (length xs + T - 1) div T"
  have T: "1 < T" "0 < length xs" using False by auto
  have "length xs \<le> step * T" using ceil_div_mult [of T "length xs"] T by (simp add: step_def)
  then have all: "blk step xs T = length xs" by (simp add: blk_def mult.commute)
  define ps where "ps = scan_from 0 (map (\<lambda>t. scan_sum (sublist_at (blk step xs t, blk step xs (Suc t)) xs)) [0..<T])"
  have r1: "scan_ranges step (length xs) 0 T = map (\<lambda>t. (blk step xs t, blk step xs (Suc t))) [0..<T]"
    using scan_ranges_eq [of step "length xs" 0 T] by (simp add: blk_def)
  have "scan_ranges step (length xs) (min step (length xs)) (T - 1)
      = map (\<lambda>t. (blk step xs t, blk step xs (Suc t))) [Suc 0..<T]"
    using scan_ranges_eq [of step "length xs" 1 "T - 1"] T(1) by (simp add: blk_def)
  also have "\<dots> = map (\<lambda>t. (blk step xs (Suc t), blk step xs (Suc (Suc t)))) [0..<T - 1]"
    using T(1) by (intro nth_equalityI) simp_all
  finally have r2: "scan_ranges step (length xs) (min step (length xs)) (T - 1)
      = map (\<lambda>t. (blk step xs (Suc t), blk step xs (Suc (Suc t)))) [0..<T - 1]" .
  have "length ps = T" by (simp add: ps_def)
  then have z: "zip (map (\<lambda>t. (blk step xs (Suc t), blk step xs (Suc (Suc t)))) [0..<T - 1]) ps
      = map (\<lambda>t. ((blk step xs (Suc t), blk step xs (Suc (Suc t))), ps ! t)) [0..<T - 1]"
    by (intro nth_equalityI) auto
  have "\<forall>t < T - 1. ps ! t = to_i32 (sum_list (take (blk step xs (Suc t)) xs))"
    using partial_sums_nth [of _ T step xs] by (simp add: ps_def)
  from scan_phase2 [OF _ this, of T] T(1) all
  have "fold add_range (map (\<lambda>t. ((blk step xs (Suc t), blk step xs (Suc (Suc t))), ps ! t)) [0..<T - 1])
          (concat (map (blk_scan step xs) [0..<T])) = scan_from 0 xs" by simp
  moreover have "inclusive_scan xs T =
      fold add_range (zip (scan_ranges step (length xs) (min step (length xs)) (T - 1))
          (scan_from 0 (map (\<lambda>r. scan_sum (sublist_at r xs)) (scan_ranges step (length xs) 0 T))))
        (fold (\<lambda>r out. write_at (fst r) (scan_from 0 (sublist_at r xs)) out) (scan_ranges step (length xs) 0 T) xs)"
    using False by (simp only: inclusive_scan_def Let_def step_def if_False)
  moreover have "map (\<lambda>r. scan_sum (sublist_at r xs)) (map (\<lambda>t. (blk step xs t, blk step xs (Suc t))) [0..<T])
      = map (\<lambda>t. scan_sum (sublist_at (blk step xs t, blk step xs (Suc t)) xs)) [0..<T]" by simp
  ultimately show ?thesis
    using scan_phase1 [of xs step T] by (simp only: r1 r2 ps_def [symmetric] z all drop_all order_refl append_Nil2)
qed

end
