(* ===== verification/Row_Binning.thy ===== *)
theory Row_Binning
  imports Perfect_Hash_Build
begin

text \<open>
  The one-to-many build, once and for all ways of assigning rows to bins.  The locale
  \<open>row_binning\<close> is the interface the build phases rely on: a selector that gives, for an
  element that fits the table, a bin of the table or the answer that the row is skipped.
  Its theorem says that the build leaves, for every bin, the number of its rows and a
  contiguous run of row ids that is a permutation of exactly these rows, whatever the schedule.
\<close>

section \<open>Bins\<close>

definition in_bin :: "('a \<Rightarrow> int option option) \<Rightarrow> nat \<Rightarrow> 'a multiset \<Rightarrow> 'a multiset" where
  "in_bin tgt b M = filter_mset (\<lambda>x. tgt x = Some (Some (int b))) M"

definition bin_start :: "('a \<Rightarrow> int option option) \<Rightarrow> 'a multiset \<Rightarrow> nat \<Rightarrow> nat" where
  "bin_start tgt M b = sum_list (map (\<lambda>a. size (in_bin tgt a M)) [0..<b])"

lemma in_bin_add [simp]:
  "in_bin tgt b (add_mset x A) = (if tgt x = Some (Some (int b)) then add_mset x (in_bin tgt b A) else in_bin tgt b A)"
  by (simp add: in_bin_def)

lemma in_bin_empty [simp]: "in_bin tgt b {#} = {#}"
  by (simp add: in_bin_def)

lemma in_bin_mono: "A \<subseteq># M \<Longrightarrow> size (in_bin tgt b A) \<le> size (in_bin tgt b M)"
  by (simp add: in_bin_def multiset_filter_mono size_mset_mono)

lemma bin_start_Suc: "bin_start tgt M (Suc b) = bin_start tgt M b + size (in_bin tgt b M)"
  by (simp add: bin_start_def)

lemma bin_start_mono: "a \<le> b \<Longrightarrow> bin_start tgt M a \<le> bin_start tgt M b"
proof (induction rule: dec_induct)
  case (step b)
  then show ?case by (simp add: bin_start_Suc)
qed simp

lemma bin_start_le_size: "bin_start tgt M n \<le> size M"
proof (induction M)
  case empty
  have "map (\<lambda>a. 0 :: nat) [0..<n] = replicate n 0" by (rule nth_equalityI) simp_all
  then show ?case by (simp add: bin_start_def sum_list_replicate)
next
  case (add x M)
  have "bin_start tgt (add_mset x M) n \<le> Suc (bin_start tgt M n)"
  proof (induction n)
    case (Suc n)
    show ?case
    proof (cases "tgt x = Some (Some (int n))")
      case True
      have "bin_start tgt (add_mset x M) n = bin_start tgt M n"
        unfolding bin_start_def using True by (intro arg_cong [where f = sum_list] map_cong) auto
      then show ?thesis using True by (simp add: bin_start_Suc)
    next
      case False
      then show ?thesis using Suc by (simp add: bin_start_Suc)
    qed
  qed (simp add: bin_start_def)
  then show ?case using add by simp
qed

lemma bin_runs_disjoint:
  assumes "a \<noteq> b" and "k < size (in_bin tgt a M)" and "c < size (in_bin tgt b M)"
  shows "bin_start tgt M a + k \<noteq> bin_start tgt M b + c"
proof (cases "a < b")
  case True
  then have "bin_start tgt M (Suc a) \<le> bin_start tgt M b" by (intro bin_start_mono) simp
  then show ?thesis using assms by (simp add: bin_start_Suc)
next
  case False
  then have "bin_start tgt M (Suc b) \<le> bin_start tgt M a" using assms(1) by (intro bin_start_mono) simp
  then show ?thesis using assms by (simp add: bin_start_Suc)
qed

section \<open>Invariants of the phases\<close>

definition count_inv :: "('a \<Rightarrow> int option option) \<Rightarrow> nat \<Rightarrow> int list \<Rightarrow> int list \<Rightarrow> 'a multiset \<Rightarrow> bool" where
  "count_inv tgt n buff0 buff A \<longleftrightarrow> length buff = length buff0 \<and>
     (\<forall>b < n. buff ! (n + b) = int (size (in_bin tgt b A))) \<and>
     (\<forall>i < length buff0. i < n \<or> 2 * n \<le> i \<longrightarrow> buff ! i = buff0 ! i)"

definition pos_inv :: "nat \<Rightarrow> int list \<Rightarrow> int list \<Rightarrow> int list \<Rightarrow> nat multiset \<Rightarrow> bool" where
  "pos_inv n cc buff0 buff A \<longleftrightarrow> length buff = length buff0 \<and>
     (\<forall>i < length buff0. buff ! i = (if i < n \<and> i \<in># A \<and> buff0 ! (n + i) \<noteq> 0 then cc ! i else buff0 ! i))"

definition run_ids :: "('a \<Rightarrow> int option option) \<Rightarrow> nat \<Rightarrow> int list \<Rightarrow> 'a multiset \<Rightarrow> nat \<Rightarrow> nat \<Rightarrow> int list" where
  "run_ids tgt n buff M b c = map (\<lambda>k. buff ! (2 * n + bin_start tgt M b + k)) [0..<c]"

definition ids_inv ::
    "('a \<Rightarrow> int option option) \<Rightarrow> ('a \<Rightarrow> nat) \<Rightarrow> nat \<Rightarrow> 'a multiset \<Rightarrow> int list \<Rightarrow> int list \<Rightarrow> 'a multiset \<Rightarrow> bool" where
  "ids_inv tgt row n M buff0 buff A \<longleftrightarrow> length buff = length buff0 \<and>
     (\<forall>b < n. buff ! b = buff0 ! b) \<and>
     (\<forall>b < n. buff ! (n + b) = int (size (in_bin tgt b A))) \<and>
     (\<forall>b < n. mset (run_ids tgt n buff M b (size (in_bin tgt b A))) = image_mset (\<lambda>x. int (row x)) (in_bin tgt b A))"

text \<open>The outcome: every bin has its count and, when it is not empty, a run of exactly its rows;
  the position of an empty bin is the value it had.\<close>

definition table_holds ::
    "('a \<Rightarrow> int option option) \<Rightarrow> ('a \<Rightarrow> nat) \<Rightarrow> nat \<Rightarrow> 'a multiset \<Rightarrow> int list \<Rightarrow> int list \<Rightarrow> bool" where
  "table_holds tgt row n M buff0 buff \<longleftrightarrow> length buff = length buff0 \<and>
     (\<forall>b < n. buff ! (n + b) = int (size (in_bin tgt b M)) \<and>
        (if in_bin tgt b M = {#} then buff ! b = buff0 ! b
         else buff ! b = int (bin_start tgt M b) \<and>
              mset (map (\<lambda>k. buff ! (2 * n + bin_start tgt M b + k)) [0..<size (in_bin tgt b M)])
              = image_mset (\<lambda>x. int (row x)) (in_bin tgt b M)))"

text \<open>Writing one more row id.\<close>

lemma ids_step:
  assumes I: "ids_inv tgt row n M buff0 buff A" and sub: "add_mset x A \<subseteq># M"
    and t: "tgt x = Some (Some (int b))" and b: "b < n" and lt: "size (in_bin tgt b A) < size (in_bin tgt b M)"
    and len: "2 * n + bin_start tgt M b + size (in_bin tgt b A) < length buff0"
  shows "ids_inv tgt row n M buff0
           (buff[n + b := int (Suc (size (in_bin tgt b A))),
                 2 * n + bin_start tgt M b + size (in_bin tgt b A) := int (row x)]) (add_mset x A)"
proof -
  let ?cnt = "size (in_bin tgt b A)" and ?w = "2 * n + bin_start tgt M b + size (in_bin tgt b A)"
  let ?buff = "buff[n + b := int (Suc ?cnt), ?w := int (row x)]"
  have l: "length buff = length buff0" using I by (simp add: ids_inv_def)
  have other: "run_ids tgt n ?buff M a (size (in_bin tgt a A)) = run_ids tgt n buff M a (size (in_bin tgt a A))"
    if a: "a \<noteq> b" for a
  proof -
    have "size (in_bin tgt a A) \<le> size (in_bin tgt a M)"
      using mset_subset_eq_insertD [OF sub] by (intro in_bin_mono) (simp add: subset_mset.less_imp_le)
    then have "bin_start tgt M a + k \<noteq> bin_start tgt M b + ?cnt" if "k < size (in_bin tgt a A)" for k
      using bin_runs_disjoint [OF a _ lt, of k] that by simp
    then have "?w \<noteq> 2 * n + bin_start tgt M a + k" "n + b \<noteq> 2 * n + bin_start tgt M a + k"
      if "k < size (in_bin tgt a A)" for k using that b by (metis add.assoc add_left_cancel, simp)
    then show ?thesis by (simp add: run_ids_def)
  qed
  have same: "run_ids tgt n ?buff M b (Suc ?cnt) = run_ids tgt n buff M b ?cnt @ [int (row x)]"
    using b len l by (simp add: run_ids_def nth_list_update)
  have bins: "mset (run_ids tgt n ?buff M a (size (in_bin tgt a (add_mset x A))))
      = image_mset (\<lambda>x. int (row x)) (in_bin tgt a (add_mset x A))" if "a < n" for a
  proof (cases "a = b")
    case True
    then show ?thesis using same t I b by (simp add: ids_inv_def)
  next
    case False
    then have "tgt x \<noteq> Some (Some (int a))" using t by simp
    then show ?thesis using other [OF False] I that by (simp add: ids_inv_def)
  qed
  have "n + b < length buff" using len l b by simp
  then have "\<forall>a < n. ?buff ! (n + a) = int (size (in_bin tgt a (add_mset x A)))"
    using I b t by (auto simp: ids_inv_def nth_list_update)
  moreover have "\<forall>a < n. ?buff ! a = buff0 ! a" using I b by (simp add: ids_inv_def)
  ultimately show ?thesis unfolding ids_inv_def using bins l by simp
qed

text \<open>Zeroing the counts, and the phase between counting and filling.\<close>

lemma write_at_nth:
  assumes "start + length ys \<le> length xs" and "i < length xs"
  shows "write_at start ys xs ! i = (if start \<le> i \<and> i < start + length ys then ys ! (i - start) else xs ! i)"
  using assms by (auto simp: write_at_def nth_append)

lemma length_write_at: "start + length ys \<le> length xs \<Longrightarrow> length (write_at start ys xs) = length xs"
  by (simp add: write_at_def)

lemma zero_counts_inv:
  assumes "2 * n \<le> length buff"
  shows "\<exists>buff1. zero_counts n buff = Some buff1 \<and> count_inv tgt n buff buff1 {#}"
  using assms by (simp add: zero_counts_def count_inv_def length_write_at write_at_nth)

lemma zero_ids_inv:
  assumes "2 * n \<le> length buff"
  shows "\<exists>buff1. zero_counts n buff = Some buff1 \<and> ids_inv tgt row n M buff1 buff1 {#}
           \<and> length buff1 = length buff \<and> (\<forall>b < n. buff1 ! b = buff ! b)"
  using assms by (simp add: zero_counts_def ids_inv_def run_ids_def length_write_at write_at_nth)

lemma int_sum_list: "sum_list (map (\<lambda>a. int (f a)) xs) = int (sum_list (map f xs))"
  by (induction xs) simp_all

lemma count_copy_starts:
  assumes "count_inv tgt n buff0 buff M" and "0 < n" and "size M < 2 ^ 31" and "2 * n \<le> length buff0"
  shows "length (inclusive_scan (0 # take (n - 1) (drop n buff)) T) = n \<and>
         (\<forall>b < n. inclusive_scan (0 # take (n - 1) (drop n buff)) T ! b = int (bin_start tgt M b))"
proof -
  let ?cs = "take (n - 1) (drop n buff)"
  have len: "length ?cs = n - 1" using assms(1,4) by (simp add: count_inv_def)
  have "scan_from 0 (0 # ?cs) ! b = int (bin_start tgt M b)" if "b < n" for b
  proof -
    have "take b ?cs = map (\<lambda>a. int (size (in_bin tgt a M))) [0..<b]"
      using assms(1,4) that by (intro nth_equalityI) (auto simp: count_inv_def)
    then have "sum_list (take b ?cs) = int (bin_start tgt M b)"
      by (simp add: bin_start_def int_sum_list)
    moreover have "bin_start tgt M b < 2 ^ 31" using bin_start_le_size [of tgt M b] assms(3) by linarith
    ultimately show ?thesis using that len assms(2) scan_from_nth [of b "0 # ?cs" 0] to_i32_nat [of "bin_start tgt M b"]
      by simp
  qed
  then show ?thesis using len assms(2) by (simp add: inclusive_scan_eq)
qed

lemma pos_phase:
  assumes "length cc = n" and "2 * n \<le> length buff" and "0 < T"
  shows "\<exists>buff' rs. run_threads (pos_body n cc) sched buff (map (\<lambda>t. strided t T n) [0..<T]) = Some (buff', rs)
           \<and> pos_inv n cc buff buff' (mset [0..<n])"
proof -
  let ?M = "mset (concat (map (\<lambda>t. strided t T n) [0..<T]))"
  have M: "?M = mset [0..<n]" by (rule mset_strided [OF assms(3)])
  have bi: "body_inv (pos_body n cc) (pos_inv n cc buff) ?M False"
    unfolding body_inv_def
  proof (intro allI impI)
    fix b A i assume I: "pos_inv n cc buff b A" and sub: "add_mset i A \<subseteq># ?M"
    have "i \<in># mset [0..<n]" using mset_subset_eqD [OF sub, of i] by (simp only: M) simp
    then have i: "i < n" by simp
    then have ni: "n + i < length buff" using assms(2) by simp
    have cnt: "b ! (n + i) = buff ! (n + i)" and len: "length b = length buff" using I i ni by (simp_all add: pos_inv_def)
    have "pos_body n cc b i = Some (if buff ! (n + i) \<noteq> 0 then b[i := cc ! i] else b, 0)"
      using i ni len cnt assms(1) load_nat [of "n + i" b] by (simp add: pos_body_def)
    moreover have "pos_inv n cc buff (if buff ! (n + i) \<noteq> 0 then b[i := cc ! i] else b) (add_mset i A)"
      using I i ni by (auto simp: pos_inv_def nth_list_update)
    ultimately show "\<exists>s' r. pos_body n cc b i = Some (s', r) \<and>
        (if r = 0 then pos_inv n cc buff s' (add_mset i A) else False \<and> pos_inv n cc buff s' A)" by simp
  qed
  have "pos_inv n cc buff buff {#}" by (simp add: pos_inv_def)
  then obtain buff' rs where "run_threads (pos_body n cc) sched buff (map (\<lambda>t. strided t T n) [0..<T]) = Some (buff', rs)"
      "length rs = length (map (\<lambda>t. strided t T n) [0..<T])" "\<forall>r \<in> set rs. r = 0" "pos_inv n cc buff buff' ?M"
    by (rule run_threads_total [OF bi])
  then show ?thesis unfolding M by blast
qed

section \<open>The interface and the build\<close>

locale row_binning =
  fixes target :: "'c \<Rightarrow> 'a \<Rightarrow> int option option"
    and bins :: "'c \<Rightarrow> nat"
    and fits :: "'c \<Rightarrow> 'a \<Rightarrow> bool"
  assumes target_fits: "fits c x \<Longrightarrow> \<exists>r. target c x = Some r \<and> (\<forall>b. r = Some b \<longrightarrow> 0 \<le> b \<and> b < int (bins c))"
begin

lemma target_cases:
  assumes "fits c x"
  obtains "target c x = Some None" | b where "target c x = Some (Some (int b))" and "b < bins c"
proof -
  obtain r where r: "target c x = Some r" "\<forall>b. r = Some b \<longrightarrow> 0 \<le> b \<and> b < int (bins c)"
    using target_fits [OF assms] by blast
  show ?thesis
  proof (cases r)
    case None
    then show ?thesis using r that(1) by simp
  next
    case (Some b)
    then have "0 \<le> b" "nat b < bins c" using r(2) by auto
    then show ?thesis using r(1) Some that(2) [of "nat b"] by simp
  qed
qed

lemma count_body_inv:
  assumes "\<forall>x \<in># M. fits c x" and "size M < 2 ^ 31" and "2 * bins c \<le> length buff0"
  shows "body_inv (count_body (bins c) (target c)) (count_inv (target c) (bins c) buff0) M False"
  unfolding body_inv_def
proof (intro allI impI)
  fix buff A x
  assume I: "count_inv (target c) (bins c) buff0 buff A" and sub: "add_mset x A \<subseteq># M"
  have x: "fits c x" using sub assms(1) by (simp add: insert_subset_eq_iff)
  have "size (add_mset x A) \<le> size M" using sub by (rule size_mset_mono)
  then have szA: "Suc (size A) < 2 ^ 31" using assms(2) by simp
  from x show "\<exists>s' r. count_body (bins c) (target c) buff x = Some (s', r) \<and>
      (if r = 0 then count_inv (target c) (bins c) buff0 s' (add_mset x A) else False \<and> count_inv (target c) (bins c) buff0 s' A)"
  proof (cases rule: target_cases)
    case 1
    then show ?thesis using I by (simp add: count_body_def count_inv_def)
  next
    case (2 b)
    have "size (in_bin (target c) b A) \<le> size A" by (simp add: in_bin_def size_filter_mset_lesseq)
    then have "to_i32 (int (size (in_bin (target c) b A)) + 1) = int (Suc (size (in_bin (target c) b A)))"
      using szA to_i32_nat [of "Suc (size (in_bin (target c) b A))"] by (simp add: add.commute)
    then have "count_body (bins c) (target c) buff x
        = Some (buff[bins c + b := int (Suc (size (in_bin (target c) b A)))], 0)"
      using 2 I assms(3) mapd_add_nat [of "bins c + b" buff 1] by (simp add: count_body_def count_inv_def)
    then show ?thesis using I 2 assms(3) by (auto simp: count_inv_def nth_list_update)
  qed
qed

lemma ids_body_inv:
  assumes fit: "\<forall>x \<in># M. fits c x" and size: "size M < 2 ^ 31" and rows: "\<forall>x \<in># M. row x < 2 ^ 31"
    and len: "2 * bins c + size M \<le> length buff0"
    and pos: "\<forall>b < bins c. in_bin (target c) b M \<noteq> {#} \<longrightarrow> buff0 ! b = int (bin_start (target c) M b)"
  shows "body_inv (fill_row_ids_body (bins c) (target c) row) (ids_inv (target c) row (bins c) M buff0) M False"
  unfolding body_inv_def
proof (intro allI impI)
  fix buff A x
  assume I: "ids_inv (target c) row (bins c) M buff0 buff A" and sub: "add_mset x A \<subseteq># M"
  have xM: "x \<in># M" using sub by (simp add: insert_subset_eq_iff)
  then have x: "fits c x" and rx: "to_i32 (int (row x)) = int (row x)" using fit rows by (auto intro: to_i32_nat)
  from x show "\<exists>s' r. fill_row_ids_body (bins c) (target c) row buff x = Some (s', r) \<and>
      (if r = 0 then ids_inv (target c) row (bins c) M buff0 s' (add_mset x A) else False \<and> ids_inv (target c) row (bins c) M buff0 s' A)"
  proof (cases rule: target_cases)
    case 1
    then show ?thesis using I by (simp add: fill_row_ids_body_def ids_inv_def)
  next
    case (2 b)
    let ?n = "bins c" and ?cnt = "size (in_bin (target c) b A)" and ?st = "bin_start (target c) M b"
    let ?w = "2 * ?n + ?st + ?cnt"
    have "size (in_bin (target c) b (add_mset x A)) \<le> size (in_bin (target c) b M)" using sub by (rule in_bin_mono)
    then have lt: "?cnt < size (in_bin (target c) b M)" using 2 by simp
    have "?st + size (in_bin (target c) b M) \<le> bin_start (target c) M ?n"
      using bin_start_mono [of "Suc b" ?n "target c" M] 2 by (simp add: bin_start_Suc)
    then have st: "?st + ?cnt < size M" using lt bin_start_le_size [of "target c" M ?n] by linarith
    have p: "buff ! b = int ?st" using I pos lt 2 by (auto simp: ids_inv_def)
    have w: "2 * int ?n + to_i32 (int ?cnt + int ?st) = int ?w"
      using st size to_i32_nat [of "?st + ?cnt"] by (simp add: add.commute)
    have c1: "to_i32 (int ?cnt + 1) = int (Suc ?cnt)" using st size to_i32_nat [of "Suc ?cnt"] by (simp add: add.commute)
    let ?buff1 = "buff[?n + b := int (Suc ?cnt)]"
    have l: "length buff = length buff0" using I by (simp add: ids_inv_def)
    have "mapd_add buff (int ?n + int b) 1 = Some (?buff1, int ?cnt)"
      using I 2 len l c1 mapd_add_nat [of "?n + b" buff 1] by (simp add: ids_inv_def)
    moreover have "load ?buff1 (int b) = Some (int ?st)" using p 2 len l by simp
    moreover have "store ?buff1 (2 * int ?n + to_i32 (int ?cnt + int ?st)) (int (row x)) = Some (?buff1[?w := int (row x)])"
      unfolding w using st len l by (intro store_nat) simp
    ultimately have step: "fill_row_ids_body ?n (target c) row buff x = Some (?buff1[?w := int (row x)], 0)"
      using 2 rx by (simp add: fill_row_ids_body_def)
    have "ids_inv (target c) row ?n M buff0 (?buff1[?w := int (row x)]) (add_mset x A)"
      using ids_step [OF I sub 2 lt] len st by simp
    then show ?thesis using step by simp
  qed
qed

theorem build_holds:
  assumes fit: "\<forall>x \<in># mset (concat slices). fits c x" and size: "size (mset (concat slices)) < 2 ^ 31"
    and rows: "\<forall>x \<in># mset (concat slices). row x < 2 ^ 31"
    and len: "2 * bins c + size (mset (concat slices)) \<le> length buff" and n: "0 < bins c" and T: "0 < T"
  shows "\<exists>buff'. fill_one_to_many_phases sc T buff (bins c) (count_body (bins c) (target c))
             (fill_row_ids_body (bins c) (target c) row) slices = Some buff'
           \<and> table_holds (target c) row (bins c) (mset (concat slices)) buff buff'"
proof -
  let ?n = "bins c" and ?tgt = "target c" and ?M = "mset (concat slices)"
  obtain buff1 where b1: "zero_counts ?n buff = Some buff1" "count_inv ?tgt ?n buff buff1 {#}"
    using zero_counts_inv [of ?n buff ?tgt] len by auto
  have bi: "body_inv (count_body ?n ?tgt) (count_inv ?tgt ?n buff) ?M False"
    by (rule count_body_inv [OF fit size]) (use len in simp)
  obtain buff2 rs where b2: "run_threads (count_body ?n ?tgt) (count_sched sc) buff1 slices = Some (buff2, rs)"
      "length rs = length slices" "\<forall>r \<in> set rs. r = 0" "count_inv ?tgt ?n buff buff2 ?M"
    by (rule run_threads_total [OF bi b1(2)])
  define cc where "cc = inclusive_scan (0 # take (?n - 1) (drop ?n buff2)) T"
  have cc: "length cc = ?n" "\<forall>b < ?n. cc ! b = int (bin_start ?tgt ?M b)"
    using count_copy_starts [OF b2(4) n size] len unfolding cc_def by auto
  obtain buff3 rs3 where b3: "run_threads (pos_body ?n cc) (pos_sched sc) buff2 (map (\<lambda>t. strided t T ?n) [0..<T]) = Some (buff3, rs3)"
      "pos_inv ?n cc buff2 buff3 (mset [0..<?n])"
    using pos_phase [OF cc(1) _ T, of buff2 "pos_sched sc"] b2(4) len by (auto simp: count_inv_def)
  obtain buff4 where b4: "zero_counts ?n buff3 = Some buff4" "ids_inv ?tgt row ?n ?M buff4 buff4 {#}"
      and b4': "length buff4 = length buff" "\<forall>b < ?n. buff4 ! b = buff3 ! b"
    using zero_ids_inv [of ?n buff3 ?tgt row ?M] b3(2) b2(4) len by (auto simp: pos_inv_def count_inv_def)
  have p3: "buff3 ! b = (if in_bin ?tgt b ?M = {#} then buff ! b else int (bin_start ?tgt ?M b))" if "b < ?n" for b
    using that b3(2) b2(4) cc len by (auto simp: pos_inv_def count_inv_def)
  have bi2: "body_inv (fill_row_ids_body ?n ?tgt row) (ids_inv ?tgt row ?n ?M buff4) ?M False"
    by (rule ids_body_inv [OF fit size rows]) (use len b4' p3 in auto)
  obtain buff5 rs5 where b5: "run_threads (fill_row_ids_body ?n ?tgt row) (rowid_sched sc) buff4 slices = Some (buff5, rs5)"
      "length rs5 = length slices" "\<forall>r \<in> set rs5. r = 0" "ids_inv ?tgt row ?n ?M buff4 buff5 ?M"
    by (rule run_threads_total [OF bi2 b4(2)])
  have "fill_one_to_many_phases sc T buff ?n (count_body ?n ?tgt) (fill_row_ids_body ?n ?tgt row) slices = Some buff5"
    using b1(1) b2(1) b3(1) [unfolded cc_def] b4(1) b5(1) n unfolding fill_one_to_many_phases_def Let_def by simp
  moreover have "table_holds ?tgt row ?n ?M buff buff5"
    using b5(4) b4' p3 by (auto simp: table_holds_def ids_inv_def run_ids_def)
  ultimately show ?thesis by blast
qed

end

end
