(* ===== verification/Perfect_Hash_Slots.thy ===== *)
theory Perfect_Hash_Slots
  imports Row_Binning
begin

text \<open>
  The slot selectors of the perfect tables as instances of \<open>row_binning\<close>, and the meaning of a
  row in SQL terms: the key a row of the inner column has, and when a probe key matches it.
  The filling of the one-to-one tables is shown to be exact: a build fails when and only when
  two rows share a slot.
\<close>

section \<open>Keys of rows\<close>

text \<open>The key of an inner element: none when the row joins with nothing.\<close>

definition inner_key :: "JoinColumnTypeInfo \<Rightarrow> int list option \<Rightarrow> int \<Rightarrow> int \<Rightarrow> int option" where
  "inner_key ti tm mi v =
     (if v = null_val ti then if uses_bw_eq ti then Some (translated_null_val ti) else None
      else case tm of None \<Rightarrow> Some v
           | Some m \<Rightarrow> (let w = m ! nat (v - mi) in if min_val ti \<le> w \<and> w \<le> max_val ti \<and> w \<noteq> INVALID_STR_ID then Some w else None))"

text \<open>The statistics of the column hold for the element, and the translation map covers it.\<close>

definition elem_ok :: "JoinColumnTypeInfo \<Rightarrow> int list option \<Rightarrow> int \<Rightarrow> int \<Rightarrow> bool" where
  "elem_ok ti tm mi v \<longleftrightarrow> translated_null_val ti = max_val ti + 1 \<and>
     (v \<noteq> null_val ti \<longrightarrow> min_val ti \<le> v \<and> v \<le> max_val ti \<and>
        (case tm of None \<Rightarrow> True | Some m \<Rightarrow> mi \<le> v \<and> v < mi + int (length m)))"

lemma translate_elem_key:
  assumes "elem_ok ti tm mi v"
  shows "translate_elem ti tm mi v = Some (inner_key ti tm mi v)"
proof (cases "v = null_val ti")
  case True
  then show ?thesis by (auto simp: translate_elem_def inner_key_def Let_def split: option.splits)
next
  case False
  then have v: "v \<noteq> translated_null_val ti" using assms by (auto simp: elem_ok_def)
  show ?thesis
  proof (cases tm)
    case None
    then show ?thesis using False by (simp add: translate_elem_def inner_key_def)
  next
    case (Some m)
    then have "0 \<le> v - mi" "v - mi < int (length m)" using assms False by (auto simp: elem_ok_def)
    then have "load m (v - mi) = Some (m ! nat (v - mi))" by (simp add: load_def)
    then show ?thesis using False v Some
      by (auto simp: translate_elem_def inner_key_def map_str_id_to_outer_dict_def Let_def)
  qed
qed

lemma inner_key_range:
  assumes "elem_ok ti tm mi v" and "inner_key ti tm mi v = Some e" and "min_val ti \<le> max_val ti + 1"
  shows "min_val ti \<le> e \<and> e \<le> max_val ti + (if uses_bw_eq ti then 1 else 0)"
  using assms by (auto simp: inner_key_def elem_ok_def Let_def split: if_splits option.splits)

section \<open>Slots as bins\<close>

text \<open>The entries that \<open>get_bucketized_hash_entry_info\<close> provides for a range.\<close>

definition key_entries :: "JoinColumnTypeInfo \<Rightarrow> nat" where
  "key_entries ti = nat (max_val ti - min_val ti + 1 + (if uses_bw_eq ti then 1 else 0))"

definition bucket_entries :: "JoinColumnTypeInfo \<Rightarrow> int \<Rightarrow> nat" where
  "bucket_entries ti bn = (key_entries ti + nat bn - 1) div nat bn"

text \<open>The context of a build: type information, translation map, its first id, bucket.\<close>

type_synonym slot_ctx = "JoinColumnTypeInfo \<times> int list option \<times> int \<times> int"

definition bucket_target :: "slot_ctx \<Rightarrow> nat \<times> int \<Rightarrow> int option option" where
  "bucket_target ctx = (case ctx of (ti, tm, mi, bn) \<Rightarrow>
     perfect_target ti tm mi (\<lambda>elem. get_bucketized_hash_slot 0 elem (min_val ti) bn))"

definition plain_target :: "slot_ctx \<Rightarrow> nat \<times> int \<Rightarrow> int option option" where
  "plain_target ctx = (case ctx of (ti, tm, mi, bn) \<Rightarrow>
     perfect_target ti tm mi (\<lambda>elem. get_hash_slot 0 elem (min_val ti)))"

definition ctx_entries :: "slot_ctx \<Rightarrow> nat" where
  "ctx_entries ctx = (case ctx of (ti, tm, mi, bn) \<Rightarrow> bucket_entries ti bn)"

definition ctx_plain_entries :: "slot_ctx \<Rightarrow> nat" where
  "ctx_plain_entries ctx = (case ctx of (ti, tm, mi, bn) \<Rightarrow> key_entries ti)"

definition ctx_fits :: "slot_ctx \<Rightarrow> nat \<times> int \<Rightarrow> bool" where
  "ctx_fits ctx item = (case ctx of (ti, tm, mi, bn) \<Rightarrow> elem_ok ti tm mi (snd item) \<and> 0 < bn \<and> min_val ti \<le> max_val ti + 1)"

lemma bucket_slot_eq:
  "min_key \<le> key \<Longrightarrow> 0 < bn \<Longrightarrow> get_bucketized_hash_slot 0 key min_key bn = (key - min_key) div bn"
  by (simp add: get_bucketized_hash_slot_def signed_divide_int_def sgn_if)

lemma div_lt_ceil:
  assumes "(a :: nat) < n" and "0 < b"
  shows "a div b < (n + b - 1) div b"
proof -
  have "a + b \<le> n + b - 1" using assms by simp
  then have "(a + b) div b \<le> (n + b - 1) div b" by (rule div_le_mono)
  then show ?thesis using assms(2) div_add_self2 [of b a] by simp
qed

lemma key_slot_bounds:
  assumes "min_val ti \<le> e" and "e \<le> max_val ti + (if uses_bw_eq ti then 1 else 0)" and "0 < bn"
  shows "0 \<le> (e - min_val ti) div bn \<and> (e - min_val ti) div bn < int (bucket_entries ti bn)"
proof -
  have "nat (e - min_val ti) < key_entries ti" using assms(1,2) by (auto simp: key_entries_def)
  then have "nat (e - min_val ti) div nat bn < bucket_entries ti bn"
    unfolding bucket_entries_def using assms(3) by (intro div_lt_ceil) simp_all
  then have "int (nat (e - min_val ti) div nat bn) < int (bucket_entries ti bn)" by simp
  then show ?thesis using assms by (simp add: zdiv_int pos_imp_zdiv_nonneg_iff)
qed

interpretation bucket_bins: row_binning bucket_target ctx_entries ctx_fits
proof
  fix ctx item assume fits: "ctx_fits ctx item"
  obtain ti tm mi bn where ctx: "ctx = (ti, tm, mi, bn)" by (cases ctx) auto
  have f: "elem_ok ti tm mi (snd item)" "0 < bn" "min_val ti \<le> max_val ti + 1" using fits by (simp_all add: ctx_fits_def ctx)
  have "bucket_target ctx item = Some (map_option (\<lambda>e. get_bucketized_hash_slot 0 e (min_val ti) bn) (inner_key ti tm mi (snd item)))"
    using translate_elem_key [OF f(1)] by (simp add: bucket_target_def ctx perfect_target_def)
  moreover have "0 \<le> get_bucketized_hash_slot 0 e (min_val ti) bn \<and> get_bucketized_hash_slot 0 e (min_val ti) bn < int (ctx_entries ctx)"
    if "inner_key ti tm mi (snd item) = Some e" for e
    using inner_key_range [OF f(1) that f(3)] key_slot_bounds [of ti e bn] f(2) by (simp add: bucket_slot_eq ctx_entries_def ctx)
  ultimately show "\<exists>r. bucket_target ctx item = Some r \<and> (\<forall>b. r = Some b \<longrightarrow> 0 \<le> b \<and> b < int (ctx_entries ctx))" by auto
qed

lemma bucket_entries_1: "bucket_entries ti 1 = key_entries ti"
  by (simp add: bucket_entries_def)

interpretation plain_bins: row_binning plain_target ctx_plain_entries ctx_fits
proof
  fix ctx item assume fits: "ctx_fits ctx item"
  obtain ti tm mi bn where ctx: "ctx = (ti, tm, mi, bn)" by (cases ctx) auto
  have "ctx_fits (ti, tm, mi, 1) item" using fits by (simp add: ctx_fits_def ctx)
  moreover have "plain_target ctx item = bucket_target (ti, tm, mi, 1) item"
    by (simp add: plain_target_def bucket_target_def ctx get_hash_slot_def get_bucketized_hash_slot_def)
  ultimately show "\<exists>r. plain_target ctx item = Some r \<and> (\<forall>b. r = Some b \<longrightarrow> 0 \<le> b \<and> b < int (ctx_plain_entries ctx))"
    using bucket_bins.target_fits [of "(ti, tm, mi, 1)" item] by (simp add: ctx_entries_def ctx_plain_entries_def ctx bucket_entries_1)
qed

section \<open>Filling a one-to-one table\<close>

text \<open>Every used slot holds a row of its bin; without the semi-join relaxation the bins have at
  most one row.\<close>

definition one_bin ::
    "(nat \<times> int \<Rightarrow> int option option) \<Rightarrow> bool \<Rightarrow> int \<Rightarrow> int \<Rightarrow> (nat \<times> int) multiset \<Rightarrow> nat \<Rightarrow> bool" where
  "one_bin tgt semi iv v A b \<longleftrightarrow>
     (if in_bin tgt b A = {#} then v = iv else v \<in># image_mset (\<lambda>x. int (fst x)) (in_bin tgt b A)) \<and>
     (semi \<or> size (in_bin tgt b A) \<le> 1)"

definition one_inv ::
    "(nat \<times> int \<Rightarrow> int option option) \<Rightarrow> bool \<Rightarrow> nat \<Rightarrow> int \<Rightarrow> int list \<Rightarrow> (nat \<times> int) multiset \<Rightarrow> bool" where
  "one_inv tgt semi n iv buff A \<longleftrightarrow> length buff = n \<and> (\<forall>b < n. one_bin tgt semi iv (buff ! b) A b)"

definition some_bin_shared :: "(nat \<times> int \<Rightarrow> int option option) \<Rightarrow> nat \<Rightarrow> (nat \<times> int) multiset \<Rightarrow> bool" where
  "some_bin_shared tgt n M \<longleftrightarrow> (\<exists>b < n. 1 < size (in_bin tgt b M))"

lemma fill_body_target:
  "fill_body ti tm mi (filling_func slot semi iv) buff item =
     (case perfect_target ti tm mi slot item of None \<Rightarrow> None
      | Some None \<Rightarrow> Some (buff, 0)
      | Some (Some p) \<Rightarrow> (case insert_key_cas buff p iv (int (fst item)) of None \<Rightarrow> None
          | Some (buff', old) \<Rightarrow> Some (buff', if \<not> semi \<and> old \<noteq> iv then - 1 else 0)))"
  by (auto simp: fill_body_def filling_func_def perfect_target_def fill_one_to_one_hashtable_def
        fill_hashtable_for_semi_join_def split: option.splits)

lemma fill_body_inv:
  assumes fit: "\<forall>x \<in># M. ctx_fits (ti, tm, mi, bn) x" and rows: "\<forall>x \<in># M. fst x < 2 ^ 31" and iv: "iv < 0"
  defines "tgt \<equiv> bucket_target (ti, tm, mi, bn)" and "n \<equiv> ctx_entries (ti, tm, mi, bn)"
  shows "body_inv (fill_body ti tm mi (filling_func (\<lambda>e. get_bucketized_hash_slot 0 e (min_val ti) bn) semi iv))
           (one_inv tgt semi n iv) M (\<not> semi \<and> some_bin_shared tgt n M)"
  unfolding body_inv_def
proof (intro allI impI)
  fix buff A x assume I: "one_inv tgt semi n iv buff A" and sub: "add_mset x A \<subseteq># M"
  have x: "ctx_fits (ti, tm, mi, bn) x" and rx: "to_i32 (int (fst x)) = int (fst x)"
    using sub fit rows by (auto simp: insert_subset_eq_iff intro: to_i32_nat)
  have tgt: "perfect_target ti tm mi (\<lambda>e. get_bucketized_hash_slot 0 e (min_val ti) bn) = tgt"
    by (simp add: tgt_def bucket_target_def)
  let ?f = "fill_body ti tm mi (filling_func (\<lambda>e. get_bucketized_hash_slot 0 e (min_val ti) bn) semi iv)"
  from x show "\<exists>s' r. ?f buff x = Some (s', r) \<and> (if r = 0 then one_inv tgt semi n iv s' (add_mset x A)
      else (\<not> semi \<and> some_bin_shared tgt n M) \<and> one_inv tgt semi n iv s' A)"
  proof (cases rule: bucket_bins.target_cases)
    case 1
    then have "tgt x = Some None" by (simp add: tgt_def)
    then have "?f buff x = Some (buff, 0)" "one_inv tgt semi n iv buff (add_mset x A)"
      using I by (auto simp: fill_body_target tgt one_inv_def one_bin_def)
    then show ?thesis by simp
  next
    case (2 b)
    then have b: "tgt x = Some (Some (int b))" "b < n" by (simp_all add: tgt_def n_def)
    have len: "length buff = n" using I by (simp add: one_inv_def)
    have step: "?f buff x = Some (buff[b := if buff ! b = iv then int (fst x) else buff ! b],
        if \<not> semi \<and> buff ! b \<noteq> iv then - 1 else 0)"
      using b len rx by (simp add: fill_body_target tgt insert_key_cas_nat)
    have used: "buff ! b \<noteq> iv \<longleftrightarrow> in_bin tgt b A \<noteq> {#}"
      using I b iv by (auto simp: one_inv_def one_bin_def split: if_splits)
    show ?thesis
    proof (cases "\<not> semi \<and> buff ! b \<noteq> iv")
      case True
      have "size (in_bin tgt b (add_mset x A)) \<le> size (in_bin tgt b M)" using sub by (rule in_bin_mono)
      moreover have "0 < size (in_bin tgt b A)" using True used by (simp add: nonempty_has_size)
      ultimately have "some_bin_shared tgt n M" using b by (auto simp: some_bin_shared_def)
      then show ?thesis using True step I by simp
    next
      case False
      let ?buff = "buff[b := if buff ! b = iv then int (fst x) else buff ! b]"
      have "one_bin tgt semi iv (?buff ! a) (add_mset x A) a" if a: "a < n" for a
      proof (cases "a = b")
        case True
        have "one_bin tgt semi iv (buff ! b) A b" using I b by (simp add: one_inv_def)
        then show ?thesis using False True used b len
          by (cases "buff ! b = iv") (simp_all add: one_bin_def)
      next
        case False
        then have "tgt x \<noteq> Some (Some (int a))" using b by simp
        moreover have "one_bin tgt semi iv (buff ! a) A a" using I a by (simp add: one_inv_def)
        ultimately show ?thesis using False by (cases "in_bin tgt a A = {#}") (simp_all add: one_bin_def)
      qed
      then have "one_inv tgt semi n iv ?buff (add_mset x A)" using len by (simp add: one_inv_def)
      moreover have "?f buff x = Some (?buff, 0)" using False step by auto
      ultimately show ?thesis by simp
    qed
  qed
qed

end
