(* ===== verification/Perfect_Hash_Probe.thy ===== *)
theory Perfect_Hash_Probe
  imports Perfect_Hash_Slots
begin

text \<open>
  The probes of a perfect-hash table against the rows it was built from: the slot a probe key
  reads, the rows a matching set returns, and the element slices of a build.
\<close>

section \<open>The elements of a build\<close>

definition col_items :: "JoinColumn \<Rightarrow> JoinColumnTypeInfo \<Rightarrow> (nat \<times> int) list" where
  "col_items jc ti = map (\<lambda>i. (i, col_vals jc ti ! i)) [0..<num_elems jc]"

lemma collect_map_Some: "collect (map (\<lambda>x. Some (f x)) xs) = Some (map f xs)"
  by (induction xs) simp_all

lemma build_slices:
  assumes "col_ok jc ti" and "0 < T"
  obtains slices where "collect (map (\<lambda>t. slice_elements jc ti t T) [0..<T]) = Some slices"
    and "mset (concat slices) = mset (col_items jc ti)"
proof
  let ?f = "\<lambda>i. (i, col_vals jc ti ! i)"
  let ?slices = "map (\<lambda>t. map ?f (strided t T (num_elems jc))) [0..<T]"
  show "collect (map (\<lambda>t. slice_elements jc ti t T) [0..<T]) = Some ?slices"
    using slice_elements_eq [OF assms] by (simp add: collect_map_Some)
  have "concat ?slices = map ?f (concat (map (\<lambda>t. strided t T (num_elems jc)) [0..<T]))"
    by (simp add: map_concat comp_def)
  then show "mset (concat ?slices) = mset (col_items jc ti)"
    using mset_strided [OF assms(2), of "num_elems jc"] by (simp add: col_items_def del: mset_concat)
qed

section \<open>The slot of a probe\<close>

text \<open>The key a probe looks for: none when it can match nothing.\<close>

definition probe_key :: "bool \<Rightarrow> bool \<Rightarrow> int \<Rightarrow> col_range \<Rightarrow> int \<Rightarrow> int option" where
  "probe_key nullable bw null cr k =
     (if bw \<and> k = null then Some (int_max cr + 1)
      else if nullable \<and> k = null then None
      else if int_min cr \<le> k \<and> k \<le> int_max cr then Some k else None)"

lemma probe_slot_eq:
  assumes "int_min cr \<le> int_max cr + 1" and "0 < bucket_normalization hei"
    and "date \<longrightarrow> \<not> bw" and "\<not> date \<longrightarrow> bucket_normalization hei = 1"
  shows "probe_slot date nullable bw null cr hei buff off k =
           (case probe_key nullable bw null cr k of None \<Rightarrow> Some (- 1)
            | Some e \<Rightarrow> load buff (off + (e - int_min cr) div bucket_normalization hei))"
  using assms
  by (auto simp: probe_slot_def probe_key_def Let_def bucketized_hash_join_idx_def hash_join_idx_def
      bucketized_hash_join_idx_nullable_def hash_join_idx_nullable_def hash_join_idx_bitwise_def
      get_bucketized_hash_slot_def get_hash_slot_def signed_divide_int_def sgn_if)

text \<open>
  SQL equality of a probe key and an inner element: nulls are equal to each other under
  \<open>IS NOT DISTINCT FROM\<close> (\<open>bw\<close>) and to nothing under \<open>=\<close>.
\<close>

definition row_matches :: "JoinColumnTypeInfo \<Rightarrow> int list option \<Rightarrow> int \<Rightarrow> bool \<Rightarrow> int \<Rightarrow> int \<Rightarrow> int \<Rightarrow> bool" where
  "row_matches ti tm mi nullable null k v =
     (if (uses_bw_eq ti \<or> nullable) \<and> k = null then uses_bw_eq ti \<and> v = null_val ti
      else v \<noteq> null_val ti \<and> inner_key ti tm mi v = Some k)"

lemma row_matches_iff:
  assumes "elem_ok ti tm mi v" and "min_val ti = int_min cr" and "max_val ti = int_max cr"
  shows "row_matches ti tm mi nullable null k v \<longleftrightarrow>
           (\<exists>e. probe_key nullable (uses_bw_eq ti) null cr k = Some e \<and> inner_key ti tm mi v = Some e)"
  using assms
  by (auto simp: row_matches_def probe_key_def inner_key_def elem_ok_def Let_def split: if_splits option.splits)

section \<open>Bins and keys\<close>

text \<open>All the keys of the column and the probe key lie a whole number of buckets above the minimum.\<close>

definition aligned :: "int \<Rightarrow> int \<Rightarrow> int \<Rightarrow> bool" where
  "aligned bn mn e \<longleftrightarrow> bn dvd e - mn"

lemma aligned_div_eq: "aligned bn mn e \<Longrightarrow> aligned bn mn e' \<Longrightarrow> (e - mn) div bn = (e' - mn) div bn \<longleftrightarrow> e = e'"
  by (simp add: aligned_def dvd_div_eq_iff)

lemma bucket_target_eq:
  assumes "ctx_fits (ti, tm, mi, bn) (i, v)"
  shows "bucket_target (ti, tm, mi, bn) (i, v) = Some (map_option (\<lambda>e. (e - min_val ti) div bn) (inner_key ti tm mi v))"
proof -
  have ok: "elem_ok ti tm mi v" "0 < bn" "min_val ti \<le> max_val ti + 1" using assms by (simp_all add: ctx_fits_def)
  have "map_option (\<lambda>e. get_bucketized_hash_slot 0 e (min_val ti) bn) (inner_key ti tm mi v)
      = map_option (\<lambda>e. (e - min_val ti) div bn) (inner_key ti tm mi v)"
    using inner_key_range [OF ok(1) _ ok(3)] ok(2) by (cases "inner_key ti tm mi v") (simp_all add: bucket_slot_eq)
  then show ?thesis using translate_elem_key [OF ok(1)] by (simp add: bucket_target_def perfect_target_def)
qed

text \<open>The rows in the bin of a key are the rows with that key.\<close>

lemma in_bin_key:
  assumes "\<forall>x \<in># M. ctx_fits (ti, tm, mi, bn) x" and "aligned bn (min_val ti) e"
    and "\<forall>x \<in># M. \<forall>e'. inner_key ti tm mi (snd x) = Some e' \<longrightarrow> aligned bn (min_val ti) e'"
    and "min_val ti \<le> e" and "0 < bn"
  shows "in_bin (bucket_target (ti, tm, mi, bn)) (nat ((e - min_val ti) div bn)) M
       = filter_mset (\<lambda>x. inner_key ti tm mi (snd x) = Some e) M"
  unfolding in_bin_def
proof (rule filter_mset_cong [OF refl])
  fix x assume x: "x \<in># M"
  obtain i v where iv: "x = (i, v)" by (cases x)
  have nn: "0 \<le> (e - min_val ti) div bn" using assms(4,5) by (simp add: pos_imp_zdiv_nonneg_iff)
  have fits: "ctx_fits (ti, tm, mi, bn) (i, v)" using assms(1) x iv by blast
  show "bucket_target (ti, tm, mi, bn) x = Some (Some (int (nat ((e - min_val ti) div bn)))) \<longleftrightarrow> inner_key ti tm mi (snd x) = Some e"
  proof (cases "inner_key ti tm mi v")
    case None
    then show ?thesis using bucket_target_eq [OF fits] by (simp add: iv)
  next
    case (Some e')
    then have "aligned bn (min_val ti) e'" using assms(3) x iv by auto
    then show ?thesis using bucket_target_eq [OF fits] Some nn aligned_div_eq [OF _ assms(2), of e'] by (simp add: iv)
  qed
qed

section \<open>The matching set of a one-to-many table\<close>

lemma matching_set_rows:
  assumes "table_holds tgt row n M buff0 buff" and "b < n" and "buff0 ! b < 0"
    and "2 * n + size M \<le> length buff" and "layout table = OneToMany" and "entry_count table = n"
  shows "\<exists>rows. matching_set (table\<lparr>cpu_hash_table_buff := buff\<rparr>) (\<lambda>buff off. load buff (off + int b)) = Some rows
           \<and> mset rows = image_mset (\<lambda>x. int (row x)) (in_bin tgt b M)"
proof -
  have h: "buff ! (n + b) = int (size (in_bin tgt b M))" "in_bin tgt b M = {#} \<Longrightarrow> buff ! b = buff0 ! b"
    "in_bin tgt b M \<noteq> {#} \<Longrightarrow> buff ! b = int (bin_start tgt M b) \<and>
       mset (map (\<lambda>k. buff ! (2 * n + bin_start tgt M b + k)) [0..<size (in_bin tgt b M)]) = image_mset (\<lambda>x. int (row x)) (in_bin tgt b M)"
    using assms(1,2) by (auto simp: table_holds_def)
  have loads: "load buff (int b) = Some (buff ! b)" "load buff (int n + int b) = Some (buff ! (n + b))"
    using assms(2,4) load_nat [of "n + b" buff] by simp_all
  show ?thesis
  proof (cases "in_bin tgt b M = {#}")
    case True
    then show ?thesis using h assms(3) loads assms(5,6) by (simp add: matching_set_def getComponentBufferSize_def Let_def)
  next
    case False
    let ?st = "bin_start tgt M b" and ?c = "size (in_bin tgt b M)"
    have "?st + ?c \<le> bin_start tgt M n" using bin_start_mono [of "Suc b" n tgt M] assms(2) by (simp add: bin_start_Suc)
    then have bound: "2 * n + ?st + ?c \<le> length buff" using bin_start_le_size [of tgt M n] assms(4) by linarith
    have "[0..int ?c - 1] = map int [0..<?c]" by (rule nth_equalityI) simp_all
    moreover have "collect (map (\<lambda>k. load buff (2 * int n + int ?st + k)) (map int [0..<?c]))
        = Some (map (\<lambda>k. buff ! (2 * n + ?st + k)) [0..<?c])"
    proof -
      have "map (\<lambda>k. load buff (2 * int n + int ?st + k)) (map int [0..<?c])
          = map (\<lambda>k. Some (buff ! (2 * n + ?st + k))) [0..<?c]"
        using bound load_nat [of "2 * n + ?st + _" buff] by (simp add: add.assoc)
      then show ?thesis by (simp only: collect_map_Some)
    qed
    ultimately have "matching_set (table\<lparr>cpu_hash_table_buff := buff\<rparr>) (\<lambda>buff off. load buff (off + int b))
        = Some (map (\<lambda>k. buff ! (2 * n + ?st + k)) [0..<?c])"
      using h(1) h(3) [OF False] loads assms(5,6) by (simp add: matching_set_def getComponentBufferSize_def Let_def)
    then show ?thesis using h(3) [OF False] by blast
  qed
qed

end
