(* ===== verification/Perfect_Hash_Props.thy ===== *)
theory Perfect_Hash_Props
  imports Perfect_Hash_Probe
begin

text \<open>
  The properties of the perfect-hash join tables: what a build returns for every schedule of its
  threads, and that probing the built table returns exactly the rows that SQL equality relates
  to the probe key.  The last part shows where this fails, for a date column under
  \<open>IS NOT DISTINCT FROM\<close>, and the wrap-around of the entry count.
\<close>

section \<open>The builder\<close>

text \<open>
  A build the planner lets through: the entry info is the one computed for the column's range,
  the range is not the whole of \<open>int64_t\<close>, the entries and the rows fit an \<open>int32_t\<close>, there is
  a thread, and the column is well-formed with its elements inside the range.
\<close>

definition build_ok ::
    "build_env \<Rightarrow> JoinColumn \<Rightarrow> col_range \<Rightarrow> bool \<Rightarrow> inner_type \<Rightarrow> id_map \<Rightarrow> HashEntryInfo \<Rightarrow> bool" where
  "build_ok env jc cr bw ty str_map hei \<longleftrightarrow>
     (let ti = builder_type_info ty cr bw in
      get_bucketized_hash_entry_info (is_date ty) cr bw = Inr hei \<and>
      int_max cr - int_min cr + 2 < 2 ^ 64 \<and>
      bucket_entries ti (bucket_normalization hei) < 2 ^ 31 \<and>
      0 < env_threads env \<and> num_elems jc < 2 ^ 31 \<and> col_ok jc ti \<and>
      (\<forall>v \<in> set (col_vals jc ti). elem_ok ti (map_data str_map) (map_start str_map) v))"

lemma ceil_div_mod: "0 < (b :: nat) \<Longrightarrow> (n + b - 1) div b = (if n mod b \<noteq> 0 then n div b + 1 else n div b)"
proof -
  assume b: "0 < b"
  have n: "n = b * (n div b) + n mod b" by simp
  show ?thesis
  proof (cases "n mod b = 0")
    case True
    then have "n + b - 1 = (b - 1) + (n div b) * b" using n b by (simp add: mult.commute)
    then have "(n + b - 1) div b = ((b - 1) + (n div b) * b) div b" by (rule arg_cong)
    also have "\<dots> = n div b" using b by (simp only: div_mult_self1 [OF less_imp_neq [OF b, symmetric]]) simp
    finally show ?thesis using True by simp
  next
    case False
    moreover have "(n div b + 1) * b = b * (n div b) + b" by simp
    ultimately have "n + b - 1 = (n mod b - 1) + (n div b + 1) * b" using n b by linarith
    then have "(n + b - 1) div b = ((n mod b - 1) + (n div b + 1) * b) div b" by (rule arg_cong)
    also have "\<dots> = n div b + 1"
    proof -
      have "n mod b < b" using b by simp
      then have "n mod b - 1 < b" by linarith
      then show ?thesis using b by (simp only: div_mult_self1 [OF less_imp_neq [OF b, symmetric]]) simp
    qed
    finally show ?thesis using False by simp
  qed
qed

lemma build_ok_entries:
  assumes "build_ok env jc cr bw ty str_map hei"
  defines "ti \<equiv> builder_type_info ty cr bw" and "bn \<equiv> bucket_normalization hei"
  shows "getNormalizedHashEntryCount hei = Some (bucket_entries ti bn)" and "0 < bn"
    and "int_min cr \<le> int_max cr + 1" and "\<not> is_date ty \<Longrightarrow> bn = 1"
    and "hash_entry_count hei = key_entries ti"
proof -
  have info: "get_bucketized_hash_entry_info (is_date ty) cr bw = Inr hei" and small: "int_max cr - int_min cr + 2 < 2 ^ 64"
    using assms(1) by (simp_all add: build_ok_def Let_def)
  have ti: "key_entries ti = nat (int_max cr - int_min cr + 1 + (if bw then 1 else 0))"
    by (simp add: ti_def key_entries_def builder_type_info_def)
  show bn: "0 < bn" using info by (auto simp: bn_def get_bucketized_hash_entry_info_def Let_def split: if_splits)
  show le: "int_min cr \<le> int_max cr + 1"
    using info by (auto simp: get_bucketized_hash_entry_info_def split: if_splits)
  show "\<not> is_date ty \<Longrightarrow> bn = 1"
    using info by (auto simp: bn_def get_bucketized_hash_entry_info_def Let_def split: if_splits)
  show cnt: "hash_entry_count hei = key_entries ti"
    using info small le unfolding ti
    by (auto simp: get_bucketized_hash_entry_info_def Let_def split: if_splits)
  have "nat bn \<noteq> 0" using bn by simp
  then show "getNormalizedHashEntryCount hei = Some (bucket_entries ti bn)"
    using bn cnt ceil_div_mod [of "nat bn" "key_entries ti"] unfolding getNormalizedHashEntryCount_def bucket_entries_def bn_def [symmetric]
    by (simp add: Let_def)
qed

lemma build_ok_fits:
  assumes "build_ok env jc cr bw ty str_map hei"
  defines "ti \<equiv> builder_type_info ty cr bw"
  shows "\<forall>x \<in># mset (col_items jc ti). ctx_fits (ti, map_data str_map, map_start str_map, bucket_normalization hei) x \<and> fst x < 2 ^ 31"
proof -
  have "length (col_vals jc ti) = num_elems jc" using assms by (intro length_col_vals) (simp add: build_ok_def Let_def)
  then show ?thesis
    using assms(1) build_ok_entries(2,3) [OF assms(1)] unfolding ti_def [symmetric]
    by (auto simp: build_ok_def Let_def col_items_def ctx_fits_def ti_def builder_type_info_def)
qed

lemma fill_bucketized_holds:
  assumes "col_ok jc ti" and "0 < T" and "num_elems jc < 2 ^ 31" and "0 < bucket_entries ti bn"
    and "\<forall>x \<in># mset (col_items jc ti). ctx_fits (ti, tm, mi, bn) x \<and> fst x < 2 ^ 31"
    and "2 * bucket_entries ti bn + num_elems jc \<le> length buff"
  shows "\<exists>buff'. fill_one_to_many_hash_table_impl sc buff (bucket_entries ti bn) jc ti tm mi T
             (\<lambda>e. get_bucketized_hash_slot 0 e (min_val ti) bn) = Some buff'
           \<and> table_holds (bucket_target (ti, tm, mi, bn)) fst (bucket_entries ti bn) (mset (col_items jc ti)) buff buff'"
proof -
  obtain slices where sl: "collect (map (\<lambda>t. slice_elements jc ti t T) [0..<T]) = Some slices"
      "mset (concat slices) = mset (col_items jc ti)"
    using build_slices [OF assms(1,2)] .
  have size: "size (mset (col_items jc ti)) = num_elems jc" by (simp add: col_items_def)
  have tgt: "perfect_target ti tm mi (\<lambda>e. get_bucketized_hash_slot 0 e (min_val ti) bn) = bucket_target (ti, tm, mi, bn)"
    by (simp add: bucket_target_def)
  have n: "ctx_entries (ti, tm, mi, bn) = bucket_entries ti bn" by (simp add: ctx_entries_def)
  show ?thesis
    using bucket_bins.build_holds [of slices "(ti, tm, mi, bn)" fst buff T sc] assms
    unfolding fill_one_to_many_hash_table_impl_def sl(2) size n by (simp add: sl(1) tgt Let_def)
qed

lemma fill_plain_holds:
  assumes "col_ok jc ti" and "0 < T" and "num_elems jc < 2 ^ 31" and "0 < key_entries ti"
    and "\<forall>x \<in># mset (col_items jc ti). ctx_fits (ti, tm, mi, bn) x \<and> fst x < 2 ^ 31"
    and "2 * key_entries ti + num_elems jc \<le> length buff"
  shows "\<exists>buff'. fill_one_to_many_hash_table_impl sc buff (key_entries ti) jc ti tm mi T
             (\<lambda>e. get_hash_slot 0 e (min_val ti)) = Some buff'
           \<and> table_holds (plain_target (ti, tm, mi, bn)) fst (key_entries ti) (mset (col_items jc ti)) buff buff'"
proof -
  obtain slices where sl: "collect (map (\<lambda>t. slice_elements jc ti t T) [0..<T]) = Some slices"
      "mset (concat slices) = mset (col_items jc ti)"
    using build_slices [OF assms(1,2)] .
  have size: "size (mset (col_items jc ti)) = num_elems jc" by (simp add: col_items_def)
  have tgt: "perfect_target ti tm mi (\<lambda>e. get_hash_slot 0 e (min_val ti)) = plain_target (ti, tm, mi, bn)"
    by (simp add: plain_target_def)
  have n: "ctx_plain_entries (ti, tm, mi, bn) = key_entries ti" by (simp add: ctx_plain_entries_def)
  show ?thesis
    using plain_bins.build_holds [of slices "(ti, tm, mi, bn)" fst buff T sc] assms
    unfolding fill_one_to_many_hash_table_impl_def sl(2) size n by (simp add: sl(1) tgt Let_def)
qed

lemma plain_is_bucket_1: "plain_target (ti, tm, mi, bn) = bucket_target (ti, tm, mi, 1)"
  by (simp add: plain_target_def bucket_target_def get_hash_slot_def get_bucketized_hash_slot_def)

text \<open>The one-to-many builder always succeeds on a table with entries.\<close>

lemma one_to_many_built:
  assumes ok: "build_ok env jc cr bw ty str_map hei"
  defines "ti \<equiv> builder_type_info ty cr bw" and "bn \<equiv> bucket_normalization hei"
  defines "n \<equiv> bucket_entries ti bn"
  assumes pos: "0 < n"
  shows "\<exists>table buff0. initOneToManyHashTableOnCpu env jc cr bw ty str_map hei (- 1) = Some table
           \<and> layout table = OneToMany \<and> entry_count table = n \<and> (\<forall>b < n. buff0 ! b = - 1)
           \<and> length (cpu_hash_table_buff table) = 2 * n + num_elems jc
           \<and> table_holds (bucket_target (ti, map_data str_map, map_start str_map, bn)) fst n (mset (col_items jc ti))
               buff0 (cpu_hash_table_buff table)"
proof -
  note e = build_ok_entries [OF ok, folded ti_def bn_def, folded n_def]
  note fits = build_ok_fits [OF ok, folded ti_def bn_def]
  have c: "col_ok jc ti" "0 < env_threads env" "num_elems jc < 2 ^ 31" "n < 2 ^ 31"
    using ok unfolding build_ok_def Let_def ti_def n_def bn_def by simp_all
  let ?t0 = "new_PerfectHashTable (env_heap env) OneToMany n (num_elems jc)"
  have l0: "length (cpu_hash_table_buff ?t0) = 2 * n + num_elems jc" by (simp add: new_PerfectHashTable_def)
  define buff0 where "buff0 = replicate n (- 1) @ drop n (cpu_hash_table_buff ?t0)"
  have init: "init_all (env_init_sched env) (env_threads env) (cpu_hash_table_buff ?t0) (int n) (- 1) = Some buff0"
    unfolding buff0_def by (rule init_all_spec) (use c l0 in simp_all)
  have lb: "length buff0 = 2 * n + num_elems jc" using l0 by (simp add: buff0_def)
  have len: "2 * n + num_elems jc \<le> length buff0" using lb by simp
  have "\<exists>buff'. (if is_date ty
               then fill_one_to_many_hash_table_bucketized (env_many_scheds env) buff0 hei jc ti
                      (map_data str_map) (map_start str_map) (env_threads env)
               else fill_one_to_many_hash_table (env_many_scheds env) buff0 hei jc ti
                      (map_data str_map) (map_start str_map) (env_threads env)) = Some buff'
         \<and> table_holds (bucket_target (ti, map_data str_map, map_start str_map, bn)) fst n (mset (col_items jc ti)) buff0 buff'"
  proof (cases "is_date ty")
    case True
    then show ?thesis
      using fill_bucketized_holds [OF c(1,2,3) _ fits, of buff0 "env_many_scheds env"] pos len e(1)
      by (simp add: fill_one_to_many_hash_table_bucketized_def n_def bn_def)
  next
    case False
    then have bn: "bn = 1" by (rule e(4))
    then have n: "key_entries ti = n" "hash_entry_count hei = n" by (simp_all add: n_def bucket_entries_1 e(5))
    show ?thesis
      using fill_plain_holds [OF c(1,2,3) _ fits, of buff0 "env_many_scheds env"] pos len False
      by (simp add: fill_one_to_many_hash_table_def n plain_is_bucket_1 bn)
  qed
  then obtain buff' where b: "(if is_date ty
               then fill_one_to_many_hash_table_bucketized (env_many_scheds env) buff0 hei jc ti
                      (map_data str_map) (map_start str_map) (env_threads env)
               else fill_one_to_many_hash_table (env_many_scheds env) buff0 hei jc ti
                      (map_data str_map) (map_start str_map) (env_threads env)) = Some buff'"
      "table_holds (bucket_target (ti, map_data str_map, map_start str_map, bn)) fst n (mset (col_items jc ti)) buff0 buff'"
    by blast
  have "initOneToManyHashTableOnCpu env jc cr bw ty str_map hei (- 1) = Some (?t0\<lparr>cpu_hash_table_buff := buff'\<rparr>)"
    unfolding initOneToManyHashTableOnCpu_def ti_def [symmetric] Let_def using e(1) init b(1) by simp
  moreover have "length buff' = 2 * n + num_elems jc" using b(2) lb by (simp add: table_holds_def)
  moreover have "\<forall>b < n. buff0 ! b = - 1" by (simp add: buff0_def nth_append)
  ultimately show ?thesis using b(2) by (auto simp: new_PerfectHashTable_def)
qed

section \<open>Probing a one-to-many table\<close>

text \<open>The rows of a column whose key is \<open>e\<close>.\<close>

lemma rows_with_key:
  "image_mset (\<lambda>x. int (fst x)) (filter_mset (\<lambda>x. P (snd x)) (mset (col_items jc ti)))
   = mset (map int (filter (\<lambda>i. P (col_vals jc ti ! i)) [0..<num_elems jc]))"
proof -
  have "filter (\<lambda>x. P (snd x)) (col_items jc ti)
      = map (\<lambda>i. (i, col_vals jc ti ! i)) (filter (\<lambda>i. P (col_vals jc ti ! i)) [0..<num_elems jc])"
    by (simp add: col_items_def filter_map comp_def)
  then have "mset (filter (\<lambda>x. P (snd x)) (col_items jc ti))
      = mset (map (\<lambda>i. (i, col_vals jc ti ! i)) (filter (\<lambda>i. P (col_vals jc ti ! i)) [0..<num_elems jc]))"
    by (rule arg_cong)
  then show ?thesis by (simp add: mset_filter [symmetric] image_mset.compositionality comp_def del: mset_filter)
qed

definition keys_aligned :: "JoinColumn \<Rightarrow> JoinColumnTypeInfo \<Rightarrow> id_map \<Rightarrow> int \<Rightarrow> bool" where
  "keys_aligned jc ti str_map bn \<longleftrightarrow>
     (\<forall>v \<in> set (col_vals jc ti). case inner_key ti (map_data str_map) (map_start str_map) v of
        None \<Rightarrow> True | Some e \<Rightarrow> aligned bn (min_val ti) e)"

text \<open>The rows whose element SQL relates to the probe key \<open>k\<close>.\<close>

definition matching_rows :: "JoinColumn \<Rightarrow> JoinColumnTypeInfo \<Rightarrow> id_map \<Rightarrow> bool \<Rightarrow> int \<Rightarrow> int \<Rightarrow> nat list" where
  "matching_rows jc ti str_map nullable null k =
     filter (\<lambda>i. row_matches ti (map_data str_map) (map_start str_map) nullable null k (col_vals jc ti ! i)) [0..<num_elems jc]"

lemma matching_rows_key:
  assumes "build_ok env jc cr bw ty str_map hei"
  defines "ti \<equiv> builder_type_info ty cr bw"
  shows "matching_rows jc ti str_map nullable null k =
           (case probe_key nullable bw null cr k of None \<Rightarrow> []
            | Some e \<Rightarrow> filter (\<lambda>i. inner_key ti (map_data str_map) (map_start str_map) (col_vals jc ti ! i) = Some e) [0..<num_elems jc])"
proof -
  have len: "length (col_vals jc ti) = num_elems jc" using assms by (intro length_col_vals) (simp add: build_ok_def Let_def)
  have ok: "elem_ok ti (map_data str_map) (map_start str_map) (col_vals jc ti ! i)" if "i < num_elems jc" for i
    using assms that len by (simp add: build_ok_def Let_def)
  have r: "min_val ti = int_min cr" "max_val ti = int_max cr" "uses_bw_eq ti = bw" by (simp_all add: ti_def builder_type_info_def)
  have "row_matches ti (map_data str_map) (map_start str_map) nullable null k (col_vals jc ti ! i) \<longleftrightarrow>
      (\<exists>e. probe_key nullable bw null cr k = Some e \<and> inner_key ti (map_data str_map) (map_start str_map) (col_vals jc ti ! i) = Some e)"
    if "i < num_elems jc" for i
    using row_matches_iff [OF ok [OF that] r(1,2)] by (simp add: r(3))
  then show ?thesis unfolding matching_rows_def by (cases "probe_key nullable bw null cr k") (auto intro!: filter_cong)
qed

lemma matching_set_cong:
  assumes "\<And>off. probe (cpu_hash_table_buff t) off = probe' (cpu_hash_table_buff t) off"
  shows "matching_set t probe = matching_set t probe'"
  using assms by (simp add: matching_set_def Let_def)

lemma in_bin_of_key:
  assumes ok: "build_ok env jc cr bw ty str_map hei"
  defines "ti \<equiv> builder_type_info ty cr bw" and "bn \<equiv> bucket_normalization hei"
  assumes keys: "keys_aligned jc ti str_map bn" and e: "aligned bn (int_min cr) e" "int_min cr \<le> e"
  shows "in_bin (bucket_target (ti, map_data str_map, map_start str_map, bn)) (nat ((e - int_min cr) div bn)) (mset (col_items jc ti))
       = filter_mset (\<lambda>x. inner_key ti (map_data str_map) (map_start str_map) (snd x) = Some e) (mset (col_items jc ti))"
proof -
  have mn: "min_val ti = int_min cr" by (simp add: ti_def builder_type_info_def)
  have "length (col_vals jc ti) = num_elems jc" using ok ti_def by (intro length_col_vals) (simp add: build_ok_def Let_def)
  then have al: "\<forall>x \<in># mset (col_items jc ti). \<forall>e'. inner_key ti (map_data str_map) (map_start str_map) (snd x) = Some e' \<longrightarrow> aligned bn (min_val ti) e'"
    using keys by (auto simp: keys_aligned_def col_items_def split: option.splits)
  have fits: "\<forall>x \<in># mset (col_items jc ti). ctx_fits (ti, map_data str_map, map_start str_map, bn) x"
    using build_ok_fits [OF ok, folded ti_def bn_def] by blast
  show ?thesis
    using in_bin_key [OF fits _ al, of e] e build_ok_entries(2) [OF ok, folded bn_def] by (simp add: mn)
qed

lemma probe_key_slot:
  assumes ok: "build_ok env jc cr bw ty str_map hei" and "is_date ty \<longrightarrow> \<not> bw"
    and "aligned (bucket_normalization hei) (int_min cr) k" and "probe_key nullable bw null cr k = Some e"
  defines "b \<equiv> nat ((e - int_min cr) div bucket_normalization hei)"
  shows "aligned (bucket_normalization hei) (int_min cr) e" and "int_min cr \<le> e"
    and "b < bucket_entries (builder_type_info ty cr bw) (bucket_normalization hei)"
    and "int b = (e - int_min cr) div bucket_normalization hei"
proof -
  let ?bn = "bucket_normalization hei" and ?ti = "builder_type_info ty cr bw"
  have bn: "0 < ?bn" "\<not> is_date ty \<Longrightarrow> ?bn = 1" "int_min cr \<le> int_max cr + 1" using build_ok_entries [OF ok] by simp_all
  have e: "e = k \<or> bw \<and> e = int_max cr + 1" "int_min cr \<le> e" "e \<le> int_max cr + (if bw then 1 else 0)"
    using assms(4) bn(3) by (auto simp: probe_key_def split: if_splits)
  show "aligned ?bn (int_min cr) e" using e(1) assms(2,3) bn(2) by (auto simp: aligned_def)
  show "int_min cr \<le> e" by (rule e)
  have "0 \<le> (e - min_val ?ti) div ?bn \<and> (e - min_val ?ti) div ?bn < int (bucket_entries ?ti ?bn)"
    by (rule key_slot_bounds) (use e bn in \<open>simp_all add: builder_type_info_def\<close>)
  then show "b < bucket_entries ?ti ?bn" and "int b = (e - int_min cr) div ?bn"
    by (auto simp: b_def builder_type_info_def)
qed

lemma one_to_many_matching:
  assumes ok: "build_ok env jc cr bw ty str_map hei"
  defines "ti \<equiv> builder_type_info ty cr bw" and "bn \<equiv> bucket_normalization hei"
  assumes pos: "0 < bucket_entries ti bn" and date: "is_date ty \<longrightarrow> \<not> bw" and keys: "keys_aligned jc ti str_map bn"
  shows "\<exists>table. initOneToManyHashTableOnCpu env jc cr bw ty str_map hei (- 1) = Some table \<and>
           (\<forall>nullable null k. aligned bn (int_min cr) k \<longrightarrow>
              (\<exists>rows. matching_set table (\<lambda>buff off. probe_slot (is_date ty) nullable bw null cr hei buff off k) = Some rows
                 \<and> mset rows = mset (map int (matching_rows jc ti str_map nullable null k))))"
proof -
  let ?n = "bucket_entries ti bn" and ?tgt = "bucket_target (ti, map_data str_map, map_start str_map, bn)"
  note e = build_ok_entries [OF ok, folded ti_def bn_def]
  obtain table buff0 where t: "initOneToManyHashTableOnCpu env jc cr bw ty str_map hei (- 1) = Some table"
      "layout table = OneToMany" "entry_count table = ?n" "\<forall>b < ?n. buff0 ! b = - 1"
      "length (cpu_hash_table_buff table) = 2 * ?n + num_elems jc"
      "table_holds ?tgt fst ?n (mset (col_items jc ti)) buff0 (cpu_hash_table_buff table)"
    using one_to_many_built [OF ok, folded ti_def bn_def] pos by blast
  have upd: "table\<lparr>cpu_hash_table_buff := cpu_hash_table_buff table\<rparr> = table" by simp
  have probe: "probe_slot (is_date ty) nullable bw null cr hei buff off k =
      (case probe_key nullable bw null cr k of None \<Rightarrow> Some (- 1) | Some e \<Rightarrow> load buff (off + (e - int_min cr) div bn))"
    for nullable null buff off k
    unfolding bn_def using e(2,3,4) date by (intro probe_slot_eq) (auto simp: bn_def)
  have "\<exists>rows. matching_set table (\<lambda>buff off. probe_slot (is_date ty) nullable bw null cr hei buff off k) = Some rows
      \<and> mset rows = mset (map int (matching_rows jc ti str_map nullable null k))" if al: "aligned bn (int_min cr) k" for nullable null k
  proof (cases "probe_key nullable bw null cr k")
    case None
    then show ?thesis using matching_rows_key [OF ok, folded ti_def, of nullable null k]
      by (simp add: probe matching_set_def Let_def)
  next
    case (Some key)
    note b = probe_key_slot [OF ok date al [unfolded bn_def] Some, folded ti_def bn_def]
    let ?b = "nat ((key - int_min cr) div bn)"
    have "matching_set table (\<lambda>buff off. probe_slot (is_date ty) nullable bw null cr hei buff off k)
        = matching_set table (\<lambda>buff off. load buff (off + int ?b))"
      by (rule matching_set_cong) (use b(4) Some in \<open>simp add: probe\<close>)
    moreover obtain rows where "matching_set table (\<lambda>buff off. load buff (off + int ?b)) = Some rows"
        "mset rows = image_mset (\<lambda>x. int (fst x)) (in_bin ?tgt ?b (mset (col_items jc ti)))"
      using matching_set_rows [OF t(6) b(3) _ _ t(2,3)] t(4,5) b(3) unfolding upd by (auto simp: col_items_def)
    moreover have "in_bin ?tgt ?b (mset (col_items jc ti)) = filter_mset (\<lambda>x. inner_key ti (map_data str_map) (map_start str_map) (snd x) = Some key) (mset (col_items jc ti))"
      by (rule in_bin_of_key [OF ok, folded ti_def bn_def, OF keys b(1,2)])
    ultimately show ?thesis using matching_rows_key [OF ok, folded ti_def, of nullable null k] Some
      rows_with_key [of "\<lambda>v. inner_key ti (map_data str_map) (map_start str_map) v = Some key" jc ti] by simp
  qed
  then show ?thesis using t(1) by blast
qed

section \<open>One-to-one tables\<close>

text \<open>Two rows of the column have the same key.\<close>

definition duplicate_keys :: "JoinColumn \<Rightarrow> JoinColumnTypeInfo \<Rightarrow> id_map \<Rightarrow> bool" where
  "duplicate_keys jc ti str_map \<longleftrightarrow>
     (\<exists>i \<in> set [0..<num_elems jc]. \<exists>j \<in> set [0..<i]. inner_key ti (map_data str_map) (map_start str_map) (col_vals jc ti ! i) \<noteq> None
        \<and> inner_key ti (map_data str_map) (map_start str_map) (col_vals jc ti ! i)
          = inner_key ti (map_data str_map) (map_start str_map) (col_vals jc ti ! j))"

lemma two_filtered: "1 < length (filter P [0..<n]) \<longleftrightarrow> (\<exists>i < n. \<exists>j < i. P i \<and> P j)"
proof -
  have "length (filter P [0..<n]) = card {i. i < n \<and> P i}"
    using distinct_card [of "filter P [0..<n]"] by (simp add: conj_commute)
  then have "\<not> 1 < length (filter P [0..<n]) \<longleftrightarrow> (\<forall>a \<in> {i. i < n \<and> P i}. \<forall>b \<in> {i. i < n \<and> P i}. a = b)"
    using card_le_Suc0_iff_eq [of "{i. i < n \<and> P i}"] by (simp add: not_less)
  also have "\<dots> \<longleftrightarrow> \<not> (\<exists>i < n. \<exists>j < i. P i \<and> P j)"
  proof
    assume all: "\<forall>a \<in> {i. i < n \<and> P i}. \<forall>b \<in> {i. i < n \<and> P i}. a = b"
    show "\<not> (\<exists>i < n. \<exists>j < i. P i \<and> P j)"
    proof
      assume "\<exists>i < n. \<exists>j < i. P i \<and> P j"
      then obtain i j where "i < n" "j < i" "P i" "P j" by blast
      then have "i = j" using all by simp
      then show False using \<open>j < i\<close> by simp
    qed
  next
    assume none: "\<not> (\<exists>i < n. \<exists>j < i. P i \<and> P j)"
    show "\<forall>a \<in> {i. i < n \<and> P i}. \<forall>b \<in> {i. i < n \<and> P i}. a = b"
    proof (intro ballI)
      fix a b assume "a \<in> {i. i < n \<and> P i}" "b \<in> {i. i < n \<and> P i}"
      then show "a = b" using none by (cases a b rule: linorder_cases) auto
    qed
  qed
  finally show ?thesis by blast
qed

lemma shared_bin_iff:
  assumes ok: "build_ok env jc cr bw ty str_map hei"
  defines "ti \<equiv> builder_type_info ty cr bw" and "bn \<equiv> bucket_normalization hei"
  assumes keys: "keys_aligned jc ti str_map bn"
  shows "some_bin_shared (bucket_target (ti, map_data str_map, map_start str_map, bn)) (bucket_entries ti bn) (mset (col_items jc ti))
       \<longleftrightarrow> duplicate_keys jc ti str_map"
proof -
  let ?tgt = "bucket_target (ti, map_data str_map, map_start str_map, bn)"
  let ?key = "\<lambda>i. inner_key ti (map_data str_map) (map_start str_map) (col_vals jc ti ! i)"
  have len: "length (col_vals jc ti) = num_elems jc" using ok ti_def by (intro length_col_vals) (simp add: build_ok_def Let_def)
  have mn: "min_val ti = int_min cr" "max_val ti = int_max cr" "uses_bw_eq ti = bw" by (simp_all add: ti_def builder_type_info_def)
  note en = build_ok_entries [OF ok, folded ti_def bn_def]
  have key: "aligned bn (int_min cr) e \<and> int_min cr \<le> e \<and> nat ((e - int_min cr) div bn) < bucket_entries ti bn"
    if "i < num_elems jc" "?key i = Some e" for i e
  proof -
    have v: "col_vals jc ti ! i \<in> set (col_vals jc ti)" using that(1) len by simp
    then have "elem_ok ti (map_data str_map) (map_start str_map) (col_vals jc ti ! i)" using ok by (simp add: build_ok_def Let_def ti_def)
    from inner_key_range [OF this that(2)] en(3) have r: "min_val ti \<le> e" "e \<le> max_val ti + (if uses_bw_eq ti then 1 else 0)"
      by (simp_all add: mn)
    moreover have "aligned bn (min_val ti) e" using keys v that(2) by (force simp: keys_aligned_def split: option.splits)
    ultimately show ?thesis using key_slot_bounds [OF r en(2)] by (auto simp: mn)
  qed
  have sz: "size (filter_mset (\<lambda>x. inner_key ti (map_data str_map) (map_start str_map) (snd x) = Some e) (mset (col_items jc ti)))
      = length (filter (\<lambda>i. ?key i = Some e) [0..<num_elems jc])" for e
  proof -
    have "size (image_mset (\<lambda>x. int (fst x)) (filter_mset (\<lambda>x. inner_key ti (map_data str_map) (map_start str_map) (snd x) = Some e) (mset (col_items jc ti))))
        = size (mset (map int (filter (\<lambda>i. ?key i = Some e) [0..<num_elems jc])))"
      by (simp only: rows_with_key [of "\<lambda>v. inner_key ti (map_data str_map) (map_start str_map) v = Some e" jc ti])
    then show ?thesis by (simp only: size_image_mset size_mset length_map)
  qed
  have bin: "size (in_bin ?tgt (nat ((e - int_min cr) div bn)) (mset (col_items jc ti))) = length (filter (\<lambda>i. ?key i = Some e) [0..<num_elems jc])"
    if "i < num_elems jc" "?key i = Some e" for i e
    using in_bin_of_key [OF ok, folded ti_def bn_def, OF keys, of e] key [OF that] sz [of e] by simp
  show ?thesis
  proof
    assume "duplicate_keys jc ti str_map"
    then obtain i j e where d: "i < num_elems jc" "j < i" "?key i = Some e" "?key j = Some e"
      unfolding duplicate_keys_def by (metis atLeastLessThan_iff not_Some_eq set_upt)
    then have "1 < length (filter (\<lambda>i. ?key i = Some e) [0..<num_elems jc])" unfolding two_filtered by blast
    then show "some_bin_shared ?tgt (bucket_entries ti bn) (mset (col_items jc ti))"
      using bin [OF d(1,3)] key [OF d(1,3)] by (auto simp: some_bin_shared_def)
  next
    assume "some_bin_shared ?tgt (bucket_entries ti bn) (mset (col_items jc ti))"
    then obtain b where b: "1 < size (in_bin ?tgt b (mset (col_items jc ti)))" by (auto simp: some_bin_shared_def)
    then obtain x where "x \<in># in_bin ?tgt b (mset (col_items jc ti))" by (metis less_nat_zero_code multiset_nonemptyE size_empty)
    then obtain i where i: "i < num_elems jc" "?tgt (i, col_vals jc ti ! i) = Some (Some (int b))"
      by (auto simp: in_bin_def col_items_def)
    have "ctx_fits (ti, map_data str_map, map_start str_map, bn) (i, col_vals jc ti ! i)"
      using build_ok_fits [OF ok, folded ti_def bn_def] i(1) by (auto simp: col_items_def)
    then obtain e where e: "?key i = Some e" "(e - int_min cr) div bn = int b"
      using i(2) by (auto simp: bucket_target_eq mn)
    have "1 < length (filter (\<lambda>i. ?key i = Some e) [0..<num_elems jc])" using bin [OF i(1) e(1)] b e(2) by simp
    then show "duplicate_keys jc ti str_map" unfolding two_filtered duplicate_keys_def by (metis atLeast0LessThan lessThan_iff option.distinct(1) set_upt)
  qed
qed

lemma one_to_one_built:
  assumes ok: "build_ok env jc cr bw ty str_map hei"
  defines "ti \<equiv> builder_type_info ty cr bw" and "bn \<equiv> bucket_normalization hei"
  defines "n \<equiv> bucket_entries ti bn" and "tgt \<equiv> bucket_target (ti, map_data str_map, map_start str_map, bn)"
  shows "\<exists>r. initOneToOneHashTableOnCpu env jc cr bw ty str_map semi OneToOne hei (- 1) = Some r \<and>
           (case r of Inl err \<Rightarrow> err = NeedsOneToManyHash \<and> \<not> semi \<and> some_bin_shared tgt n (mset (col_items jc ti))
            | Inr table \<Rightarrow> layout table = OneToOne \<and> one_inv tgt semi n (- 1) (cpu_hash_table_buff table) (mset (col_items jc ti)))"
proof -
  note e = build_ok_entries [OF ok, folded ti_def bn_def, folded n_def]
  note fits = build_ok_fits [OF ok, folded ti_def bn_def]
  have c: "col_ok jc ti" "0 < env_threads env" "n < 2 ^ 31"
    using ok unfolding build_ok_def Let_def ti_def n_def bn_def by simp_all
  let ?t0 = "new_PerfectHashTable (env_heap env) OneToOne n 0"
  have l0: "length (cpu_hash_table_buff ?t0) = n" by (simp add: new_PerfectHashTable_def)
  have init: "init_all (env_init_sched env) (env_threads env) (cpu_hash_table_buff ?t0) (int n) (- 1) = Some (replicate n (- 1))"
    using init_all_spec [OF c(3,2), of "cpu_hash_table_buff ?t0"] l0 by simp
  obtain slices where sl: "collect (map (\<lambda>t. slice_elements jc ti t (env_threads env)) [0..<env_threads env]) = Some slices"
      "mset (concat slices) = mset (col_items jc ti)"
    using build_slices [OF c(1,2)] .
  let ?f = "fill_body ti (map_data str_map) (map_start str_map)
      (filling_func (\<lambda>e. get_bucketized_hash_slot 0 e (min_val ti) bn) semi (- 1))"
  let ?Bad = "\<not> semi \<and> some_bin_shared tgt n (mset (col_items jc ti))"
  have bi: "body_inv ?f (one_inv tgt semi n (- 1)) (mset (concat slices)) ?Bad"
    using fill_body_inv [of "mset (concat slices)" ti "map_data str_map" "map_start str_map" bn "- 1" semi] fits
    unfolding sl(2) tgt_def n_def by (simp add: ctx_entries_def)
  have i0: "one_inv tgt semi n (- 1) (replicate n (- 1)) {#}" by (simp add: one_inv_def one_bin_def)
  obtain buff' rs A where r: "run_threads ?f (env_fill_sched env) (replicate n (- 1)) slices = Some (buff', rs)"
      "length rs = length slices" "one_inv tgt semi n (- 1) buff' A"
      "(\<forall>r \<in> set rs. r = 0) \<longrightarrow> A = mset (concat slices)" "(\<exists>r \<in> set rs. r \<noteq> 0) \<longrightarrow> ?Bad"
    by (rule run_threads_inv [OF bi i0, of "env_fill_sched env"]) blast
  have build: "initOneToOneHashTableOnCpu env jc cr bw ty str_map semi OneToOne hei (- 1)
      = Some (if \<exists>c \<in> set rs. c \<noteq> 0 then Inl NeedsOneToManyHash else Inr (?t0\<lparr>cpu_hash_table_buff := buff'\<rparr>))"
    unfolding initOneToOneHashTableOnCpu_def ti_def [symmetric] bn_def [symmetric] Let_def using e(1) init sl(1) r(1) by simp
  show ?thesis
  proof (cases "\<exists>c \<in> set rs. c \<noteq> 0")
    case True
    then show ?thesis using build r(5) by simp
  next
    case False
    then have "A = mset (col_items jc ti)" using r(4) sl(2) by blast
    then show ?thesis using build False r(3) by (simp add: new_PerfectHashTable_def)
  qed
qed

lemma one_to_one_probe:
  assumes ok: "build_ok env jc cr bw ty str_map hei"
  defines "ti \<equiv> builder_type_info ty cr bw" and "bn \<equiv> bucket_normalization hei"
  assumes date: "is_date ty \<longrightarrow> \<not> bw" and keys: "keys_aligned jc ti str_map bn" and al: "aligned bn (int_min cr) k"
    and inv: "one_inv (bucket_target (ti, map_data str_map, map_start str_map, bn)) semi (bucket_entries ti bn) (- 1) buff (mset (col_items jc ti))"
  shows "\<exists>r. probe_slot (is_date ty) nullable bw null cr hei buff 0 k = Some r \<and>
           (if matching_rows jc ti str_map nullable null k = [] then r = - 1
            else r \<in> int ` set (matching_rows jc ti str_map nullable null k))"
proof -
  note e = build_ok_entries [OF ok, folded ti_def bn_def]
  let ?tgt = "bucket_target (ti, map_data str_map, map_start str_map, bn)"
  have probe: "probe_slot (is_date ty) nullable bw null cr hei buff 0 k =
      (case probe_key nullable bw null cr k of None \<Rightarrow> Some (- 1) | Some e \<Rightarrow> load buff (0 + (e - int_min cr) div bn))"
    unfolding bn_def using e(2,3,4) date by (intro probe_slot_eq) (auto simp: bn_def)
  show ?thesis
  proof (cases "probe_key nullable bw null cr k")
    case None
    then show ?thesis using matching_rows_key [OF ok, folded ti_def, of nullable null k] by (simp add: probe)
  next
    case (Some key)
    note b = probe_key_slot [OF ok date al [unfolded bn_def] Some, folded ti_def bn_def]
    let ?b = "nat ((key - int_min cr) div bn)" and ?M = "mset (col_items jc ti)"
    have "length buff = bucket_entries ti bn" and ob: "one_bin ?tgt semi (- 1) (buff ! ?b) ?M ?b"
      using inv b(3) by (simp_all add: one_inv_def)
    then have "load buff (0 + (key - int_min cr) div bn) = Some (buff ! ?b)"
      using load_nat [of ?b buff] b(3) unfolding b(4) by simp
    then have "probe_slot (is_date ty) nullable bw null cr hei buff 0 k = Some (buff ! ?b)" using Some by (simp add: probe)
    moreover have "image_mset (\<lambda>x. int (fst x)) (in_bin ?tgt ?b ?M) = mset (map int (matching_rows jc ti str_map nullable null k))"
      using in_bin_of_key [OF ok, folded ti_def bn_def, OF keys b(1,2)] matching_rows_key [OF ok, folded ti_def, of nullable null k] Some
        rows_with_key [of "\<lambda>v. inner_key ti (map_data str_map) (map_start str_map) v = Some key" jc ti] by simp
    then have "in_bin ?tgt ?b ?M = {#} \<longleftrightarrow> matching_rows jc ti str_map nullable null k = []"
      and "set_mset (image_mset (\<lambda>x. int (fst x)) (in_bin ?tgt ?b ?M)) = int ` set (matching_rows jc ti str_map nullable null k)"
      by (metis image_mset_is_empty_iff map_is_Nil_conv mset_zero_iff, metis set_map set_mset_mset)
    ultimately show ?thesis using ob unfolding one_bin_def by (auto split: if_splits)
  qed
qed

lemma unique_matching_row:
  assumes ok: "build_ok env jc cr bw ty str_map hei" and "\<not> duplicate_keys jc (builder_type_info ty cr bw) str_map"
  shows "length (matching_rows jc (builder_type_info ty cr bw) str_map nullable null k) \<le> 1"
proof (cases "probe_key nullable bw null cr k")
  case None
  then show ?thesis using matching_rows_key [OF ok, of nullable null k] by simp
next
  case (Some e)
  let ?key = "\<lambda>i. inner_key (builder_type_info ty cr bw) (map_data str_map) (map_start str_map) (col_vals jc (builder_type_info ty cr bw) ! i)"
  have "\<not> (\<exists>i < num_elems jc. \<exists>j < i. ?key i = Some e \<and> ?key j = Some e)"
    using assms(2) unfolding duplicate_keys_def by (metis atLeast0LessThan lessThan_iff option.distinct(1) set_upt)
  then have "\<not> 1 < length (filter (\<lambda>i. ?key i = Some e) [0..<num_elems jc])" by (simp only: two_filtered not_False_eq_True)
  then show ?thesis using Some matching_rows_key [OF ok, of nullable null k] by simp
qed

lemma one_to_one_exact:
  assumes ok: "build_ok env jc cr bw ty str_map hei" and date: "is_date ty \<longrightarrow> \<not> bw"
    and keys: "keys_aligned jc (builder_type_info ty cr bw) str_map (bucket_normalization hei)"
  shows "if duplicate_keys jc (builder_type_info ty cr bw) str_map
         then initOneToOneHashTableOnCpu env jc cr bw ty str_map False OneToOne hei (- 1) = Some (Inl NeedsOneToManyHash)
         else \<exists>table. initOneToOneHashTableOnCpu env jc cr bw ty str_map False OneToOne hei (- 1) = Some (Inr table) \<and>
           layout table = OneToOne \<and>
           (\<forall>nullable null k. aligned (bucket_normalization hei) (int_min cr) k \<longrightarrow>
              (\<exists>r. probe_slot (is_date ty) nullable bw null cr hei (cpu_hash_table_buff table) 0 k = Some r \<and> r \<ge> - 1 \<and>
                 matching_rows jc (builder_type_info ty cr bw) str_map nullable null k = (if r = - 1 then [] else [nat r])))"
proof -
  let ?ti = "builder_type_info ty cr bw" and ?bn = "bucket_normalization hei"
  let ?tgt = "bucket_target (?ti, map_data str_map, map_start str_map, ?bn)" and ?n = "bucket_entries ?ti ?bn" and ?M = "mset (col_items jc ?ti)"
  obtain r where r: "initOneToOneHashTableOnCpu env jc cr bw ty str_map False OneToOne hei (- 1) = Some r"
      "case r of Inl err \<Rightarrow> err = NeedsOneToManyHash \<and> some_bin_shared ?tgt ?n ?M
       | Inr table \<Rightarrow> layout table = OneToOne \<and> one_inv ?tgt False ?n (- 1) (cpu_hash_table_buff table) ?M"
    using one_to_one_built [OF ok, of False] unfolding not_False_eq_True simp_thms by blast
  have shared: "some_bin_shared ?tgt ?n ?M \<longleftrightarrow> duplicate_keys jc ?ti str_map" by (rule shared_bin_iff [OF ok keys])
  show ?thesis
  proof (cases r)
    case (Inl err)
    then show ?thesis using r shared by simp
  next
    case (Inr table)
    then have inv: "one_inv ?tgt False ?n (- 1) (cpu_hash_table_buff table) ?M" and lay: "layout table = OneToOne"
      using r(2) by simp_all
    then have "\<not> some_bin_shared ?tgt ?n ?M" by (auto simp: one_inv_def one_bin_def some_bin_shared_def not_less)
    then have nd: "\<not> duplicate_keys jc ?ti str_map" using shared by simp
    have "\<exists>q. probe_slot (is_date ty) nullable bw null cr hei (cpu_hash_table_buff table) 0 k = Some q \<and> q \<ge> - 1 \<and>
        matching_rows jc ?ti str_map nullable null k = (if q = - 1 then [] else [nat q])"
      if al: "aligned ?bn (int_min cr) k" for nullable null k
    proof -
      obtain q where q: "probe_slot (is_date ty) nullable bw null cr hei (cpu_hash_table_buff table) 0 k = Some q"
          "if matching_rows jc ?ti str_map nullable null k = [] then q = - 1 else q \<in> int ` set (matching_rows jc ?ti str_map nullable null k)"
        using one_to_one_probe [OF ok date keys al inv] by blast
      have "length (matching_rows jc ?ti str_map nullable null k) \<le> 1" by (rule unique_matching_row [OF ok nd])
      then have "matching_rows jc ?ti str_map nullable null k = [] \<or> (\<exists>x. matching_rows jc ?ti str_map nullable null k = [x])"
        by (cases "matching_rows jc ?ti str_map nullable null k") auto
      then show ?thesis using q by auto
    qed
    then show ?thesis using nd r(1) Inr lay by simp
  qed
qed

section \<open>The join as a whole\<close>

lemma one_to_many_joined:
  assumes ok: "build_ok env jc cr bw ty str_map hei"
    and pos: "0 < bucket_entries (builder_type_info ty cr bw) (bucket_normalization hei)" and date: "is_date ty \<longrightarrow> \<not> bw"
    and keys: "keys_aligned jc (builder_type_info ty cr bw) str_map (bucket_normalization hei)" and lay: "lay \<noteq> OneToOne"
  shows "\<exists>table. initHashTableForDevice env jc cr bw ty str_map semi lay = Some (Inr (Some table)) \<and>
           (\<forall>nullable null k. aligned (bucket_normalization hei) (int_min cr) k \<longrightarrow>
              (\<exists>rows. joined_rows table (\<lambda>buff off. probe_slot (is_date ty) nullable bw null cr hei buff off k) = Some rows
                 \<and> mset rows = mset (map int (matching_rows jc (builder_type_info ty cr bw) str_map nullable null k))))"
proof -
  have info: "get_bucketized_hash_entry_info (is_date ty) cr bw = Inr hei" using ok by (simp add: build_ok_def Let_def)
  note n = build_ok_entries(1) [OF ok]
  obtain table where t: "initOneToManyHashTableOnCpu env jc cr bw ty str_map hei (- 1) = Some table"
      "\<forall>nullable null k. aligned (bucket_normalization hei) (int_min cr) k \<longrightarrow>
              (\<exists>rows. matching_set table (\<lambda>buff off. probe_slot (is_date ty) nullable bw null cr hei buff off k) = Some rows
                 \<and> mset rows = mset (map int (matching_rows jc (builder_type_info ty cr bw) str_map nullable null k)))"
    using one_to_many_matching [OF ok pos date keys] by blast
  have "layout table = OneToMany" using one_to_many_built [OF ok pos] t(1) by auto
  moreover have "initHashTableForDevice env jc cr bw ty str_map semi lay = Some (Inr (Some table))"
    using info n t(1) lay by (simp add: initHashTableForDevice_def)
  ultimately show ?thesis using t(2) by (simp add: joined_rows_def)
qed

lemma reify_joined:
  assumes ok: "build_ok env jc cr bw ty str_map hei"
    and pos: "0 < bucket_entries (builder_type_info ty cr bw) (bucket_normalization hei)" and date: "is_date ty \<longrightarrow> \<not> bw"
    and keys: "keys_aligned jc (builder_type_info ty cr bw) str_map (bucket_normalization hei)"
    and tuples: "num_tuples \<le> 2147483647" and poss: "isOneToOneHashPossible (is_date ty) rhs bw [num_elems jc] = Inr possible"
  shows "\<exists>table. reify env jc cr rhs bw ty str_map False preferred num_tuples = Some (Inr (Some table)) \<and>
           (\<forall>nullable null k. aligned (bucket_normalization hei) (int_min cr) k \<longrightarrow>
              (\<exists>rows. joined_rows table (\<lambda>buff off. probe_slot (is_date ty) nullable bw null cr hei buff off k) = Some rows
                 \<and> mset rows = mset (map int (matching_rows jc (builder_type_info ty cr bw) str_map nullable null k))))"
proof -
  let ?lay = "if possible then preferred else OneToMany"
  let ?init = "\<lambda>lay. initHashTableForDevice env jc cr bw ty str_map False lay"
  have re: "reify env jc cr rhs bw ty str_map False preferred num_tuples =
      Option.bind (?init ?lay) (\<lambda>r. if r = Inl NeedsOneToManyHash then ?init OneToMany else Some r)"
    using tuples poss by (simp add: reify_def Let_def)
  note many = one_to_many_joined [OF ok pos date keys, of _ False]
  show ?thesis
  proof (cases "?lay = OneToOne")
    case False
    then show ?thesis using many [OF False] re by fastforce
  next
    case True
    have info: "get_bucketized_hash_entry_info (is_date ty) cr bw = Inr hei" using ok by (simp add: build_ok_def Let_def)
    have i: "?init OneToOne = map_option (\<lambda>r. case r of Inl err \<Rightarrow> Inl err | Inr table \<Rightarrow> Inr (Some table))
        (initOneToOneHashTableOnCpu env jc cr bw ty str_map False OneToOne hei (- 1))"
      using info build_ok_entries(1) [OF ok] pos by (simp add: initHashTableForDevice_def map_conv_bind_option comp_def)
    note one = one_to_one_exact [OF ok date keys]
    show ?thesis
    proof (cases "duplicate_keys jc (builder_type_info ty cr bw) str_map")
      case dup: True
      then have "?init OneToOne = Some (Inl NeedsOneToManyHash)" using one i by simp
      then show ?thesis using many [of OneToMany] re unfolding True by simp
    next
      case False
      then obtain table where t: "initOneToOneHashTableOnCpu env jc cr bw ty str_map False OneToOne hei (- 1) = Some (Inr table)"
          "layout table = OneToOne"
          "\<forall>nullable null k. aligned (bucket_normalization hei) (int_min cr) k \<longrightarrow>
             (\<exists>r. probe_slot (is_date ty) nullable bw null cr hei (cpu_hash_table_buff table) 0 k = Some r \<and> r \<ge> - 1 \<and>
                matching_rows jc (builder_type_info ty cr bw) str_map nullable null k = (if r = - 1 then [] else [nat r]))"
        using one by auto
      have "\<exists>rows. joined_rows table (\<lambda>buff off. probe_slot (is_date ty) nullable bw null cr hei buff off k) = Some rows
          \<and> mset rows = mset (map int (matching_rows jc (builder_type_info ty cr bw) str_map nullable null k))"
        if al: "aligned (bucket_normalization hei) (int_min cr) k" for nullable null k
      proof -
        obtain r where "probe_slot (is_date ty) nullable bw null cr hei (cpu_hash_table_buff table) 0 k = Some r" "r \<ge> - 1"
            "matching_rows jc (builder_type_info ty cr bw) str_map nullable null k = (if r = - 1 then [] else [nat r])"
          using t(3) al by blast
        then show ?thesis using t(2) by (auto simp: joined_rows_def)
      qed
      moreover have "reify env jc cr rhs bw ty str_map False preferred num_tuples = Some (Inr (Some table))"
        using re i t(1) unfolding True by simp
      ultimately show ?thesis by blast
    qed
  qed
qed

end
