(* ===== verification/Perfect_Hash_Claims.thy ===== *)
theory Perfect_Hash_Claims
  imports Perfect_Hash_Props
begin

text \<open>
  The statements about perfect-hash joins, with a concrete build for each that has hypotheses.
\<close>

section \<open>Example builds\<close>

definition ex_int_col :: JoinColumn where
  "ex_int_col =
     \<lparr>col_chunks_buff = [\<lparr>col_buff = Some (encode_column 4 [5, 7]), chunk_num_elems = 2\<rparr>,
                          \<lparr>col_buff = Some (encode_column 4 [- 2147483648, 5]), chunk_num_elems = 2\<rparr>],
      num_chunks = 2, num_elems = 4, elem_sz = 4\<rparr>"

definition ex_uniq_col :: JoinColumn where
  "ex_uniq_col =
     \<lparr>col_chunks_buff = [\<lparr>col_buff = Some (encode_column 4 [7, - 2147483648, 5]), chunk_num_elems = 3\<rparr>],
      num_chunks = 1, num_elems = 3, elem_sz = 4\<rparr>"

definition ex_int_type :: inner_type where
  "ex_int_type = \<lparr>is_date = False, type_size = 4, type_null = - 2147483648, type_kind = Signed\<rparr>"

definition ex_range :: col_range where
  "ex_range = \<lparr>int_min = 5, int_max = 7, bucket = 0, has_nulls = True\<rparr>"

definition ex_hei :: HashEntryInfo where
  "ex_hei = \<lparr>hash_entry_count = 3, bucket_normalization = 1\<rparr>"

definition ex_env :: build_env where
  "ex_env = \<lparr>env_heap = (\<lambda>_. 99), env_threads = 2, env_init_sched = [1, 0], env_fill_sched = [1, 0, 1],
     env_many_scheds = \<lparr>count_sched = [1], pos_sched = [], rowid_sched = [1, 1, 0]\<rparr>\<rparr>"

lemmas ex_defs = ex_int_col_def ex_uniq_col_def ex_int_type_def ex_range_def ex_hei_def ex_env_def
  builder_type_info_def key_entries_def bucket_entries_def get_bucketized_hash_entry_info_def elem_ok_def map_data_def map_start_def

lemma ex_int_col_ok: "col_ok ex_int_col (builder_type_info ex_int_type ex_range bw)"
  by (cases bw) code_simp+

lemma ex_int_col_vals: "col_vals ex_int_col (builder_type_info ex_int_type ex_range bw) = [5, 7, - 2147483648, 5]"
  by (cases bw) code_simp+

lemma ex_int_ok: "build_ok ex_env ex_int_col ex_range False ex_int_type None ex_hei"
  unfolding build_ok_def Let_def using ex_int_col_ok [of False] ex_int_col_vals [of False] by (simp add: ex_defs)















lemma ex_int_pos: "0 < bucket_entries (builder_type_info ex_int_type ex_range False) (bucket_normalization ex_hei)"
  by (simp add: ex_defs)

lemma ex_int_aligned: "keys_aligned ex_int_col (builder_type_info ex_int_type ex_range False) None (bucket_normalization ex_hei)"
  by (auto simp: keys_aligned_def aligned_def ex_hei_def split: option.splits)

lemma ex_uniq_col_ok: "col_ok ex_uniq_col (builder_type_info ex_int_type ex_range False)"
  by code_simp

lemma ex_uniq_col_vals: "col_vals ex_uniq_col (builder_type_info ex_int_type ex_range False) = [7, - 2147483648, 5]"
  by code_simp

lemma ex_uniq_ok: "build_ok ex_env ex_uniq_col ex_range False ex_int_type None ex_hei"
  unfolding build_ok_def Let_def using ex_uniq_col_ok ex_uniq_col_vals by (simp add: ex_defs)

lemma ex_uniq_aligned: "keys_aligned ex_uniq_col (builder_type_info ex_int_type ex_range False) None (bucket_normalization ex_hei)"
  by (auto simp: keys_aligned_def aligned_def ex_hei_def split: option.splits)

lemma ex_uniq_no_dup: "\<not> duplicate_keys ex_uniq_col (builder_type_info ex_int_type ex_range False) None"
  by code_simp

lemma ex_int_dup: "duplicate_keys ex_int_col (builder_type_info ex_int_type ex_range False) None"
  by code_simp

section \<open>Claims\<close>

text \<open>
  C2. The perfect hash join computes the SQL join.  For a build the planner lets through, and for
  every interleaving of the build threads, \<open>reify\<close> stays inside its buffers and yields a table,
  one-to-one or one-to-many; the rows that the generated code joins with a probe key are, up to
  order, exactly the inner rows that SQL equality (or \<open>IS NOT DISTINCT FROM\<close>) relates to the key.
  Dates are covered for \<open>=\<close>; keys lie on bucket boundaries.
\<close>

theorem perfect_join_correct:
  assumes "build_ok env jc cr bw ty str_map hei"
    and "0 < bucket_entries (builder_type_info ty cr bw) (bucket_normalization hei)"
    and "is_date ty \<longrightarrow> \<not> bw"
    and "keys_aligned jc (builder_type_info ty cr bw) str_map (bucket_normalization hei)"
    and "num_tuples \<le> 2147483647"
    and "isOneToOneHashPossible (is_date ty) rhs bw [num_elems jc] = Inr possible"
  shows "\<exists>table. reify env jc cr rhs bw ty str_map False preferred num_tuples = Some (Inr (Some table)) \<and>
           (\<forall>nullable null k. aligned (bucket_normalization hei) (int_min cr) k \<longrightarrow>
              (\<exists>rows. joined_rows table (\<lambda>buff off. probe_slot (is_date ty) nullable bw null cr hei buff off k) = Some rows
                 \<and> mset rows = mset (map int (matching_rows jc (builder_type_info ty cr bw) str_map nullable null k))))"
  by (rule reify_joined [OF assms])

theorem perfect_join_correct_witness:
  "\<exists>table rows. reify ex_env ex_int_col ex_range ex_range False ex_int_type None False OneToOne 4 = Some (Inr (Some table))
     \<and> joined_rows table (\<lambda>buff off. probe_slot False True False (- 1) ex_range ex_hei buff off 5) = Some rows
     \<and> mset rows = {#0, 3#}"
proof -
  have d: "is_date ex_int_type = False" by (simp add: ex_int_type_def)
  have "matching_rows ex_int_col (builder_type_info ex_int_type ex_range False) None True (- 1) 5 = [0, 3]" by code_simp
  moreover have "aligned (bucket_normalization ex_hei) (int_min ex_range) 5" by (simp add: aligned_def ex_hei_def)
  moreover have p: "isOneToOneHashPossible (is_date ex_int_type) ex_range False [num_elems ex_int_col] = Inr True" by code_simp
  ultimately show ?thesis
    using perfect_join_correct [OF ex_int_ok ex_int_pos _ ex_int_aligned _ p, of 4 OneToOne] by (fastforce simp: d)
qed

text \<open>
  C7. A one-to-one build is exact.  \<open>initOneToOneHashTableOnCpu\<close> throws \<open>NeedsOneToManyHash\<close> when
  and only when two inner rows have the same key, whatever the interleaving of its threads;
  otherwise the slot read for a probe key is the matching row, or -1 when no row matches.
\<close>

theorem one_to_one_build_exact:
  assumes "build_ok env jc cr bw ty str_map hei" and "is_date ty \<longrightarrow> \<not> bw"
    and "keys_aligned jc (builder_type_info ty cr bw) str_map (bucket_normalization hei)"
  shows "if duplicate_keys jc (builder_type_info ty cr bw) str_map
         then initOneToOneHashTableOnCpu env jc cr bw ty str_map False OneToOne hei (- 1) = Some (Inl NeedsOneToManyHash)
         else \<exists>table. initOneToOneHashTableOnCpu env jc cr bw ty str_map False OneToOne hei (- 1) = Some (Inr table) \<and>
           layout table = OneToOne \<and>
           (\<forall>nullable null k. aligned (bucket_normalization hei) (int_min cr) k \<longrightarrow>
              (\<exists>r. probe_slot (is_date ty) nullable bw null cr hei (cpu_hash_table_buff table) 0 k = Some r \<and> r \<ge> - 1 \<and>
                 matching_rows jc (builder_type_info ty cr bw) str_map nullable null k = (if r = - 1 then [] else [nat r])))"
  by (rule one_to_one_exact [OF assms])

theorem one_to_one_build_exact_witness:
  "initOneToOneHashTableOnCpu ex_env ex_int_col ex_range False ex_int_type None False OneToOne ex_hei (- 1) = Some (Inl NeedsOneToManyHash)
   \<and> (\<exists>table. initOneToOneHashTableOnCpu ex_env ex_uniq_col ex_range False ex_int_type None False OneToOne ex_hei (- 1) = Some (Inr table))"
  using one_to_one_build_exact [OF ex_int_ok _ ex_int_aligned] ex_int_dup
    one_to_one_build_exact [OF ex_uniq_ok _ ex_uniq_aligned] ex_uniq_no_dup by auto

text \<open>
  A semi-join build never asks for another layout: duplicate keys only leave the first row to
  arrive in the slot.  A probe reads one of the matching rows, or -1 when there is none.
\<close>

theorem semi_join_build:
  assumes "build_ok env jc cr bw ty str_map hei" and "is_date ty \<longrightarrow> \<not> bw"
    and "keys_aligned jc (builder_type_info ty cr bw) str_map (bucket_normalization hei)"
  shows "\<exists>table. initOneToOneHashTableOnCpu env jc cr bw ty str_map True OneToOne hei (- 1) = Some (Inr table) \<and>
           (\<forall>nullable null k. aligned (bucket_normalization hei) (int_min cr) k \<longrightarrow>
              (\<exists>r. probe_slot (is_date ty) nullable bw null cr hei (cpu_hash_table_buff table) 0 k = Some r \<and>
                 (if matching_rows jc (builder_type_info ty cr bw) str_map nullable null k = [] then r = - 1
                  else r \<in> int ` set (matching_rows jc (builder_type_info ty cr bw) str_map nullable null k))))"
proof -
  obtain r where r: "initOneToOneHashTableOnCpu env jc cr bw ty str_map True OneToOne hei (- 1) = Some r"
      "case r of Inl err \<Rightarrow> err = NeedsOneToManyHash \<and> \<not> True \<and>
           some_bin_shared (bucket_target (builder_type_info ty cr bw, map_data str_map, map_start str_map, bucket_normalization hei))
             (bucket_entries (builder_type_info ty cr bw) (bucket_normalization hei)) (mset (col_items jc (builder_type_info ty cr bw)))
       | Inr table \<Rightarrow> layout table = OneToOne \<and>
           one_inv (bucket_target (builder_type_info ty cr bw, map_data str_map, map_start str_map, bucket_normalization hei)) True
           (bucket_entries (builder_type_info ty cr bw) (bucket_normalization hei)) (- 1) (cpu_hash_table_buff table)
           (mset (col_items jc (builder_type_info ty cr bw)))"
    using one_to_one_built [OF assms(1), of True] by blast
  then obtain table where t: "r = Inr table"
      "one_inv (bucket_target (builder_type_info ty cr bw, map_data str_map, map_start str_map, bucket_normalization hei)) True
         (bucket_entries (builder_type_info ty cr bw) (bucket_normalization hei)) (- 1) (cpu_hash_table_buff table)
         (mset (col_items jc (builder_type_info ty cr bw)))"
    by (cases r) simp_all
  then show ?thesis using r(1) one_to_one_probe [OF assms(1-3) _ t(2)] by simp
qed

theorem semi_join_build_witness:
  "\<exists>table r. initOneToOneHashTableOnCpu ex_env ex_int_col ex_range False ex_int_type None True OneToOne ex_hei (- 1) = Some (Inr table)
     \<and> probe_slot False True False (- 1) ex_range ex_hei (cpu_hash_table_buff table) 0 5 = Some r \<and> r \<in> {0, 3}"
proof -
  have d: "is_date ex_int_type = False" by (simp add: ex_int_type_def)
  have "matching_rows ex_int_col (builder_type_info ex_int_type ex_range False) None True (- 1) 5 = [0, 3]" by code_simp
  moreover have "aligned (bucket_normalization ex_hei) (int_min ex_range) 5" by (simp add: aligned_def ex_hei_def)
  ultimately show ?thesis
    using semi_join_build [OF ex_int_ok _ ex_int_aligned] by (fastforce simp: d)
qed

text \<open>
  C20. The parallel prefix sum of \<open>inclusive_scan\<close>, with its per-thread partial sums, computes the
  sequential prefix sum, with \<open>int32_t\<close> wrap-around, for every number of threads.
\<close>

theorem inclusive_scan_parallel: "inclusive_scan xs thread_count = scan_from 0 xs"
  by (rule inclusive_scan_eq)

text \<open>
  The AVX512 variant of \<open>init_hash_join_buff_cpu\<close> writes exactly what the scalar loop writes,
  for every buffer address and every range, and leaves the buffer exactly when the scalar loop does.
\<close>

theorem init_avx512_equiv:
  "init_hash_join_buff_avx512 address buff invalid_slot_val start end' = init_hash_join_buff_cpu buff invalid_slot_val start end'"
  by (rule init_hash_join_buff_avx512_run)


text \<open>
  C33. The one-to-many build of a column without a non-null value aborts: its range is empty, so
  there is no entry, and the check on the number of entries fails.  The one-to-one layout, which
  would return early, is not tried for two or more rows.
\<close>

theorem all_null_column_aborts:
  assumes "int_min cr = 0" and "int_max cr = - 1" and "1 < num_elems jc" and "has_nulls cr" and "num_tuples \<le> 2147483647"
  shows "reify env jc cr cr False ty str_map semi preferred num_tuples = None"
proof -
  have info: "get_bucketized_hash_entry_info (is_date ty) cr False = Inr \<lparr>hash_entry_count = 0, bucket_normalization = 1\<rparr>"
    using assms by (simp add: get_bucketized_hash_entry_info_def)
  have n: "getNormalizedHashEntryCount \<lparr>hash_entry_count = 0, bucket_normalization = 1\<rparr> = Some 0"
    by (simp add: getNormalizedHashEntryCount_def)
  have poss: "isOneToOneHashPossible (is_date ty) cr False [num_elems jc] = Inr False"
    using assms(3,4) by (simp add: isOneToOneHashPossible_def info n)
  have phases: "fill_one_to_many_hash_table_impl sc buff 0 jc ti tm mi T sel = None" for sc buff ti tm mi T sel
    unfolding fill_one_to_many_hash_table_impl_def fill_one_to_many_phases_def
    by (auto simp: bind_eq_None_conv Let_def split: prod.splits)
  have "initOneToManyHashTableOnCpu env jc cr False ty str_map \<lparr>hash_entry_count = 0, bucket_normalization = 1\<rparr> (- 1) = None"
    by (auto simp: initOneToManyHashTableOnCpu_def n fill_one_to_many_hash_table_bucketized_def fill_one_to_many_hash_table_def
        phases Let_def bind_eq_None_conv)
  then show ?thesis using assms(5) by (simp add: reify_def poss initHashTableForDevice_def info n)
qed

theorem all_null_column_aborts_witness:
  "reify ex_env (ex_uniq_col\<lparr>col_chunks_buff := [\<lparr>col_buff = Some (encode_column 4 [- 2147483648, - 2147483648, - 2147483648]), chunk_num_elems = 3\<rparr>]\<rparr>)
     \<lparr>int_min = 0, int_max = - 1, bucket = 0, has_nulls = True\<rparr> \<lparr>int_min = 0, int_max = - 1, bucket = 0, has_nulls = True\<rparr>
     False ex_int_type None False OneToOne 3 = None"
  by (rule all_null_column_aborts) (simp_all add: ex_uniq_col_def)

end
