(* ===== verification/Probe_Table.thy ===== *)
theory Probe_Table
  imports HDK_Prelude
begin

text \<open>
  Open addressing with linear probing, as the group-by buffers and the baseline join tables use
  it: the home slot of a key is tried first, then the following slots cyclically, until a slot is
  empty (and is claimed), holds the key, or the home slot is reached again.  The locale
  \<open>probe_table\<close> is the interface of the operation that tries one slot; its theorems say what a
  lookup-or-insert returns, that the invariant of the table is kept, and what a whole sequence of
  keys does to an empty table.
\<close>

section \<open>The probing loop\<close>

text \<open>
  \<open>attempt b i\<close> tries slot \<open>i\<close>: \<open>None\<close> is an access outside the buffer, \<open>Some (b', None)\<close> a slot held
  by another key.  The start slot is a residue modulo the number of entries; the loop is only
  entered with such a start.
\<close>

function probe_loop :: "('b \<Rightarrow> nat \<Rightarrow> ('b \<times> 'r option) option) \<Rightarrow> nat \<Rightarrow> nat \<Rightarrow> nat \<Rightarrow> 'b \<Rightarrow> ('b \<times> 'r option) option" where
  "probe_loop attempt n h h_probe b =
     (if n \<le> h \<or> n \<le> h_probe then None
      else if h_probe = h then Some (b, None)
      else case attempt b h_probe of
             None \<Rightarrow> None
           | Some (b', Some r) \<Rightarrow> Some (b', Some r)
           | Some (b', None) \<Rightarrow> probe_loop attempt n h (Suc h_probe mod n) b')"
  by pat_completeness auto

lemma dist_next:
  assumes "h < n" and "p < n" and "p \<noteq> h"
  shows "(h + n - Suc p mod n) mod n < (h + n - p) mod n"
proof (cases "Suc p = n")
  case True
  then have "(h + n - p) mod n = Suc h mod n" and "(h + n - Suc p mod n) mod n = h"
    using assms by (simp_all add: Suc_diff_le [symmetric])
  moreover have "Suc h < n" using assms True by simp
  ultimately show ?thesis by simp
next
  case False
  then have p: "Suc p mod n = Suc p" using assms(2) by simp
  show ?thesis
  proof (cases "h < p")
    case True
    then show ?thesis using assms p by simp
  next
    case False
    then have "(h + n - p) mod n = h - p" and "(h + n - Suc p) mod n = h - Suc p"
      using assms by (simp_all add: mod_if)
    then show ?thesis using p assms False by simp
  qed
qed

termination probe_loop
  by (relation "measure (\<lambda>(attempt, n, h, p, b). (h + n - p) mod n)") (auto intro: dist_next simp: not_le)

declare probe_loop.simps [simp del]

definition probe_find :: "('b \<Rightarrow> nat \<Rightarrow> ('b \<times> 'r option) option) \<Rightarrow> nat \<Rightarrow> nat \<Rightarrow> 'b \<Rightarrow> ('b \<times> 'r option) option" where
  "probe_find attempt n h b =
     (case attempt b h of
        None \<Rightarrow> None
      | Some (b', Some r) \<Rightarrow> Some (b', Some r)
      | Some (b', None) \<Rightarrow> probe_loop attempt n h (Suc h mod n) b')"

text \<open>
  The variants that consult the watchdog after every 100 slots of the loop: \<open>wd c\<close> is the answer
  of call \<open>c\<close> of \<open>dynamic_watchdog\<close>, and the search is given up when it is true.
\<close>

function probe_loop_wd :: "('b \<Rightarrow> nat \<Rightarrow> ('b \<times> 'r option) option) \<Rightarrow> (nat \<Rightarrow> bool) \<Rightarrow> nat \<Rightarrow> nat \<Rightarrow> nat \<Rightarrow> nat \<Rightarrow> nat
    \<Rightarrow> 'b \<Rightarrow> ('b \<times> 'r option) option" where
  "probe_loop_wd attempt wd n h h_probe watchdog_countdown calls b =
     (if n \<le> h \<or> n \<le> h_probe then None
      else if h_probe = h then Some (b, None)
      else case attempt b h_probe of
             None \<Rightarrow> None
           | Some (b', Some r) \<Rightarrow> Some (b', Some r)
           | Some (b', None) \<Rightarrow>
               if watchdog_countdown - 1 = 0
               then if wd calls then Some (b', None)
                    else probe_loop_wd attempt wd n h (Suc h_probe mod n) 100 (Suc calls) b'
               else probe_loop_wd attempt wd n h (Suc h_probe mod n) (watchdog_countdown - 1) calls b')"
  by pat_completeness auto

termination probe_loop_wd
  by (relation "measure (\<lambda>(attempt, wd, n, h, p, cnt, calls, b). (h + n - p) mod n)") (auto intro: dist_next simp: not_le)

declare probe_loop_wd.simps [simp del]

definition probe_find_wd :: "('b \<Rightarrow> nat \<Rightarrow> ('b \<times> 'r option) option) \<Rightarrow> (nat \<Rightarrow> bool) \<Rightarrow> nat \<Rightarrow> nat \<Rightarrow> 'b
    \<Rightarrow> ('b \<times> 'r option) option" where
  "probe_find_wd attempt wd n h b =
     (case attempt b h of
        None \<Rightarrow> None
      | Some (b', Some r) \<Rightarrow> Some (b', Some r)
      | Some (b', None) \<Rightarrow> probe_loop_wd attempt wd n h (Suc h mod n) 100 0 b')"

lemma probe_loop_wd_quiet:
  "\<forall>c. \<not> wd c \<Longrightarrow> probe_loop_wd attempt wd n h p cnt calls b = probe_loop attempt n h p b"
proof (induction attempt wd n h p cnt calls b rule: probe_loop_wd.induct)
  case (1 attempt wd n h p cnt calls b)
  show ?case
  proof (cases "\<not> (n \<le> h \<or> n \<le> p) \<and> p \<noteq> h \<and> (\<exists>b1. attempt b p = Some (b1, None))")
    case True
    then obtain b1 where att: "\<not> (n \<le> h \<or> n \<le> p)" "p \<noteq> h" "attempt b p = Some (b1, None)" by blast
    moreover have "wd = (\<lambda>_. False)" using "1.prems" by auto
    ultimately have "probe_loop_wd attempt wd n h p cnt calls b = probe_loop attempt n h (Suc p mod n) b1"
      using "1.IH" [OF att refl] by (subst probe_loop_wd.simps) simp
    then show ?thesis using att by (subst probe_loop.simps) simp
  next
    case False
    then show ?thesis by (subst probe_loop_wd.simps, subst probe_loop.simps) (auto split: option.splits)
  qed
qed

text \<open>The watchdog can only make a search fail: a slot that is returned is the slot of the plain search.\<close>

lemma probe_loop_wd_found:
  "probe_loop_wd attempt wd n h p cnt calls b = Some (b', Some r) \<Longrightarrow> probe_loop attempt n h p b = Some (b', Some r)"
proof (induction attempt wd n h p cnt calls b rule: probe_loop_wd.induct)
  case (1 attempt wd n h p cnt calls b)
  note unf = "1.prems" [unfolded probe_loop_wd.simps [of attempt wd n h p cnt calls b]]
  from unf have np: "\<not> (n \<le> h \<or> n \<le> p)" "p \<noteq> h" by (auto split: if_splits)
  from unf np obtain b1 x where att: "attempt b p = Some (b1, x)" by (auto split: option.splits)
  show ?case
  proof (cases x)
    case (Some y)
    then show ?thesis using unf np att by (subst probe_loop.simps) simp
  next
    case None
    then have "probe_loop attempt n h (Suc p mod n) b1 = Some (b', Some r)"
      using unf np att "1.IH" [OF np att [unfolded None] refl] by (auto split: if_splits)
    then show ?thesis using None np att by (subst probe_loop.simps) simp
  qed
qed

lemma probe_find_wd_quiet: "\<forall>c. \<not> wd c \<Longrightarrow> probe_find_wd attempt wd n h b = probe_find attempt n h b"
  by (auto simp: probe_find_wd_def probe_find_def probe_loop_wd_quiet split: option.splits)

lemma probe_find_wd_found: "probe_find_wd attempt wd n h b = Some (b', Some r) \<Longrightarrow> probe_find attempt n h b = Some (b', Some r)"
  by (auto simp: probe_find_wd_def probe_find_def split: option.splits dest: probe_loop_wd_found)

section \<open>The slots of a table\<close>

text \<open>The slots in the order in which a key with home slot \<open>h\<close> visits them.\<close>

definition probe_path :: "nat \<Rightarrow> nat \<Rightarrow> nat list" where
  "probe_path n h = map (\<lambda>d. (h + d) mod n) [0..<n]"

lemma shift_mod_le:
  assumes "(h + d) mod n = (h + e) mod n" and "d < n" and "e \<le> d"
  shows "d = (e :: nat)"
proof -
  have "n dvd (h + d) - (h + e)" using assms(1,3) mod_eq_dvd_iff_nat [of "h + e" "h + d" n] by simp
  then have "n dvd d - e" by simp
  moreover have "d - e < n" using assms(2) by simp
  ultimately have "d - e = 0" by (metis dvd_imp_le gr0I linorder_not_less)
  then show ?thesis using assms(3) by simp
qed

lemma shift_mod_inj: "(h + d) mod n = (h + e) mod n \<Longrightarrow> d < n \<Longrightarrow> e < n \<Longrightarrow> d = (e :: nat)"
  using shift_mod_le [of h d n e] shift_mod_le [of h e n d] by (metis nat_le_linear)

lemma set_probe_path:
  assumes "0 < n"
  shows "set (probe_path n h) = {0..<n}"
proof -
  have "(\<lambda>d. (h + d) mod n) ` {0..<n} = {0..<n}"
    by (rule endo_inj_surj) (use assms in \<open>auto intro!: inj_onI dest: shift_mod_inj\<close>)
  then show ?thesis by (simp add: probe_path_def)
qed

text \<open>
  The invariant: a key is in one slot at most, and no slot between its home and its own is empty,
  so that a lookup finds it before it meets an empty slot.
\<close>

definition chain_inv :: "nat \<Rightarrow> ('k \<Rightarrow> nat) \<Rightarrow> (nat \<Rightarrow> 'k option) \<Rightarrow> bool" where
  "chain_inv n home keys \<longleftrightarrow>
     (\<forall>i < n. \<forall>j < n. keys i \<noteq> None \<longrightarrow> keys i = keys j \<longrightarrow> i = j) \<and>
     (\<forall>d < n. \<forall>k. keys ((home k + d) mod n) = Some k \<longrightarrow> (\<forall>e < d. keys ((home k + e) mod n) \<noteq> None))"

text \<open>The slot where the search for \<open>k\<close> stops.\<close>

definition stop_slot :: "nat \<Rightarrow> nat \<Rightarrow> (nat \<Rightarrow> 'k option) \<Rightarrow> 'k \<Rightarrow> nat option" where
  "stop_slot n h keys k = List.find (\<lambda>i. keys i = None \<or> keys i = Some k) (probe_path n h)"

lemma find_first:
  assumes "List.find P (map f [0..<n]) = Some x"
  obtains d where "d < n" and "x = f d" and "P (f d)" and "\<And>e. e < d \<Longrightarrow> \<not> P (f e)"
  using assms by (auto simp: find_Some_iff)

lemma stop_slot_Some:
  assumes "stop_slot n h keys k = Some i" and "0 < n"
  obtains d where "d < n" and "i = (h + d) mod n" and "i < n" and "keys i = None \<or> keys i = Some k"
    and "\<And>e. e < d \<Longrightarrow> keys ((h + e) mod n) \<noteq> None \<and> keys ((h + e) mod n) \<noteq> Some k"
  using assms find_first [of "\<lambda>i. keys i = None \<or> keys i = Some k" "\<lambda>d. (h + d) mod n" n i]
  unfolding stop_slot_def probe_path_def by auto

lemma stop_slot_None:
  assumes "stop_slot n h keys k = None" and "i < n"
  shows "keys i \<noteq> None \<and> keys i \<noteq> Some k"
  using assms set_probe_path [of n h] by (auto simp: stop_slot_def find_None_iff)

text \<open>With the invariant, the search stops at the key when the table has it.\<close>

lemma stop_slot_present:
  assumes inv: "chain_inv n home keys" and "i < n" and "keys i = Some k" and "0 < n"
  shows "stop_slot n (home k) keys k = Some i"
proof -
  have "i \<in> set (probe_path n (home k))" using assms set_probe_path by auto
  then obtain d where d: "d < n" "i = (home k + d) mod n" by (auto simp: probe_path_def)
  have before: "keys ((home k + e) mod n) \<noteq> None \<and> keys ((home k + e) mod n) \<noteq> Some k" if "e < d" for e
  proof
    show ne: "keys ((home k + e) mod n) \<noteq> None" using inv d assms(3) that by (auto simp: chain_inv_def)
    show "keys ((home k + e) mod n) \<noteq> Some k"
    proof
      assume "keys ((home k + e) mod n) = Some k"
      then have "(home k + e) mod n = i" using inv assms by (auto simp: chain_inv_def)
      then have "(home k + e) mod n = (home k + d) mod n" using d by simp
      then have "e = d" using that d(1) by (intro shift_mod_inj [of "home k" e n d]) simp_all
      then show False using that by simp
    qed
  qed
  have "List.find (\<lambda>i. keys i = None \<or> keys i = Some k) (map (\<lambda>d. (home k + d) mod n) [0..<n]) = Some ((home k + d) mod n)"
    unfolding find_Some_iff using d before assms(3) by (intro exI [of _ d]) auto
  then show ?thesis using d by (simp add: stop_slot_def probe_path_def)
qed

lemma chain_inv_insert:
  assumes inv: "chain_inv n home keys" and stop: "stop_slot n (home k) keys k = Some i" and "keys i = None" and "0 < n"
    and new: "\<forall>j < n. keys' j = (if j = i then Some k else keys j)"
  shows "chain_inv n home keys'"
proof -
  obtain d where d: "d < n" "i = (home k + d) mod n" "i < n"
      "\<And>e. e < d \<Longrightarrow> keys ((home k + e) mod n) \<noteq> None \<and> keys ((home k + e) mod n) \<noteq> Some k"
    using stop_slot_Some [OF stop assms(4)] by metis
  have absent: "keys j \<noteq> Some k" if "j < n" for j
    using stop_slot_present [OF inv that _ assms(4), of k] stop assms(3) by auto
  have uniq: "i' = j" if "i' < n" "j < n" "keys' i' \<noteq> None" "keys' i' = keys' j" for i' j
    using that new absent inv unfolding chain_inv_def by (metis (no_types, lifting))
  have path: "keys' ((home k' + e) mod n) \<noteq> None"
    if "d' < n" "keys' ((home k' + d') mod n) = Some k'" "e < d'" for d' k' e
  proof (cases "(home k' + e) mod n = i")
    case True
    then show ?thesis using new d(3) by simp
  next
    case False
    have e: "(home k' + e) mod n < n" "(home k' + d') mod n < n" using assms(4) by simp_all
    show ?thesis
    proof (cases "(home k' + d') mod n = i")
      case True
      then have k': "k' = k" using that(2) new d(3) by simp
      have "(home k + d') mod n = (home k + d) mod n" using True d(2) k' by simp
      then have "d' = d" using that(1) d(1) by (rule shift_mod_inj)
      then show ?thesis using d(4) [of e] that(3) k' False new e(1) by simp
    next
      case no: False
      then have "keys ((home k' + d') mod n) = Some k'" using that(2) new e(2) by simp
      then have "keys ((home k' + e) mod n) \<noteq> None" using inv that by (auto simp: chain_inv_def)
      then show ?thesis using False new e(1) by simp
    qed
  qed
  show ?thesis unfolding chain_inv_def using uniq path by blast
qed

section \<open>Where a key is stored\<close>

definition slot_of :: "nat \<Rightarrow> (nat \<Rightarrow> 'k option) \<Rightarrow> 'k \<Rightarrow> nat option" where
  "slot_of n keys k = List.find (\<lambda>i. keys i = Some k) [0..<n]"

lemma slot_of_None: "slot_of n keys k = None \<longleftrightarrow> (\<forall>i < n. keys i \<noteq> Some k)"
  by (auto simp: slot_of_def find_None_iff)

lemma slot_of_Some: "slot_of n keys k = Some i \<Longrightarrow> i < n \<and> keys i = Some k"
  by (auto simp: slot_of_def find_Some_iff)

lemma slot_of_eq: "chain_inv n home keys \<Longrightarrow> i < n \<Longrightarrow> keys i = Some k \<Longrightarrow> slot_of n keys k = Some i"
  using slot_of_None [of n keys k] slot_of_Some [of n keys k]
  unfolding chain_inv_def by (cases "slot_of n keys k") auto

lemma slot_of_mono:
  assumes "chain_inv n home keys'" and "\<forall>i < n. keys i \<noteq> None \<longrightarrow> keys' i = keys i" and "slot_of n keys k = Some i"
  shows "slot_of n keys' k = Some i"
  using assms slot_of_Some [OF assms(3)] by (intro slot_of_eq [OF assms(1)]) auto

text \<open>The keys of a table; a table with an empty slot has fewer keys than slots.\<close>

definition stored :: "nat \<Rightarrow> (nat \<Rightarrow> 'k option) \<Rightarrow> 'k set" where
  "stored n keys = {k. Some k \<in> keys ` {0..<n}}"

lemma finite_stored [simp]: "finite (stored n keys)"
proof (rule finite_subset)
  show "stored n keys \<subseteq> (\<lambda>i. the (keys i)) ` {0..<n}"
    by (auto simp: stored_def image_iff) (metis option.sel atLeastLessThan_iff le0)
qed simp

lemma card_stored_full:
  assumes "chain_inv n home keys" and "\<forall>i < n. keys i \<noteq> None"
  shows "card (stored n keys) = n"
proof -
  have "inj_on (\<lambda>i. the (keys i)) {0..<n}"
    using assms unfolding chain_inv_def by (intro inj_onI) (metis atLeastLessThan_iff option.collapse)
  moreover have "stored n keys = (\<lambda>i. the (keys i)) ` {0..<n}"
    using assms(2) by (force simp: stored_def image_iff)
  ultimately show ?thesis by (simp add: card_image)
qed

text \<open>A sequence of keys, each looked up or inserted.\<close>

fun probe_all :: "('k \<Rightarrow> 'b \<Rightarrow> nat \<Rightarrow> ('b \<times> 'r option) option) \<Rightarrow> nat \<Rightarrow> ('k \<Rightarrow> nat) \<Rightarrow> 'k list \<Rightarrow> 'b
    \<Rightarrow> ('b \<times> 'r option list) option" where
  "probe_all attempt n home [] b = Some (b, [])"
| "probe_all attempt n home (k # ks) b =
     (case probe_find (attempt k) n (home k) b of
        None \<Rightarrow> None
      | Some (b', r) \<Rightarrow>
          (case probe_all attempt n home ks b' of
             None \<Rightarrow> None
           | Some (b'', rs) \<Rightarrow> Some (b'', r # rs)))"

text \<open>
  The specification of a lookup-or-insert, on the keys of the slots alone: the key is entered at
  the first slot of its path that is empty or has it.
\<close>

definition find_or_insert :: "nat \<Rightarrow> nat \<Rightarrow> (nat \<Rightarrow> 'k option) \<Rightarrow> 'k \<Rightarrow> (nat \<Rightarrow> 'k option) \<times> nat option" where
  "find_or_insert n h keys k =
     (case stop_slot n h keys k of
        None \<Rightarrow> (keys, None)
      | Some i \<Rightarrow> (keys(i := Some k), Some i))"

lemma stop_slot_cong: "\<forall>i < n. keys i = keys' i \<Longrightarrow> stop_slot n h keys k = stop_slot n h keys' k"
  unfolding stop_slot_def probe_path_def by (cases "n = 0") (auto intro!: find_cong)

section \<open>The interface\<close>

locale probe_table =
  fixes entries :: "'c \<Rightarrow> nat"
    and wf :: "'c \<Rightarrow> 'b \<Rightarrow> bool"
    and key_ok :: "'c \<Rightarrow> 'k \<Rightarrow> bool"
    and key_at :: "'c \<Rightarrow> 'b \<Rightarrow> nat \<Rightarrow> 'k option"
    and try_slot :: "'c \<Rightarrow> 'k \<Rightarrow> 'b \<Rightarrow> nat \<Rightarrow> ('b \<times> 'r option) option"
    and res :: "'c \<Rightarrow> nat \<Rightarrow> 'r"
    and home :: "'c \<Rightarrow> 'k \<Rightarrow> nat"
  assumes try_empty: "wf c b \<Longrightarrow> key_ok c k \<Longrightarrow> i < entries c \<Longrightarrow> key_at c b i = None \<Longrightarrow>
      \<exists>b'. try_slot c k b i = Some (b', Some (res c i)) \<and> wf c b' \<and>
           (\<forall>j < entries c. key_at c b' j = (if j = i then Some k else key_at c b j))"
    and try_same: "wf c b \<Longrightarrow> key_ok c k \<Longrightarrow> i < entries c \<Longrightarrow> key_at c b i = Some k \<Longrightarrow>
      try_slot c k b i = Some (b, Some (res c i))"
    and try_other: "wf c b \<Longrightarrow> key_ok c k \<Longrightarrow> i < entries c \<Longrightarrow> key_at c b i = Some k' \<Longrightarrow> k' \<noteq> k \<Longrightarrow>
      try_slot c k b i = Some (b, None)"
    and home_less: "0 < entries c \<Longrightarrow> home c k < entries c"
    and res_inj: "wf c b \<Longrightarrow> i < entries c \<Longrightarrow> j < entries c \<Longrightarrow> res c i = res c j \<Longrightarrow> i = j"
begin

lemma try_stop:
  assumes "wf c b" and "key_ok c k" and "i < entries c"
  shows "if key_at c b i = None \<or> key_at c b i = Some k then \<exists>b'. try_slot c k b i = Some (b', Some (res c i))
         else try_slot c k b i = Some (b, None)"
  using try_empty [OF assms] try_same [OF assms] try_other [OF assms] by (cases "key_at c b i") auto

lemma probe_loop_find:
  assumes "wf c b" and "key_ok c k" and h: "h < entries c" and "1 \<le> d" and "d \<le> entries c"
  shows "probe_loop (try_slot c k) (entries c) h ((h + d) mod entries c) b =
           (case List.find (\<lambda>i. key_at c b i = None \<or> key_at c b i = Some k) (map (\<lambda>d. (h + d) mod entries c) [d..<entries c]) of
              None \<Rightarrow> Some (b, None) | Some i \<Rightarrow> try_slot c k b i)"
  using assms(4,5)
proof (induction "entries c - d" arbitrary: d)
  case 0
  then have "(h + d) mod entries c = h" using h by simp
  then show ?case using 0 h by (subst probe_loop.simps) simp
next
  case (Suc m)
  let ?p = "(h + d) mod entries c"
  have d: "d < entries c" using Suc.hyps(2) by simp
  have p: "?p < entries c" using h by simp
  then have np: "\<not> entries c \<le> ?p" by (simp only: not_le)
  have ne: "?p \<noteq> h"
  proof
    assume "?p = h"
    then have "(h + d) mod entries c = (h + 0) mod entries c" using h by simp
    then have "d = 0" using d h by (intro shift_mod_inj [of h d "entries c" 0]) auto
    then show False using Suc.prems by simp
  qed
  have nxt: "Suc ?p mod entries c = (h + Suc d) mod entries c" by (simp add: mod_Suc_eq)
  have upt: "[d..<entries c] = d # [Suc d..<entries c]" using d by (simp add: upt_conv_Cons)
  show ?case
  proof (cases "key_at c b ?p = None \<or> key_at c b ?p = Some k")
    case True
    then obtain b' where "try_slot c k b ?p = Some (b', Some (res c ?p))" using try_stop [OF assms(1,2) p] by auto
    then show ?thesis using True h ne by (subst probe_loop.simps) (simp add: upt np)
  next
    case False
    then have "try_slot c k b ?p = Some (b, None)" using try_stop [OF assms(1,2) p] by simp
    then have "probe_loop (try_slot c k) (entries c) h ?p b = probe_loop (try_slot c k) (entries c) h (Suc ?p mod entries c) b"
      using h ne by (subst probe_loop.simps) (simp add: np)
    moreover have "m = entries c - Suc d" using Suc.hyps(2) by simp
    note Suc.hyps(1) [OF this]
    ultimately show ?thesis using d False unfolding nxt upt by (simp del: upt_Suc not_None_eq)
  qed
qed

lemma probe_find_stop:
  assumes "wf c b" and "key_ok c k" and "0 < entries c"
  shows "probe_find (try_slot c k) (entries c) (home c k) b =
           (case stop_slot (entries c) (home c k) (key_at c b) k of
              None \<Rightarrow> Some (b, None) | Some i \<Rightarrow> try_slot c k b i)"
proof -
  have h: "home c k < entries c" by (rule home_less [OF assms(3)])
  have upt: "[0..<entries c] = 0 # [Suc 0..<entries c]" using assms(3) by (simp add: upt_conv_Cons)
  show ?thesis
  proof (cases "key_at c b (home c k) = None \<or> key_at c b (home c k) = Some k")
    case True
    then obtain b' where "try_slot c k b (home c k) = Some (b', Some (res c (home c k)))" using try_stop [OF assms(1,2) h] by auto
    then show ?thesis using True h by (simp add: probe_find_def stop_slot_def probe_path_def upt)
  next
    case False
    then have "try_slot c k b (home c k) = Some (b, None)" using try_stop [OF assms(1,2) h] by simp
    then show ?thesis
      using False h probe_loop_find [OF assms(1,2) h, of 1] assms(3)
      by (simp add: probe_find_def stop_slot_def probe_path_def upt del: upt_Suc not_None_eq)
  qed
qed

text \<open>Every table refines the specification.\<close>

lemma probe_refines:
  assumes "wf c b" and "key_ok c k" and n: "0 < entries c" and rel: "\<forall>i < entries c. key_at c b i = keys i"
  obtains b' where "probe_find (try_slot c k) (entries c) (home c k) b =
      Some (b', map_option (res c) (snd (find_or_insert (entries c) (home c k) keys k)))"
    and "wf c b'" and "\<forall>i < entries c. key_at c b' i = fst (find_or_insert (entries c) (home c k) keys k) i"
proof (cases "stop_slot (entries c) (home c k) (key_at c b) k")
  case None
  then have "stop_slot (entries c) (home c k) keys k = None" using stop_slot_cong [OF rel] by simp
  then show ?thesis using that [of b] assms probe_find_stop [OF assms(1-3)] None by (simp add: find_or_insert_def)
next
  case (Some i)
  then have "stop_slot (entries c) (home c k) keys k = Some i" using stop_slot_cong [OF rel] by simp
  then have spec: "find_or_insert (entries c) (home c k) keys k = (keys(i := Some k), Some i)" by (simp add: find_or_insert_def)
  have i: "i < entries c" "key_at c b i = None \<or> key_at c b i = Some k" using stop_slot_Some [OF Some n] by metis+
  have find: "probe_find (try_slot c k) (entries c) (home c k) b = try_slot c k b i"
    using probe_find_stop [OF assms(1-3)] Some by simp
  from i(2) show ?thesis
  proof
    assume "key_at c b i = None"
    then obtain b' where "try_slot c k b i = Some (b', Some (res c i))" "wf c b'"
        "\<forall>j < entries c. key_at c b' j = (if j = i then Some k else key_at c b j)"
      using try_empty [OF assms(1,2) i(1)] by blast
    then show ?thesis using that [of b'] find spec rel by simp
  next
    assume at: "key_at c b i = Some k"
    then show ?thesis using that [of b] find spec rel try_same [OF assms(1,2) i(1) at] assms(1) i(1) by auto
  qed
qed

text \<open>The search with the watchdog ends whatever the watchdog answers, and writes nothing when it finds no slot.\<close>

lemma probe_loop_wd_total:
  assumes wf: "wf c b" "key_ok c k" and h: "h < entries c"
  shows "p < entries c \<Longrightarrow>
    \<exists>b' r. probe_loop_wd (try_slot c k) wd (entries c) h p cnt calls b = Some (b', r) \<and> (r = None \<longrightarrow> b' = b)"
proof (induction "(h + entries c - p) mod entries c" arbitrary: p cnt calls rule: less_induct)
  case less
  have p': "Suc p mod entries c < entries c" using h by simp
  show ?case
  proof (cases "p = h \<or> key_at c b p = None \<or> key_at c b p = Some k")
    case True
    then show ?thesis using try_stop [OF wf less.prems] h less.prems
      by (subst probe_loop_wd.simps) (auto split: if_splits)
  next
    case False
    then have att: "try_slot c k b p = Some (b, None)" using try_stop [OF wf less.prems] by auto
    have "p \<noteq> h" using False by simp
    note step = less.hyps [OF dist_next [OF h less.prems this] p']
    show ?thesis using att \<open>p \<noteq> h\<close> h less.prems step [of 100 "Suc calls"] step [of "cnt - 1" calls]
      by (subst probe_loop_wd.simps) simp
  qed
qed

lemma probe_find_wd_total:
  assumes wf: "wf c b" "key_ok c k" and n: "0 < entries c"
  shows "\<exists>b' r. probe_find_wd (try_slot c k) wd (entries c) (home c k) b = Some (b', r) \<and> (r = None \<longrightarrow> b' = b)"
proof -
  have h: "home c k < entries c" by (rule home_less [OF n])
  have "Suc (home c k) mod entries c < entries c" using n by simp
  note loop = probe_loop_wd_total [OF wf h this, of wd 100 0]
  show ?thesis using try_stop [OF wf h] loop by (auto simp: probe_find_wd_def split: if_splits)
qed

lemma probe_present:
  assumes "wf c b" and inv: "chain_inv (entries c) (home c) (key_at c b)" and "key_ok c k"
    and "i < entries c" and "key_at c b i = Some k"
  shows "probe_find (try_slot c k) (entries c) (home c k) b = Some (b, Some (res c i))"
proof -
  have "0 < entries c" using assms(4) by simp
  then show ?thesis
    using probe_find_stop [OF assms(1,3)] stop_slot_present [OF inv assms(4,5)] try_same [OF assms(1,3,4,5)] by simp
qed

lemma probe_full:
  assumes "wf c b" and inv: "chain_inv (entries c) (home c) (key_at c b)" and "key_ok c k" and "0 < entries c"
    and "\<forall>i < entries c. key_at c b i \<noteq> None \<and> key_at c b i \<noteq> Some k"
  shows "probe_find (try_slot c k) (entries c) (home c k) b = Some (b, None)"
proof -
  have "i \<in> set (probe_path (entries c) (home c k)) \<Longrightarrow> i < entries c" for i
    using set_probe_path [OF assms(4)] by auto
  then have "stop_slot (entries c) (home c k) (key_at c b) k = None"
    using assms(5) by (auto simp: stop_slot_def find_None_iff)
  then show ?thesis using probe_find_stop [OF assms(1,3,4)] by simp
qed

lemma probe_insert:
  assumes "wf c b" and inv: "chain_inv (entries c) (home c) (key_at c b)" and "key_ok c k"
    and absent: "\<forall>i < entries c. key_at c b i \<noteq> Some k" and free: "i0 < entries c" "key_at c b i0 = None"
  obtains i b' where "i < entries c" and "key_at c b i = None"
    and "probe_find (try_slot c k) (entries c) (home c k) b = Some (b', Some (res c i))"
    and "wf c b'" and "chain_inv (entries c) (home c) (key_at c b')"
    and "\<forall>j < entries c. key_at c b' j = (if j = i then Some k else key_at c b j)"
proof -
  have n: "0 < entries c" using free by simp
  obtain i where stop: "stop_slot (entries c) (home c k) (key_at c b) k = Some i"
    using stop_slot_None [OF _ free(1), of "home c k" "key_at c b" k] free(2) by (cases "stop_slot (entries c) (home c k) (key_at c b) k") auto
  obtain i: "i < entries c" "key_at c b i = None"
    using stop_slot_Some [OF stop n] absent by metis
  obtain b' where b': "try_slot c k b i = Some (b', Some (res c i))" "wf c b'"
      "\<forall>j < entries c. key_at c b' j = (if j = i then Some k else key_at c b j)"
    using try_empty [OF assms(1,3) i] by blast
  have "chain_inv (entries c) (home c) (key_at c b')" by (rule chain_inv_insert [OF inv stop i(2) n b'(3)])
  then show ?thesis using that [OF i _ b'(2) _ b'(3)] probe_find_stop [OF assms(1,3) n] stop b'(1) by simp
qed

text \<open>With room for the key the search returns its slot, and no other slot changes.\<close>

lemma probe_room:
  assumes "wf c b" and inv: "chain_inv (entries c) (home c) (key_at c b)" and "key_ok c k"
    and room: "card (insert k (stored (entries c) (key_at c b))) \<le> entries c"
  obtains i b' where "i < entries c" and "probe_find (try_slot c k) (entries c) (home c k) b = Some (b', Some (res c i))"
    and "wf c b'" and "chain_inv (entries c) (home c) (key_at c b')"
    and "\<forall>j < entries c. key_at c b' j = (if j = i then Some k else key_at c b j)"
    and "key_at c b i = (if k \<in> stored (entries c) (key_at c b) then Some k else None)"
proof (cases "k \<in> stored (entries c) (key_at c b)")
  case True
  then obtain i where i: "i < entries c" "key_at c b i = Some k" by (auto simp: stored_def image_iff)
  then show ?thesis using that [OF i(1), of b] probe_present [OF assms(1-3) i] assms(1,2) True by simp
next
  case False
  then have absent: "\<forall>i < entries c. key_at c b i \<noteq> Some k" by (force simp: stored_def image_iff)
  have "\<not> (\<forall>i < entries c. key_at c b i \<noteq> None)"
  proof
    assume "\<forall>i < entries c. key_at c b i \<noteq> None"
    then have "card (stored (entries c) (key_at c b)) = entries c" by (rule card_stored_full [OF inv])
    then show False using room False by simp
  qed
  then obtain i0 where "i0 < entries c" "key_at c b i0 = None" by blast
  then obtain i b' where "i < entries c" "key_at c b i = None"
      "probe_find (try_slot c k) (entries c) (home c k) b = Some (b', Some (res c i))"
      "wf c b'" "chain_inv (entries c) (home c) (key_at c b')"
      "\<forall>j < entries c. key_at c b' j = (if j = i then Some k else key_at c b j)"
    by (rule probe_insert [OF assms(1-3) absent])
  then show ?thesis using that False by simp
qed

text \<open>One lookup-or-insert, in terms of the table it leaves.\<close>

lemma probe_step:
  assumes "wf c b" and inv: "chain_inv (entries c) (home c) (key_at c b)" and "key_ok c k" and "0 < entries c"
  obtains b' where
    "probe_find (try_slot c k) (entries c) (home c k) b = Some (b', map_option (res c) (slot_of (entries c) (key_at c b') k))"
    and "wf c b'" and "chain_inv (entries c) (home c) (key_at c b')"
    and "\<forall>j < entries c. key_at c b j \<noteq> None \<longrightarrow> key_at c b' j = key_at c b j"
    and "stored (entries c) (key_at c b') \<subseteq> insert k (stored (entries c) (key_at c b))"
    and "slot_of (entries c) (key_at c b') k = None \<longrightarrow> (\<forall>i < entries c. key_at c b' i \<noteq> None)"
proof (cases "slot_of (entries c) (key_at c b) k")
  case (Some i)
  then have i: "i < entries c" "key_at c b i = Some k" using slot_of_Some by metis+
  show ?thesis using that [of b] probe_present [OF assms(1-3) i] assms(1,2) Some by auto
next
  case None
  then have absent: "\<forall>i < entries c. key_at c b i \<noteq> Some k" by (simp add: slot_of_None)
  show ?thesis
  proof (cases "\<forall>i < entries c. key_at c b i \<noteq> None")
    case True
    then show ?thesis using that [of b] probe_full [OF assms] absent assms(1,2) None by auto
  next
    case False
    then obtain i0 where "i0 < entries c" "key_at c b i0 = None" by blast
    then obtain i b' where b': "i < entries c" "key_at c b i = None"
        "probe_find (try_slot c k) (entries c) (home c k) b = Some (b', Some (res c i))"
        "wf c b'" "chain_inv (entries c) (home c) (key_at c b')"
        "\<forall>j < entries c. key_at c b' j = (if j = i then Some k else key_at c b j)"
      by (rule probe_insert [OF assms(1-3) absent])
    have so: "slot_of (entries c) (key_at c b') k = Some i" using b'(1,6) by (intro slot_of_eq [OF b'(5)]) auto
    show ?thesis
    proof (rule that [of b'])
      show "stored (entries c) (key_at c b') \<subseteq> insert k (stored (entries c) (key_at c b))"
        using b'(6) by (force simp: stored_def split: if_splits)
    qed (use b' so in auto)
  qed
qed

text \<open>
  A sequence of keys: each result is the slot where the final table holds the key; the key of a
  failed lookup is not in the final table, which is full.
\<close>

lemma probe_all_result:
  assumes "wf c b" and "chain_inv (entries c) (home c) (key_at c b)" and "\<forall>k \<in> set ks. key_ok c k" and "0 < entries c"
  shows "\<exists>b'. probe_all (try_slot c) (entries c) (home c) ks b =
                Some (b', map (\<lambda>k. map_option (res c) (slot_of (entries c) (key_at c b') k)) ks) \<and>
              wf c b' \<and> chain_inv (entries c) (home c) (key_at c b') \<and>
              (\<forall>j < entries c. key_at c b j \<noteq> None \<longrightarrow> key_at c b' j = key_at c b j) \<and>
              stored (entries c) (key_at c b') \<subseteq> set ks \<union> stored (entries c) (key_at c b) \<and>
              (\<forall>k \<in> set ks. slot_of (entries c) (key_at c b') k = None \<longrightarrow> (\<forall>i < entries c. key_at c b' i \<noteq> None))"
  using assms(1-3)
proof (induction ks arbitrary: b)
  case Nil
  then show ?case by auto
next
  case (Cons k ks)
  have ok: "key_ok c k" "\<forall>k \<in> set ks. key_ok c k" using Cons.prems by simp_all
  obtain b1 where b1:
    "probe_find (try_slot c k) (entries c) (home c k) b = Some (b1, map_option (res c) (slot_of (entries c) (key_at c b1) k))"
    "wf c b1" "chain_inv (entries c) (home c) (key_at c b1)"
    "\<forall>j < entries c. key_at c b j \<noteq> None \<longrightarrow> key_at c b1 j = key_at c b j"
    "stored (entries c) (key_at c b1) \<subseteq> insert k (stored (entries c) (key_at c b))"
    "slot_of (entries c) (key_at c b1) k = None \<longrightarrow> (\<forall>i < entries c. key_at c b1 i \<noteq> None)"
    by (rule probe_step [OF Cons.prems(1,2) ok(1) assms(4)])
  obtain b2 where b2: "probe_all (try_slot c) (entries c) (home c) ks b1 =
                Some (b2, map (\<lambda>k. map_option (res c) (slot_of (entries c) (key_at c b2) k)) ks)"
    "wf c b2" "chain_inv (entries c) (home c) (key_at c b2)"
    "\<forall>j < entries c. key_at c b1 j \<noteq> None \<longrightarrow> key_at c b2 j = key_at c b1 j"
    "stored (entries c) (key_at c b2) \<subseteq> set ks \<union> stored (entries c) (key_at c b1)"
    "\<forall>k \<in> set ks. slot_of (entries c) (key_at c b2) k = None \<longrightarrow> (\<forall>i < entries c. key_at c b2 i \<noteq> None)"
    using Cons.IH [OF b1(2,3) ok(2)] by blast
  have same: "slot_of (entries c) (key_at c b2) k = slot_of (entries c) (key_at c b1) k"
  proof (cases "slot_of (entries c) (key_at c b1) k")
    case (Some i)
    then show ?thesis using slot_of_mono [OF b2(3,4)] by simp
  next
    case None
    then have "\<forall>i < entries c. key_at c b2 i = key_at c b1 i" using b1(6) b2(4) by simp
    then have "slot_of (entries c) (key_at c b2) k = None" using None by (simp add: slot_of_None)
    then show ?thesis using None by simp
  qed
  have "\<forall>j < entries c. key_at c b j \<noteq> None \<longrightarrow> key_at c b2 j = key_at c b j" using b1(4) b2(4) by simp
  moreover have "slot_of (entries c) (key_at c b2) k = None \<longrightarrow> (\<forall>i < entries c. key_at c b2 i \<noteq> None)"
    using b1(6) b2(4) unfolding same by auto
  moreover have "probe_all (try_slot c) (entries c) (home c) (k # ks) b =
      Some (b2, map (\<lambda>k. map_option (res c) (slot_of (entries c) (key_at c b2) k)) (k # ks))"
    using b1(1) b2(1) same by simp
  ultimately show ?case using b2(2,3,5,6) b1(5) by (intro exI [of _ b2]) auto
qed

text \<open>With room for every distinct key no lookup fails, and two results agree exactly when the keys do.\<close>

lemma probe_all_room:
  assumes "wf c b" and "chain_inv (entries c) (home c) (key_at c b)" and "\<forall>k \<in> set ks. key_ok c k" and "0 < entries c"
    and room: "card (set ks \<union> stored (entries c) (key_at c b)) \<le> entries c"
  obtains b' ss where
    "probe_all (try_slot c) (entries c) (home c) ks b = Some (b', map (\<lambda>i. Some (res c i)) ss)"
    and "length ss = length ks" and "\<forall>m < length ks. ss ! m < entries c \<and> key_at c b' (ss ! m) = Some (ks ! m)"
    and "wf c b'" and "chain_inv (entries c) (home c) (key_at c b')"
    and "stored (entries c) (key_at c b') \<subseteq> set ks \<union> stored (entries c) (key_at c b)"
proof -
  obtain b' where b': "probe_all (try_slot c) (entries c) (home c) ks b =
                Some (b', map (\<lambda>k. map_option (res c) (slot_of (entries c) (key_at c b') k)) ks)"
      "wf c b'" "chain_inv (entries c) (home c) (key_at c b')"
      "stored (entries c) (key_at c b') \<subseteq> set ks \<union> stored (entries c) (key_at c b)"
      "\<forall>k \<in> set ks. slot_of (entries c) (key_at c b') k = None \<longrightarrow> (\<forall>i < entries c. key_at c b' i \<noteq> None)"
    using probe_all_result [OF assms(1-4)] by blast
  have found: "slot_of (entries c) (key_at c b') k \<noteq> None" if k: "k \<in> set ks" for k
  proof
    assume none: "slot_of (entries c) (key_at c b') k = None"
    then have "\<forall>i < entries c. key_at c b' i \<noteq> None" using b'(5) k by blast
    then have card: "card (stored (entries c) (key_at c b')) = entries c" by (rule card_stored_full [OF b'(3)])
    have "k \<notin> stored (entries c) (key_at c b')" using none by (force simp: slot_of_None stored_def)
    then have "stored (entries c) (key_at c b') \<subset> set ks \<union> stored (entries c) (key_at c b)" using b'(4) k by blast
    then have "card (stored (entries c) (key_at c b')) < card (set ks \<union> stored (entries c) (key_at c b))"
      by (intro psubset_card_mono) simp_all
    then show False using room card by simp
  qed
  define ss where "ss = map (\<lambda>k. the (slot_of (entries c) (key_at c b') k)) ks"
  have eq: "map (\<lambda>k. map_option (res c) (slot_of (entries c) (key_at c b') k)) ks = map (\<lambda>i. Some (res c i)) ss"
    using found by (fastforce simp: ss_def)
  have at: "ss ! m < entries c \<and> key_at c b' (ss ! m) = Some (ks ! m)" if m: "m < length ks" for m
  proof -
    obtain i where "slot_of (entries c) (key_at c b') (ks ! m) = Some i" using found [OF nth_mem [OF m]] by blast
    then show ?thesis using slot_of_Some [of "entries c" "key_at c b'" "ks ! m" i] that by (simp add: ss_def)
  qed
  show ?thesis using that [of b' ss] b' eq at by (simp add: ss_def)
qed

lemma probe_all_distinct:
  assumes "wf c b" and "chain_inv (entries c) (home c) (key_at c b)" and "\<forall>k \<in> set ks. key_ok c k" and "0 < entries c"
    and room: "card (set ks \<union> stored (entries c) (key_at c b)) \<le> entries c"
  obtains b' rs where "probe_all (try_slot c) (entries c) (home c) ks b = Some (b', rs)" and "length rs = length ks"
    and "None \<notin> set rs" and "\<forall>m < length ks. \<forall>l < length ks. rs ! m = rs ! l \<longleftrightarrow> ks ! m = ks ! l"
proof -
  obtain b' ss where b': "probe_all (try_slot c) (entries c) (home c) ks b = Some (b', map (\<lambda>i. Some (res c i)) ss)"
    "length ss = length ks" "\<forall>m < length ks. ss ! m < entries c \<and> key_at c b' (ss ! m) = Some (ks ! m)"
    "wf c b'" "chain_inv (entries c) (home c) (key_at c b')"
    by (rule probe_all_room [OF assms])
  have "ss ! m = ss ! l \<longleftrightarrow> ks ! m = ks ! l" if "m < length ks" "l < length ks" for m l
    using b'(3,5) that unfolding chain_inv_def by (metis option.distinct(1) option.inject)
  moreover have "res c i = res c j \<longleftrightarrow> i = j" if "i < entries c" "j < entries c" for i j
    using res_inj [OF b'(4) that] by blast
  ultimately have same: "res c (ss ! m) = res c (ss ! l) \<longleftrightarrow> ks ! m = ks ! l" if "m < length ks" "l < length ks" for m l
    using that b'(3) by simp
  then have "\<forall>m < length ks. \<forall>l < length ks. map (\<lambda>i. Some (res c i)) ss ! m = map (\<lambda>i. Some (res c i)) ss ! l \<longleftrightarrow> ks ! m = ks ! l"
    using b'(2,3) same by simp
  then show ?thesis using that [of b' "map (\<lambda>i. Some (res c i)) ss"] b'(1,2) by auto
qed

end

end
