(* ===== verification/Murmur_Hash.thy ===== *)
theory Murmur_Hash
  imports Decoders
begin

text \<open>
  The hash functions of \<open>QueryEngine/MurmurHash1Inl.h\<close> and \<open>MurmurHash3Inl.h\<close>, which place the
  keys of the group-by buffers and the baseline join tables.  The key is a list of bytes; \<open>None\<close>
  is a read past its end.  The lengths are the non-negative values of the C type \<open>int\<close>.  The
  lemmas show that every step of the hashes is a bijection on the hash state and on the block, so
  that keys of one length which differ in one block never collide.
\<close>

unbundle bit_operations_syntax

definition le_word :: "u8 list \<Rightarrow> 'a::len word" where
  "le_word bs = word_of_int (le_value bs)"

definition xorshift :: "nat \<Rightarrow> 'a::len word \<Rightarrow> 'a word" where
  "xorshift r h = h XOR drop_bit r h"

section \<open>MurmurHash1\<close>

definition murmur1_m :: u32 where "murmur1_m = 0xc6a4a793"

fun murmur1_loop :: "u8 list \<Rightarrow> nat \<Rightarrow> u32 \<Rightarrow> (u8 list \<times> nat \<times> u32) option" where
  "murmur1_loop data len h =
     (if 4 \<le> len
      then if length data < 4 then None
           else murmur1_loop (drop 4 data) (len - 4) (xorshift 16 ((h + le_word (take 4 data)) * murmur1_m))
      else Some (data, len, h))"

declare murmur1_loop.simps [simp del]

definition murmur1_tail :: "u8 list \<Rightarrow> nat \<Rightarrow> u32 \<Rightarrow> u32 option" where
  "murmur1_tail data len h =
     (if length data < len then None
      else
        let h = (if len = 3 then h + push_bit 16 (ucast (data ! 2)) else h);
            h = (if len = 3 \<or> len = 2 then h + push_bit 8 (ucast (data ! 1)) else h)
        in Some (if len = 3 \<or> len = 2 \<or> len = 1
                 then xorshift 16 ((h + ucast (data ! 0)) * murmur1_m) else h))"

definition MurmurHash1 :: "u8 list \<Rightarrow> nat \<Rightarrow> u32 \<Rightarrow> u32 option" where
  "MurmurHash1 key len seed =
     (case murmur1_loop key len (seed XOR (of_nat len * murmur1_m)) of
        None \<Rightarrow> None
      | Some (data, len', h) \<Rightarrow>
          map_option (\<lambda>h. xorshift 17 (xorshift 10 (h * murmur1_m) * murmur1_m)) (murmur1_tail data len' h))"

section \<open>MurmurHash64A\<close>

definition murmur64_m :: u64 where "murmur64_m = 0xc6a4a7935bd1e995"

definition murmur64_block :: "u64 \<Rightarrow> u64 \<Rightarrow> u64" where
  "murmur64_block h k = (h XOR (xorshift 47 (k * murmur64_m) * murmur64_m)) * murmur64_m"

primrec murmur64_loop :: "nat \<Rightarrow> u8 list \<Rightarrow> u64 \<Rightarrow> (u8 list \<times> u64) option" where
  "murmur64_loop 0 data h = Some (data, h)"
| "murmur64_loop (Suc n) data h =
     (if length data < 8 then None
      else murmur64_loop n (drop 8 data) (murmur64_block h (le_word (take 8 data))))"

text \<open>The fall-through switch XORs bytes \<open>n - 1\<close> down to 0, each at its own position.\<close>

fun murmur64_tail_bytes :: "nat \<Rightarrow> u8 list \<Rightarrow> u64 \<Rightarrow> u64" where
  "murmur64_tail_bytes 0 data h = h"
| "murmur64_tail_bytes (Suc i) data h = murmur64_tail_bytes i data (h XOR push_bit (8 * i) (ucast (data ! i)))"

definition MurmurHash64A :: "u8 list \<Rightarrow> nat \<Rightarrow> u64 \<Rightarrow> u64 option" where
  "MurmurHash64A key len seed =
     (case murmur64_loop (len div 8) key (seed XOR (of_nat len * murmur64_m)) of
        None \<Rightarrow> None
      | Some (data2, h) \<Rightarrow>
          let r = len mod 8
          in if length data2 < r then None
             else
               let h = (if r = 0 then h else murmur64_tail_bytes r data2 h * murmur64_m)
               in Some (xorshift 47 (xorshift 47 h * murmur64_m)))"

section \<open>MurmurHash3\<close>

definition rotl32 :: "u32 \<Rightarrow> nat \<Rightarrow> u32" where
  "rotl32 x r = push_bit r x OR drop_bit (32 - r) x"

definition murmur3_c1 :: u32 where "murmur3_c1 = 0xcc9e2d51"

definition murmur3_c2 :: u32 where "murmur3_c2 = 0x1b873593"

definition murmur3_k :: "u32 \<Rightarrow> u32" where
  "murmur3_k k1 = rotl32 (k1 * murmur3_c1) 15 * murmur3_c2"

definition murmur3_block :: "u32 \<Rightarrow> u32 \<Rightarrow> u32" where
  "murmur3_block h1 k1 = rotl32 (h1 XOR murmur3_k k1) 13 * 5 + 0xe6546b64"

primrec murmur3_loop :: "nat \<Rightarrow> u8 list \<Rightarrow> u32 \<Rightarrow> (u8 list \<times> u32) option" where
  "murmur3_loop 0 data h1 = Some (data, h1)"
| "murmur3_loop (Suc n) data h1 =
     (if length data < 4 then None
      else murmur3_loop n (drop 4 data) (murmur3_block h1 (le_word (take 4 data))))"

definition murmur3_tail :: "u8 list \<Rightarrow> nat \<Rightarrow> u32 \<Rightarrow> u32 option" where
  "murmur3_tail tail r h1 =
     (if length tail < r then None
      else
        let k1 = (if r = 3 then push_bit 16 (ucast (tail ! 2)) else 0);
            k1 = (if r = 3 \<or> r = 2 then k1 XOR push_bit 8 (ucast (tail ! 1)) else k1)
        in Some (if r = 3 \<or> r = 2 \<or> r = 1
                 then h1 XOR murmur3_k (k1 XOR ucast (tail ! 0)) else h1))"

definition murmur3_fmix :: "u32 \<Rightarrow> u32" where
  "murmur3_fmix h1 = xorshift 16 (xorshift 13 (xorshift 16 h1 * 0x85ebca6b) * 0xc2b2ae35)"

definition MurmurHash3 :: "u8 list \<Rightarrow> nat \<Rightarrow> u32 \<Rightarrow> u32 option" where
  "MurmurHash3 key len seed =
     (case murmur3_loop (len div 4) key seed of
        None \<Rightarrow> None
      | Some (tail, h1) \<Rightarrow>
          map_option (\<lambda>h1. murmur3_fmix (h1 XOR of_nat len)) (murmur3_tail tail (len mod 4) h1))"

lemma MurmurHash3_hello: "MurmurHash3 [0x68,0x65,0x6c,0x6c,0x6f] 5 0 = Some 0x248bfa47"
  by code_simp

lemma MurmurHash64A_hello: "MurmurHash64A [0x68,0x65,0x6c,0x6c,0x6f] 5 0 = Some 0x1e68d17c457bf117"
  by code_simp

section \<open>The steps are bijections\<close>

lemma xorshift_inj:
  fixes a b :: "'a::len word"
  assumes "0 < r" and eq: "xorshift r a = xorshift r b"
  shows "a = b"
proof -
  let ?d = "a XOR b"
  have "drop_bit r ?d = drop_bit r a XOR drop_bit r b" by simp
  also have "\<dots> = ?d"
  proof (rule bit_word_eqI)
    fix n assume n: "n < LENGTH('a)"
    have "bit (a XOR drop_bit r a) n = bit (b XOR drop_bit r b) n" using eq by (simp add: xorshift_def)
    then show "bit (drop_bit r a XOR drop_bit r b) n = bit (a XOR b) n" using n by (auto simp: bit_simps)
  qed
  finally have shift: "bit ?d n \<longleftrightarrow> bit ?d (r + n)" for n by (metis bit_drop_bit_eq comp_apply)
  have "\<not> bit ?d n" for n
  proof (induction "LENGTH('a) - n" arbitrary: n rule: less_induct)
    case less
    show ?case
    proof
      assume n: "bit ?d n"
      then have "n < LENGTH('a)" by (rule bit_imp_le_length)
      then have "\<not> bit ?d (r + n)" using assms(1) by (intro less) simp
      then show False using n shift by simp
    qed
  qed
  then show ?thesis by (intro bit_word_eqI) (auto simp: bit_simps)
qed

lemma mult_unit_inj: "m * m' = (1 :: 'a::comm_ring_1) \<Longrightarrow> a * m = b * m \<longleftrightarrow> a = b"
  by (metis mult.assoc mult.right_neutral)

lemma rotl32_inj:
  assumes "r \<le> 32" and eq: "rotl32 a r = rotl32 b r"
  shows "a = b"
proof (rule bit_word_eqI)
  fix i assume i: "i < LENGTH(32)"
  have at: "bit (rotl32 x r) (if i + r < 32 then i + r else i + r - 32) = bit x i" for x
    using i assms(1) by (auto simp: rotl32_def bit_simps dest: bit_imp_le_length)
  show "bit a i = bit b i" using at [of a] at [of b] eq by simp
qed

lemma murmur3_k_inj: "murmur3_k a = murmur3_k b \<longleftrightarrow> a = b"
proof
  assume "murmur3_k a = murmur3_k b"
  then have "rotl32 (a * murmur3_c1) 15 = rotl32 (b * murmur3_c1) 15"
    using mult_unit_inj [of murmur3_c2 "0x56ed309b"] by (simp add: murmur3_k_def murmur3_c2_def)
  then have "a * murmur3_c1 = b * murmur3_c1" by (rule rotl32_inj [rotated]) simp
  then show "a = b" using mult_unit_inj [of murmur3_c1 "0xdee13bb1"] by (simp add: murmur3_c1_def)
qed simp

lemma xor_left_cancel: "(h XOR a = h XOR b) \<longleftrightarrow> a = (b :: 'a::len word)"
  by (auto simp: bit_eq_iff bit_simps)

lemma murmur3_block_inj: "murmur3_block h (k :: u32) = murmur3_block h' k' \<longleftrightarrow> h XOR murmur3_k k = h' XOR murmur3_k k'"
proof
  assume "murmur3_block h k = murmur3_block h' k'"
  then have "rotl32 (h XOR murmur3_k k) 13 * 5 = rotl32 (h' XOR murmur3_k k') 13 * 5" by (simp add: murmur3_block_def)
  then have "rotl32 (h XOR murmur3_k k) 13 = rotl32 (h' XOR murmur3_k k') 13"
    using mult_unit_inj [of "5 :: u32" "0xcccccccd"] by simp
  then show "h XOR murmur3_k k = h' XOR murmur3_k k'" by (rule rotl32_inj [rotated]) simp
qed (simp add: murmur3_block_def)

lemma murmur3_fmix_inj: "murmur3_fmix a = murmur3_fmix b \<longleftrightarrow> a = b"
proof
  assume "murmur3_fmix a = murmur3_fmix b"
  then have "xorshift 13 (xorshift 16 a * 0x85ebca6b) * 0xc2b2ae35 = xorshift 13 (xorshift 16 b * 0x85ebca6b) * (0xc2b2ae35 :: u32)"
    unfolding murmur3_fmix_def by (rule xorshift_inj [rotated]) simp
  then have "xorshift 13 (xorshift 16 a * 0x85ebca6b) = xorshift 13 (xorshift 16 b * (0x85ebca6b :: u32))"
    using mult_unit_inj [of "0xc2b2ae35 :: u32" "0x7ed1b41d"] by simp
  then have "xorshift 16 a * 0x85ebca6b = xorshift 16 b * (0x85ebca6b :: u32)" by (rule xorshift_inj [rotated]) simp
  then have "xorshift 16 a = xorshift 16 b" using mult_unit_inj [of "0x85ebca6b :: u32" "0xa5cb9243"] by simp
  then show "a = b" by (rule xorshift_inj [rotated]) simp
qed simp

section \<open>Keys of whole blocks\<close>

definition block_at :: "u8 list \<Rightarrow> nat \<Rightarrow> u8 list" where
  "block_at bs i = take 4 (drop (4 * i) bs)"

lemma murmur3_loop_blocks:
  "4 * n \<le> length data \<Longrightarrow>
     murmur3_loop n data h = Some (drop (4 * n) data, foldl murmur3_block h (map (\<lambda>i. le_word (block_at data i)) [0..<n]))"
proof (induction n arbitrary: data h)
  case (Suc n)
  have shift: "block_at (drop 4 data) i = block_at data (Suc i)" for i by (simp add: block_at_def add.commute)
  have upt: "map f [0..<Suc n] = f 0 # map (\<lambda>i. f (Suc i)) [0..<n]" for f :: "nat \<Rightarrow> u32"
    by (simp add: upt_conv_Cons map_Suc_upt [symmetric] del: upt_Suc)
  show ?case using Suc.prems unfolding upt
    by (simp add: Suc.IH shift block_at_def [of data 0] add.commute)
qed simp

lemma MurmurHash3_blocks:
  assumes "4 * n \<le> length key"
  shows "MurmurHash3 key (4 * n) seed =
           Some (murmur3_fmix (foldl murmur3_block seed (map (\<lambda>i. le_word (block_at key i)) [0..<n]) XOR of_nat (4 * n)))"
  using murmur3_loop_blocks [OF assms] by (simp add: MurmurHash3_def murmur3_tail_def)

lemma foldl_block_inj:
  "foldl murmur3_block h ws = foldl murmur3_block h' ws \<longleftrightarrow> h = h'"
proof (induction ws arbitrary: h h')
  case (Cons w ws)
  show ?case by (simp add: Cons murmur3_block_inj) (metis xor_left_cancel xor.commute)
qed simp

lemma le_value_inj: "length a = length b \<Longrightarrow> le_value a = le_value b \<Longrightarrow> a = b"
proof (induction a arbitrary: b)
  case (Cons x a)
  then obtain y b' where b: "b = y # b'" by (cases b) auto
  have "uint x < 256" "uint y < 256" using uint_lt2p [of x] uint_lt2p [of y] by simp_all
  then have "(uint x + 256 * le_value a) mod 256 = uint x" "(uint y + 256 * le_value b') mod 256 = uint y" by simp_all
  moreover have "uint x + 256 * le_value a = uint y + 256 * le_value b'" using Cons.prems b by simp
  ultimately have "uint x = uint y" "le_value a = le_value b'" by simp_all
  then have "x = y" "le_value a = le_value b'" by (metis word_of_int_uint)+
  then show ?case using Cons b by simp
qed simp

lemma le_word_block_inj:
  assumes "length a = 4" "length b = 4" and "(le_word a :: u32) = le_word b"
  shows "a = b"
proof -
  have "0 \<le> le_value a" "le_value a < 2 ^ 32" "0 \<le> le_value b" "le_value b < 2 ^ 32"
    using le_value_bound [of a] le_value_bound [of b] assms by simp_all
  moreover have "le_value a mod 2 ^ 32 = le_value b mod 2 ^ 32"
    using assms(3) by (simp add: le_word_def word_of_int_eq_iff take_bit_eq_mod)
  ultimately have "le_value a = le_value b" by simp
  then show ?thesis using assms le_value_inj by simp
qed

text \<open>Keys of one length that differ in a single 4-byte block.\<close>

lemma MurmurHash3_one_block:
  assumes len: "length a = 4 * n" "length b = 4 * n" and j: "j < n"
    and same: "\<forall>i < n. i \<noteq> j \<longrightarrow> block_at a i = block_at b i" and diff: "block_at a j \<noteq> block_at b j"
  shows "MurmurHash3 a (4 * n) seed \<noteq> MurmurHash3 b (4 * n) seed"
proof
  define w where "w x = map (\<lambda>i. le_word (block_at x i) :: u32) [0..<n]" for x
  assume "MurmurHash3 a (4 * n) seed = MurmurHash3 b (4 * n) seed"
  then have "foldl murmur3_block seed (w a) XOR of_nat (4 * n) = foldl murmur3_block seed (w b) XOR of_nat (4 * n)"
    using len by (simp add: MurmurHash3_blocks murmur3_fmix_inj w_def)
  then have eq: "foldl murmur3_block seed (w a) = foldl murmur3_block seed (w b)" by (metis xor_left_cancel xor.commute)
  have split: "w x = take j (w x) @ le_word (block_at x j) # drop (Suc j) (w x)" for x
    using id_take_nth_drop [of j "w x"] j by (simp add: w_def)
  have "take j (w a) = take j (w b)" using same j by (auto simp: w_def take_map)
  moreover have "drop (Suc j) (w a) = drop (Suc j) (w b)" using same by (auto simp: w_def drop_map)
  ultimately have "foldl murmur3_block (murmur3_block (foldl murmur3_block seed (take j (w b))) (le_word (block_at a j))) (drop (Suc j) (w b)) =
      foldl murmur3_block (murmur3_block (foldl murmur3_block seed (take j (w b))) (le_word (block_at b j))) (drop (Suc j) (w b))"
    using eq split [of a] split [of b] by (metis foldl_append foldl_Cons)
  then have "(le_word (block_at a j) :: u32) = le_word (block_at b j)"
    by (simp add: foldl_block_inj murmur3_block_inj xor_left_cancel murmur3_k_inj)
  moreover have "length (block_at a j) = 4" "length (block_at b j) = 4" using len j by (simp_all add: block_at_def)
  ultimately show False using diff le_word_block_inj by blast
qed

end
