(* ===== verification/Byte_Memory.thy ===== *)
theory Byte_Memory
  imports Decoders "HOL-Library.Monad_Syntax"
begin

text \<open>
  A buffer as a list of bytes: reads and writes of ranges, which fail outside the buffer, and the
  laws that relate them.  The group-by buffers, the join tables and their initialisation are
  modelled over it, because their sources overlay 4-byte and 8-byte keys on one memory.
\<close>

definition mem_read :: "u8 list \<Rightarrow> nat \<Rightarrow> nat \<Rightarrow> u8 list option" where
  "mem_read buf off n = (if off + n \<le> length buf then Some (take n (drop off buf)) else None)"

definition mem_write :: "u8 list \<Rightarrow> nat \<Rightarrow> u8 list \<Rightarrow> u8 list option" where
  "mem_write buf off bs =
     (if off + length bs \<le> length buf then Some (take off buf @ bs @ drop (off + length bs) buf) else None)"

lemma mem_read_some: "off + n \<le> length buf \<Longrightarrow> mem_read buf off n = Some (take n (drop off buf))"
  by (simp add: mem_read_def)

lemma mem_read_len: "mem_read buf off n = Some bs \<Longrightarrow> length bs = n"
  by (auto simp: mem_read_def split: if_splits)

lemma mem_write_some:
  "off + length bs \<le> length buf \<Longrightarrow> \<exists>buf'. mem_write buf off bs = Some buf'"
  by (simp add: mem_write_def)

lemma mem_write_length: "mem_write buf off bs = Some buf' \<Longrightarrow> length buf' = length buf"
  by (auto simp: mem_write_def split: if_splits)

lemma mem_write_nth:
  assumes "mem_write buf off bs = Some buf'" and "i < length buf"
  shows "buf' ! i = (if off \<le> i \<and> i < off + length bs then bs ! (i - off) else buf ! i)"
  using assms by (auto simp: mem_write_def nth_append split: if_splits)

lemma mem_read_eqI:
  assumes "length a = length b" and "\<forall>i. off \<le> i \<longrightarrow> i < off + n \<longrightarrow> i < length a \<longrightarrow> a ! i = b ! i"
  shows "mem_read a off n = mem_read b off n"
  using assms by (auto simp: mem_read_def intro!: nth_equalityI)

text \<open>A read that does not meet the written range, one that covers the written range only, and one inside it.\<close>

lemma mem_read_write_other:
  assumes "mem_write buf off bs = Some buf'" and "off' + n \<le> off \<or> off + length bs \<le> off'"
  shows "mem_read buf' off' n = mem_read buf off' n"
  using assms mem_write_length [OF assms(1)] mem_write_nth [OF assms(1)] by (intro mem_read_eqI) auto

lemma mem_read_write_same:
  assumes "mem_write buf off bs = Some buf'" and "n = length bs"
  shows "mem_read buf' off n = Some bs"
  using assms by (auto simp: mem_write_def mem_read_def split: if_splits)

lemma mem_read_prefix: "mem_read buf off n = Some bs \<Longrightarrow> m \<le> n \<Longrightarrow> mem_read buf off m = Some (take m bs)"
  by (auto simp: mem_read_def split: if_splits)

lemma mem_read_write_prefix:
  assumes "mem_write buf off bs = Some buf'" and "n \<le> length bs"
  shows "mem_read buf' off n = Some (take n bs)"
  by (rule mem_read_prefix [OF mem_read_write_same [OF assms(1) refl] assms(2)])

text \<open>Disjoint ranges of an array of \<open>s\<close>-byte entries.\<close>

lemma entries_disjoint:
  assumes "i \<noteq> j" and "a + n \<le> (s :: nat)"
  shows "i * s + a + n \<le> j * s \<or> j * s + s \<le> i * s"
proof (cases "i < j")
  case True
  then have "Suc i * s \<le> j * s" by (intro mult_le_mono1) simp
  then show ?thesis using assms by simp
next
  case False
  then have "Suc j * s \<le> i * s" using assms by (intro mult_le_mono1) simp
  then show ?thesis by simp
qed

lemma entry_inside: "i < n \<Longrightarrow> a \<le> s \<Longrightarrow> i * s + a \<le> n * (s :: nat)"
proof -
  assume "i < n" "a \<le> s"
  then have "Suc i * s \<le> n * s" by (intro mult_le_mono1) simp
  then show ?thesis using \<open>a \<le> s\<close> by simp
qed

text \<open>\<open>align_to_int64\<close> of \<open>BufferCompaction.h\<close>, on an offset into a buffer whose address is a multiple of 8.\<close>

definition align_to_int64 :: "nat \<Rightarrow> nat" where
  "align_to_int64 addr = (addr + 7) div 8 * 8"

lemma align_to_int64_le: "a \<le> align_to_int64 a"
  unfolding align_to_int64_def using ceil_div_mult [of 8 a] by simp

lemma align_to_int64_dvd [simp]: "8 dvd align_to_int64 a"
  by (simp add: align_to_int64_def)

lemma align_to_int64_shift: "8 dvd b \<Longrightarrow> align_to_int64 (b + a) = b + align_to_int64 a"
  by (auto simp: align_to_int64_def add.assoc div_plus_div_distrib_dvd_left distrib_right)

lemma align_to_int64_less: "align_to_int64 a < a + 8"
  unfolding align_to_int64_def by presburger

end
