(* ===== verification/Group_By.thy ===== *)
theory Group_By
  imports Probe_Table Murmur_Hash Byte_Memory "HOL-Library.Signed_Division"
begin

text \<open>
  The group-by runtime: the functions of \<open>QueryEngine/GroupByRuntime.cpp\<close> and the matching
  functions of \<open>RuntimeFunctions.cpp\<close> they call, which find or create the entry of a group in the
  output buffer.  The buffer is a list of bytes at an address that is a multiple of 8; a pointer
  into it is its byte offset, \<open>NULL\<close> is \<open>None\<close> in the result.  The outer \<open>None\<close> is undefined
  behaviour of the source: an access outside a buffer, a division by zero, a signed overflow, a
  key longer than the type \<open>int\<close> of the hash's length.
\<close>

section \<open>Empty keys\<close>

text \<open>\<open>get_empty_key\<close>: \<open>EMPTY_KEY_32\<close> and \<open>EMPTY_KEY_64\<close>, the maxima of the signed types.\<close>

definition get_empty_key :: "nat \<Rightarrow> u8 list" where
  "get_empty_key w = le_bytes w (2 ^ (8 * w - 1) - 1)"

definition EMPTY_KEY_64 :: "u8 list" where
  "EMPTY_KEY_64 = get_empty_key 8"

section \<open>Matching one slot\<close>

text \<open>The row-wise template; \<open>w\<close> is the size of its parameter.\<close>

definition get_matching_group_value_T ::
    "nat \<Rightarrow> u8 list \<Rightarrow> u32 \<Rightarrow> u8 list \<Rightarrow> u32 \<Rightarrow> u32 \<Rightarrow> (u8 list \<times> nat option) option" where
  "get_matching_group_value_T w groups_buffer h key key_count row_size_quad =
     do {
       let off = h * row_size_quad;
       let row_ptr = unat off * 8;
       let key_bytes = unat key_count * w;
       first \<leftarrow> mem_read groups_buffer row_ptr w;
       k \<leftarrow> mem_read key 0 key_bytes;
       if first = get_empty_key w
       then do {
         groups_buffer' \<leftarrow> mem_write groups_buffer row_ptr k;
         Some (groups_buffer', Some (align_to_int64 (row_ptr + key_bytes)))
       }
       else do {
         row \<leftarrow> mem_read groups_buffer row_ptr key_bytes;
         Some (groups_buffer, if row = k then Some (align_to_int64 (row_ptr + key_bytes)) else None)
       }
     }"

definition get_matching_group_value ::
    "u8 list \<Rightarrow> u32 \<Rightarrow> u8 list \<Rightarrow> u32 \<Rightarrow> u32 \<Rightarrow> u32 \<Rightarrow> (u8 list \<times> nat option) option" where
  "get_matching_group_value groups_buffer h key key_count key_width row_size_quad =
     (if key_width = 4 then get_matching_group_value_T 4 groups_buffer h key key_count row_size_quad
      else if key_width = 8 then get_matching_group_value_T 8 groups_buffer h key key_count row_size_quad
      else Some (groups_buffer, None))"

text \<open>
  The loops of the columnar layout over the components of a key: component \<open>i\<close> of entry \<open>h\<close> is
  element \<open>h + i * entry_count\<close>, with the offset kept in 32 bits.
\<close>

fun store_key_columnar :: "nat \<Rightarrow> u32 \<Rightarrow> u8 list \<Rightarrow> nat \<Rightarrow> nat \<Rightarrow> u32 \<Rightarrow> u8 list \<Rightarrow> (u8 list \<times> u32) option" where
  "store_key_columnar w entry_count key 0 i off buf = Some (buf, off)"
| "store_key_columnar w entry_count key (Suc m) i off buf =
     do {
       k \<leftarrow> mem_read key (i * w) w;
       buf' \<leftarrow> mem_write buf (unat off * w) k;
       store_key_columnar w entry_count key m (Suc i) (off + entry_count) buf'
     }"

text \<open>\<open>Some None\<close> when a component differs, else the offset after the last one.\<close>

fun match_key_columnar :: "nat \<Rightarrow> u32 \<Rightarrow> u8 list \<Rightarrow> nat \<Rightarrow> nat \<Rightarrow> u32 \<Rightarrow> u8 list \<Rightarrow> u32 option option" where
  "match_key_columnar w entry_count key 0 i off buf = Some (Some off)"
| "match_key_columnar w entry_count key (Suc m) i off buf =
     do {
       k \<leftarrow> mem_read key (i * w) w;
       v \<leftarrow> mem_read buf (unat off * w) w;
       if v \<noteq> k then Some None else match_key_columnar w entry_count key m (Suc i) (off + entry_count) buf
     }"

definition get_matching_group_value_columnar_slot_T ::
    "nat \<Rightarrow> u8 list \<Rightarrow> u32 \<Rightarrow> u32 \<Rightarrow> u8 list \<Rightarrow> u32 \<Rightarrow> (u8 list \<times> int) option" where
  "get_matching_group_value_columnar_slot_T w groups_buffer entry_count h key key_count =
     do {
       first \<leftarrow> mem_read groups_buffer (unat h * w) w;
       if first = get_empty_key w
       then do {
         (buf, off) \<leftarrow> store_key_columnar w entry_count key (unat key_count) 0 h groups_buffer;
         Some (buf, sint h)
       }
       else do {
         m \<leftarrow> match_key_columnar w entry_count key (unat key_count) 0 h groups_buffer;
         Some (groups_buffer, if m = None then - 1 else sint h)
       }
     }"

definition get_matching_group_value_columnar_slot ::
    "u8 list \<Rightarrow> u32 \<Rightarrow> u32 \<Rightarrow> u8 list \<Rightarrow> u32 \<Rightarrow> u32 \<Rightarrow> (u8 list \<times> int) option" where
  "get_matching_group_value_columnar_slot groups_buffer entry_count h key key_count key_width =
     (if key_width = 4 then get_matching_group_value_columnar_slot_T 4 groups_buffer entry_count h key key_count
      else if key_width = 8 then get_matching_group_value_columnar_slot_T 8 groups_buffer entry_count h key key_count
      else Some (groups_buffer, - 1))"

text \<open>Here \<open>entry_count\<close> is a \<open>size_t\<close>, but it is added to a 32-bit offset.\<close>

definition get_matching_group_value_columnar ::
    "u8 list \<Rightarrow> u32 \<Rightarrow> u8 list \<Rightarrow> u32 \<Rightarrow> u64 \<Rightarrow> (u8 list \<times> nat option) option" where
  "get_matching_group_value_columnar groups_buffer h key key_qw_count entry_count =
     do {
       first \<leftarrow> mem_read groups_buffer (unat h * 8) 8;
       if first = EMPTY_KEY_64
       then do {
         (buf, off) \<leftarrow> store_key_columnar 8 (ucast entry_count) key (unat key_qw_count) 0 h groups_buffer;
         Some (buf, Some (unat off * 8))
       }
       else do {
         m \<leftarrow> match_key_columnar 8 (ucast entry_count) key (unat key_qw_count) 0 h groups_buffer;
         Some (groups_buffer, map_option (\<lambda>off. unat off * 8) m)
       }
     }"

section \<open>Hashed group-by\<close>

definition key_hash :: "u8 list \<Rightarrow> u32 \<Rightarrow> u32 \<Rightarrow> u32 option" where
  "key_hash key key_count key_byte_width =
     (let len = key_byte_width * key_count
      in if 2 ^ 31 \<le> len then None else MurmurHash3 key (unat len) 0)"

text \<open>
  The loops of the three layouts are one loop over their matching function.  With fewer than
  \<open>2^32\<close> entries the 32-bit probe positions do not wrap.
\<close>

definition get_group_value ::
    "u8 list \<Rightarrow> u32 \<Rightarrow> u8 list \<Rightarrow> u32 \<Rightarrow> u32 \<Rightarrow> u32 \<Rightarrow> (u8 list \<times> nat option) option" where
  "get_group_value groups_buffer groups_buffer_entry_count key key_count key_width row_size_quad =
     (if groups_buffer_entry_count = 0 then None
      else do {
        hash \<leftarrow> key_hash key key_count key_width;
        probe_find (\<lambda>buf h_probe. get_matching_group_value buf (of_nat h_probe) key key_count key_width row_size_quad)
          (unat groups_buffer_entry_count) (unat (hash mod groups_buffer_entry_count)) groups_buffer
      })"

definition get_group_value_with_watchdog ::
    "(nat \<Rightarrow> bool) \<Rightarrow> u8 list \<Rightarrow> u32 \<Rightarrow> u8 list \<Rightarrow> u32 \<Rightarrow> u32 \<Rightarrow> u32 \<Rightarrow> (u8 list \<times> nat option) option" where
  "get_group_value_with_watchdog dynamic_watchdog groups_buffer groups_buffer_entry_count key key_count key_width row_size_quad =
     (if groups_buffer_entry_count = 0 then None
      else do {
        hash \<leftarrow> key_hash key key_count key_width;
        probe_find_wd (\<lambda>buf h_probe. get_matching_group_value buf (of_nat h_probe) key key_count key_width row_size_quad)
          dynamic_watchdog
          (unat groups_buffer_entry_count) (unat (hash mod groups_buffer_entry_count)) groups_buffer
      })"

text \<open>The slot of a columnar entry: the loop returns the probed position, converted to \<open>int32_t\<close>.\<close>

definition columnar_slot_attempt :: "u32 \<Rightarrow> u8 list \<Rightarrow> u32 \<Rightarrow> u32 \<Rightarrow> u8 list \<Rightarrow> nat \<Rightarrow> (u8 list \<times> int option) option" where
  "columnar_slot_attempt entry_count key key_count key_width buf h_probe =
     do {
       (buf', matching_slot) \<leftarrow> get_matching_group_value_columnar_slot buf entry_count (of_nat h_probe) key key_count key_width;
       Some (buf', if matching_slot \<noteq> - 1 then Some (to_i32 (int h_probe)) else None)
     }"

definition get_group_value_columnar_slot ::
    "u8 list \<Rightarrow> u32 \<Rightarrow> u8 list \<Rightarrow> u32 \<Rightarrow> u32 \<Rightarrow> (u8 list \<times> int) option" where
  "get_group_value_columnar_slot groups_buffer groups_buffer_entry_count key key_count key_width =
     (if groups_buffer_entry_count = 0 then None
      else do {
        hash \<leftarrow> key_hash key key_count key_width;
        (buf, r) \<leftarrow> probe_find (columnar_slot_attempt groups_buffer_entry_count key key_count key_width)
          (unat groups_buffer_entry_count) (unat (hash mod groups_buffer_entry_count)) groups_buffer;
        Some (buf, case r of Some slot \<Rightarrow> slot | None \<Rightarrow> - 1)
      })"

definition get_group_value_columnar_slot_with_watchdog ::
    "(nat \<Rightarrow> bool) \<Rightarrow> u8 list \<Rightarrow> u32 \<Rightarrow> u8 list \<Rightarrow> u32 \<Rightarrow> u32 \<Rightarrow> (u8 list \<times> int) option" where
  "get_group_value_columnar_slot_with_watchdog dynamic_watchdog groups_buffer groups_buffer_entry_count key key_count key_width =
     (if groups_buffer_entry_count = 0 then None
      else do {
        hash \<leftarrow> key_hash key key_count key_width;
        (buf, r) \<leftarrow> probe_find_wd (columnar_slot_attempt groups_buffer_entry_count key key_count key_width)
          dynamic_watchdog
          (unat groups_buffer_entry_count) (unat (hash mod groups_buffer_entry_count)) groups_buffer;
        Some (buf, case r of Some slot \<Rightarrow> slot | None \<Rightarrow> - 1)
      })"

definition get_group_value_columnar :: "u8 list \<Rightarrow> u32 \<Rightarrow> u8 list \<Rightarrow> u32 \<Rightarrow> (u8 list \<times> nat option) option" where
  "get_group_value_columnar groups_buffer groups_buffer_entry_count key key_qw_count =
     (if groups_buffer_entry_count = 0 then None
      else do {
        hash \<leftarrow> key_hash key key_qw_count 8;
        probe_find (\<lambda>buf h_probe. get_matching_group_value_columnar buf (of_nat h_probe) key key_qw_count (ucast groups_buffer_entry_count))
          (unat groups_buffer_entry_count) (unat (hash mod groups_buffer_entry_count)) groups_buffer
      })"

definition get_group_value_columnar_with_watchdog ::
    "(nat \<Rightarrow> bool) \<Rightarrow> u8 list \<Rightarrow> u32 \<Rightarrow> u8 list \<Rightarrow> u32 \<Rightarrow> (u8 list \<times> nat option) option" where
  "get_group_value_columnar_with_watchdog dynamic_watchdog groups_buffer groups_buffer_entry_count key key_qw_count =
     (if groups_buffer_entry_count = 0 then None
      else do {
        hash \<leftarrow> key_hash key key_qw_count 8;
        probe_find_wd (\<lambda>buf h_probe. get_matching_group_value_columnar buf (of_nat h_probe) key key_qw_count (ucast groups_buffer_entry_count))
          dynamic_watchdog
          (unat groups_buffer_entry_count) (unat (hash mod groups_buffer_entry_count)) groups_buffer
      })"

section \<open>Perfect-hash group-by\<close>

text \<open>Signed 64-bit arithmetic, undefined on overflow; an element of a buffer of \<open>int64_t\<close>.\<close>

definition chk64 :: "int \<Rightarrow> int option" where
  "chk64 v = (if - (2 ^ 63) \<le> v \<and> v < 2 ^ 63 then Some v else None)"

definition elem64 :: "int \<Rightarrow> nat option" where
  "elem64 i = (if i < 0 then None else Some (nat i * 8))"

definition get_matching_group_value_perfect_hash ::
    "u8 list \<Rightarrow> u32 \<Rightarrow> u8 list \<Rightarrow> u32 \<Rightarrow> u32 \<Rightarrow> (u8 list \<times> nat) option" where
  "get_matching_group_value_perfect_hash groups_buffer hashed_index key key_count row_size_quad =
     do {
       let off = hashed_index * row_size_quad;
       first \<leftarrow> mem_read groups_buffer (unat off * 8) 8;
       buf \<leftarrow> (if first = EMPTY_KEY_64
              then map_option fst (store_key_columnar 8 1 key (unat key_count) 0 off groups_buffer)
              else Some groups_buffer);
       Some (buf, (unat off + unat key_count) * 8)
     }"

definition get_matching_group_value_perfect_hash_keyless :: "u32 \<Rightarrow> u32 \<Rightarrow> nat" where
  "get_matching_group_value_perfect_hash_keyless hashed_index row_size_quad = unat (row_size_quad * hashed_index) * 8"

definition set_matching_group_value_perfect_hash_columnar ::
    "u8 list \<Rightarrow> u32 \<Rightarrow> u8 list \<Rightarrow> u32 \<Rightarrow> u32 \<Rightarrow> u8 list option" where
  "set_matching_group_value_perfect_hash_columnar groups_buffer hashed_index key key_count entry_count =
     do {
       first \<leftarrow> mem_read groups_buffer (unat hashed_index * 8) 8;
       if first = EMPTY_KEY_64
       then map_option fst (store_key_columnar 8 entry_count key (unat key_count) 0 hashed_index groups_buffer)
       else Some groups_buffer
     }"

definition get_group_value_fast :: "u8 list \<Rightarrow> int \<Rightarrow> int \<Rightarrow> int \<Rightarrow> u32 \<Rightarrow> (u8 list \<times> nat) option" where
  "get_group_value_fast groups_buffer key min_key bucket row_size_quad =
     do {
       key_diff \<leftarrow> chk64 (key - min_key);
       key_diff \<leftarrow> (if bucket \<noteq> 0 then chk64 (key_diff sdiv bucket) else Some key_diff);
       off \<leftarrow> chk64 (key_diff * uint row_size_quad);
       p \<leftarrow> elem64 off;
       first \<leftarrow> mem_read groups_buffer p 8;
       buf \<leftarrow> (if first = EMPTY_KEY_64 then mem_write groups_buffer p (le_bytes 8 key) else Some groups_buffer);
       Some (buf, p + 8)
     }"

definition get_group_value_fast_with_original_key ::
    "u8 list \<Rightarrow> int \<Rightarrow> int \<Rightarrow> int \<Rightarrow> int \<Rightarrow> u32 \<Rightarrow> (u8 list \<times> nat) option" where
  "get_group_value_fast_with_original_key groups_buffer key orig_key min_key bucket row_size_quad =
     do {
       key_diff \<leftarrow> chk64 (key - min_key);
       key_diff \<leftarrow> (if bucket \<noteq> 0 then chk64 (key_diff sdiv bucket) else Some key_diff);
       off \<leftarrow> chk64 (key_diff * uint row_size_quad);
       p \<leftarrow> elem64 off;
       first \<leftarrow> mem_read groups_buffer p 8;
       buf \<leftarrow> (if first = EMPTY_KEY_64 then mem_write groups_buffer p (le_bytes 8 orig_key) else Some groups_buffer);
       Some (buf, p + 8)
     }"

definition get_columnar_group_bin_offset :: "u8 list \<Rightarrow> int \<Rightarrow> int \<Rightarrow> int \<Rightarrow> (u8 list \<times> u32) option" where
  "get_columnar_group_bin_offset key_base_ptr key min_key bucket =
     do {
       off \<leftarrow> chk64 (key - min_key);
       off \<leftarrow> (if bucket \<noteq> 0 then chk64 (off sdiv bucket) else Some off);
       p \<leftarrow> elem64 off;
       first \<leftarrow> mem_read key_base_ptr p 8;
       buf \<leftarrow> (if first = EMPTY_KEY_64 then mem_write key_base_ptr p (le_bytes 8 key) else Some key_base_ptr);
       Some (buf, word_of_int off)
     }"

definition get_group_value_fast_keyless :: "int \<Rightarrow> int \<Rightarrow> u32 \<Rightarrow> int option" where
  "get_group_value_fast_keyless key min_key row_size_quad =
     do {
       d \<leftarrow> chk64 (key - min_key);
       off \<leftarrow> chk64 (uint row_size_quad * d);
       Some (off * 8)
     }"

definition get_group_value_fast_keyless_semiprivate :: "int \<Rightarrow> int \<Rightarrow> u32 \<Rightarrow> u8 \<Rightarrow> u8 \<Rightarrow> int option" where
  "get_group_value_fast_keyless_semiprivate key min_key row_size_quad thread_warp_idx warp_size =
     do {
       d \<leftarrow> chk64 (key - min_key);
       m \<leftarrow> chk64 (uint warp_size * d);
       s \<leftarrow> chk64 (m + uint thread_warp_idx);
       off \<leftarrow> chk64 (uint row_size_quad * s);
       Some (off * 8)
     }"

section \<open>Projections\<close>

definition get_scan_output_slot :: "u8 list \<Rightarrow> u32 \<Rightarrow> u32 \<Rightarrow> int \<Rightarrow> u32 \<Rightarrow> (u8 list \<times> nat option) option" where
  "get_scan_output_slot output_buffer output_buffer_entry_count pos offset_in_fragment row_size_quad =
     (let off = unat pos * unat row_size_quad
      in if pos < output_buffer_entry_count
         then do {
           buf \<leftarrow> mem_write output_buffer (off * 8) (le_bytes 8 offset_in_fragment);
           Some (buf, Some ((off + 1) * 8))
         }
         else Some (output_buffer, None))"

definition get_columnar_scan_output_offset :: "u8 list \<Rightarrow> u32 \<Rightarrow> u32 \<Rightarrow> int \<Rightarrow> (u8 list \<times> int) option" where
  "get_columnar_scan_output_offset output_buffer output_buffer_entry_count pos offset_in_fragment =
     (if pos < output_buffer_entry_count
      then do {
        buf \<leftarrow> mem_write output_buffer (unat pos * 8) (le_bytes 8 offset_in_fragment);
        Some (buf, sint pos)
      }
      else Some (output_buffer, - 1))"

end
