(* ===== verification/Group_By_Tables.thy ===== *)
theory Group_By_Tables
  imports Group_By
begin

text \<open>
  The group-by buffers as open-addressing tables: the row-wise layout, the columnar layout with
  slots and the columnar layout with pointers each implement the interface \<open>probe_table\<close>.
\<close>

section \<open>Contexts\<close>

text \<open>The arguments of the runtime functions that do not change during a query.\<close>

record group_ctx =
  gc_entries :: u32
  gc_keys :: u32
  gc_width :: u32
  gc_row :: u32

definition key_w :: "group_ctx \<Rightarrow> nat" where "key_w c = unat (gc_width c)"

definition key_len :: "group_ctx \<Rightarrow> nat" where "key_len c = unat (gc_keys c) * key_w c"

definition group_entries :: "group_ctx \<Rightarrow> nat" where "group_entries c = unat (gc_entries c)"

definition row_bytes :: "group_ctx \<Rightarrow> nat" where "row_bytes c = unat (gc_row c) * 8"

text \<open>Keys whose first component is the empty key are outside the contract.\<close>

definition group_key_ok :: "group_ctx \<Rightarrow> u8 list \<Rightarrow> bool" where
  "group_key_ok c k \<longleftrightarrow> length k = key_len c \<and> take (key_w c) k \<noteq> get_empty_key (key_w c)"

definition group_home :: "group_ctx \<Rightarrow> u8 list \<Rightarrow> nat" where
  "group_home c k = (case key_hash k (gc_keys c) (gc_width c) of
                       None \<Rightarrow> 0 | Some hash \<Rightarrow> unat (hash mod gc_entries c))"

lemma group_home_less: "0 < group_entries c \<Longrightarrow> group_home c k < group_entries c"
  by (auto simp: group_home_def group_entries_def unat_mod split: option.splits)

definition ctx_ok :: "group_ctx \<Rightarrow> bool" where
  "ctx_ok c \<longleftrightarrow> gc_width c \<in> {4, 8} \<and> 0 < gc_keys c \<and> key_len c < 2 ^ 31"

lemma MurmurHash3_total: "length key = len \<Longrightarrow> \<exists>h. MurmurHash3 key len seed = Some h"
proof -
  assume len: "length key = len"
  have "4 * (len div 4) \<le> length key" using len by simp
  note loop = murmur3_loop_blocks [OF this, of seed]
  have "len mod 4 \<le> length (drop (4 * (len div 4)) key)" using len by (simp add: minus_mult_div_eq_mod)
  then show ?thesis using loop by (auto simp: MurmurHash3_def murmur3_tail_def Let_def)
qed

lemma key_hash_total:
  assumes "ctx_ok c" and "length k = key_len c"
  shows "\<exists>h. key_hash k (gc_keys c) (gc_width c) = Some h"
proof -
  have "unat (gc_width c * gc_keys c) = key_len c"
    using assms(1) by (auto simp: ctx_ok_def key_len_def key_w_def unat_word_ariths)
  moreover from this have "\<not> 2 ^ 31 \<le> gc_width c * gc_keys c"
    using assms(1) by (auto simp: ctx_ok_def word_le_nat_alt)
  ultimately show ?thesis using MurmurHash3_total [OF assms(2)] by (simp add: key_hash_def)
qed

section \<open>Row-wise layout\<close>

definition row_wf :: "group_ctx \<Rightarrow> u8 list \<Rightarrow> bool" where
  "row_wf c b \<longleftrightarrow> ctx_ok c \<and> key_len c \<le> row_bytes c \<and> unat (gc_entries c) * unat (gc_row c) < 2 ^ 32 \<and>
     group_entries c * row_bytes c \<le> length b"

definition row_key_at :: "group_ctx \<Rightarrow> u8 list \<Rightarrow> nat \<Rightarrow> u8 list option" where
  "row_key_at c b i =
     (case mem_read b (i * row_bytes c) (key_len c) of
        None \<Rightarrow> None
      | Some k \<Rightarrow> if take (key_w c) k = get_empty_key (key_w c) then None else Some k)"

definition row_attempt :: "group_ctx \<Rightarrow> u8 list \<Rightarrow> u8 list \<Rightarrow> nat \<Rightarrow> (u8 list \<times> nat option) option" where
  "row_attempt c k b i = get_matching_group_value b (of_nat i) k (gc_keys c) (gc_width c) (gc_row c)"

definition row_res :: "group_ctx \<Rightarrow> nat \<Rightarrow> nat" where
  "row_res c i = i * row_bytes c + align_to_int64 (key_len c)"

lemma unat_of_nat_less: "n < 2 ^ LENGTH('a) \<Longrightarrow> unat (of_nat n :: 'a::len word) = n"
  by (simp add: unat_of_nat take_bit_nat_eq_self)

lemma row_offset:
  assumes "row_wf c b" and "i < group_entries c"
  shows "unat (of_nat i * gc_row c :: u32) * 8 = i * row_bytes c"
proof -
  have "i * unat (gc_row c) \<le> unat (gc_entries c) * unat (gc_row c)"
    using assms(2) by (intro mult_le_mono1) (simp add: group_entries_def)
  also have "\<dots> < 2 ^ 32" using assms(1) by (simp add: row_wf_def)
  finally have "unat (of_nat (i * unat (gc_row c)) :: u32) = i * unat (gc_row c)" by (intro unat_of_nat_less) simp
  then show ?thesis by (simp add: row_bytes_def)
qed

lemma row_inside:
  assumes "row_wf c b" and "i < group_entries c"
  shows "i * row_bytes c + row_bytes c \<le> length b"
  using entry_inside [OF assms(2), of "row_bytes c" "row_bytes c"] assms(1) by (simp add: row_wf_def)

lemma key_w_le: "ctx_ok c \<Longrightarrow> key_w c \<le> key_len c"
  by (simp add: ctx_ok_def key_len_def Suc_leI unat_gt_0 word_gt_0)

lemma key_len_pos: "ctx_ok c \<Longrightarrow> 0 < key_len c"
  using key_w_le [of c] by (auto simp: ctx_ok_def key_w_def)

lemma row_read_key:
  assumes "row_wf c b" and "i < group_entries c"
  obtains k where "mem_read b (i * row_bytes c) (key_len c) = Some k" and "length k = key_len c"
proof -
  have "i * row_bytes c + key_len c \<le> length b" using row_inside [OF assms] assms(1) by (simp add: row_wf_def)
  then show ?thesis using that mem_read_some mem_read_len by metis
qed

text \<open>One attempt, in terms of the bytes of the row.\<close>

lemma row_attempt_eq:
  assumes wf: "row_wf c b" and i: "i < group_entries c" and k: "length k = key_len c"
    and read: "mem_read b (i * row_bytes c) (key_len c) = Some r"
  shows "row_attempt c k b i =
           (if take (key_w c) r = get_empty_key (key_w c)
            then map_option (\<lambda>b'. (b', Some (row_res c i))) (mem_write b (i * row_bytes c) k)
            else Some (b, if r = k then Some (row_res c i) else None))"
proof -
  have c: "ctx_ok c" using wf by (simp add: row_wf_def)
  have w: "gc_width c = 4 \<and> key_w c = 4 \<or> gc_width c = 8 \<and> key_w c = 8" using c by (auto simp: ctx_ok_def key_w_def)
  have T: "row_attempt c k b i = get_matching_group_value_T (key_w c) b (of_nat i) k (gc_keys c) (gc_row c)"
    using w by (auto simp: row_attempt_def get_matching_group_value_def)
  have res: "align_to_int64 (i * row_bytes c + key_len c) = row_res c i"
    by (simp add: row_res_def row_bytes_def align_to_int64_shift)
  have first: "mem_read b (i * row_bytes c) (key_w c) = Some (take (key_w c) r)"
    by (rule mem_read_prefix [OF read key_w_le [OF c]])
  have key: "mem_read k 0 (key_len c) = Some k" using k by (simp add: mem_read_def)
  show ?thesis unfolding T get_matching_group_value_T_def Let_def row_offset [OF wf i] key_len_def [symmetric]
    by (cases "mem_write b (i * row_bytes c) k") (simp_all add: first key read res)
qed

lemma row_key_at_other:
  assumes "row_wf c b" and "mem_write b (i * row_bytes c) k = Some b'" and "length k = key_len c" and "j \<noteq> i"
  shows "row_key_at c b' j = row_key_at c b j"
proof -
  have "j * row_bytes c + key_len c \<le> i * row_bytes c \<or> i * row_bytes c + row_bytes c \<le> j * row_bytes c"
    using entries_disjoint [OF assms(4), of 0 "key_len c" "row_bytes c"] assms(1) by (simp add: row_wf_def)
  then have "mem_read b' (j * row_bytes c) (key_len c) = mem_read b (j * row_bytes c) (key_len c)"
    using assms(1,3) by (intro mem_read_write_other [OF assms(2)]) (auto simp: row_wf_def)
  then show ?thesis by (simp add: row_key_at_def)
qed

interpretation row_table: probe_table group_entries row_wf group_key_ok row_key_at row_attempt row_res group_home
proof
  fix c b k i
  assume wf: "row_wf c b" and k: "group_key_ok c k" and i: "i < group_entries c"
  have len: "length k = key_len c" using k by (simp add: group_key_ok_def)
  obtain r where r: "mem_read b (i * row_bytes c) (key_len c) = Some r" "length r = key_len c"
    by (rule row_read_key [OF wf i])
  note eq = row_attempt_eq [OF wf i len r(1)]
  have at: "row_key_at c b i = (if take (key_w c) r = get_empty_key (key_w c) then None else Some r)"
    by (simp add: row_key_at_def r)
  {
    assume none: "row_key_at c b i = None"
    have "i * row_bytes c + length k \<le> length b" using row_inside [OF wf i] wf len by (simp add: row_wf_def)
    then obtain b' where w: "mem_write b (i * row_bytes c) k = Some b'" using mem_write_some by blast
    have "row_attempt c k b i = Some (b', Some (row_res c i))" using eq none at w by (auto split: if_splits)
    moreover have "row_wf c b'" using wf mem_write_length [OF w] by (simp add: row_wf_def)
    moreover have "row_key_at c b' i = Some k"
      using mem_read_write_same [OF w refl] len k by (simp add: row_key_at_def group_key_ok_def)
    ultimately show "\<exists>b'. row_attempt c k b i = Some (b', Some (row_res c i)) \<and> row_wf c b' \<and>
        (\<forall>j < group_entries c. row_key_at c b' j = (if j = i then Some k else row_key_at c b j))"
      using row_key_at_other [OF wf w len] by auto
  next
    assume "row_key_at c b i = Some k"
    then show "row_attempt c k b i = Some (b, Some (row_res c i))" using eq at by (auto split: if_splits)
  next
    fix k' assume "row_key_at c b i = Some k'" and "k' \<noteq> k"
    then show "row_attempt c k b i = Some (b, None)" using eq at by (auto split: if_splits)
  }
next
  fix c k assume "0 < group_entries c"
  then show "group_home c k < group_entries c" by (rule group_home_less)
next
  fix c b i j assume "row_wf c b" and "i < group_entries c" and "j < group_entries c" and "row_res c i = row_res c j"
  moreover from this have "0 < row_bytes c" using key_len_pos [of c] by (simp add: row_wf_def)
  ultimately show "i = j" by (simp add: row_res_def)
qed

text \<open>The runtime function is the search of the table.\<close>

lemma get_group_value_probe:
  assumes "ctx_ok c" and "length k = key_len c" and "0 < group_entries c"
  shows "get_group_value b (gc_entries c) k (gc_keys c) (gc_width c) (gc_row c) =
           probe_find (row_attempt c k) (group_entries c) (group_home c k) b"
proof -
  obtain h where "key_hash k (gc_keys c) (gc_width c) = Some h" using key_hash_total [OF assms(1,2)] by blast
  then show ?thesis using assms(3)
    by (auto simp: get_group_value_def group_home_def group_entries_def row_attempt_def [abs_def])
qed

lemma get_group_value_with_watchdog_probe:
  assumes "ctx_ok c" and "length k = key_len c" and "0 < group_entries c"
  shows "get_group_value_with_watchdog wd b (gc_entries c) k (gc_keys c) (gc_width c) (gc_row c) =
           probe_find_wd (row_attempt c k) wd (group_entries c) (group_home c k) b"
proof -
  obtain h where "key_hash k (gc_keys c) (gc_width c) = Some h" using key_hash_total [OF assms(1,2)] by blast
  then show ?thesis using assms(3)
    by (auto simp: get_group_value_with_watchdog_def group_home_def group_entries_def row_attempt_def [abs_def])
qed

section \<open>Columnar layout\<close>

text \<open>Component \<open>i\<close> of entry \<open>h\<close> of the buffer.\<close>

definition col_wf :: "group_ctx \<Rightarrow> u8 list \<Rightarrow> bool" where
  "col_wf c b \<longleftrightarrow> ctx_ok c \<and> unat (gc_keys c) * group_entries c < 2 ^ 32 \<and>
     group_entries c * key_len c \<le> length b"

definition col_off :: "group_ctx \<Rightarrow> nat \<Rightarrow> nat \<Rightarrow> nat" where
  "col_off c h i = (h + i * group_entries c) * key_w c"

definition col_comp :: "group_ctx \<Rightarrow> u8 list \<Rightarrow> nat \<Rightarrow> nat \<Rightarrow> u8 list" where
  "col_comp c b h i = take (key_w c) (drop (col_off c h i) b)"

definition col_key :: "group_ctx \<Rightarrow> u8 list \<Rightarrow> nat \<Rightarrow> u8 list" where
  "col_key c b h = concat (map (col_comp c b h) [0..<unat (gc_keys c)])"

definition col_key_at :: "group_ctx \<Rightarrow> u8 list \<Rightarrow> nat \<Rightarrow> u8 list option" where
  "col_key_at c b h = (if col_comp c b h 0 = get_empty_key (key_w c) then None else Some (col_key c b h))"

definition col_slot_attempt :: "group_ctx \<Rightarrow> u8 list \<Rightarrow> u8 list \<Rightarrow> nat \<Rightarrow> (u8 list \<times> int option) option" where
  "col_slot_attempt c k = columnar_slot_attempt (gc_entries c) k (gc_keys c) (gc_width c)"

definition key_comp :: "group_ctx \<Rightarrow> u8 list \<Rightarrow> nat \<Rightarrow> u8 list" where
  "key_comp c k i = take (key_w c) (drop (i * key_w c) k)"

lemma col_index_less:
  assumes "i < unat (gc_keys c)" and "h < group_entries c"
  shows "h + i * group_entries c < unat (gc_keys c) * group_entries c"
  using mult_le_mono1 [of "Suc i" "unat (gc_keys c)" "group_entries c"] assms by simp

lemma col_off_inside:
  assumes "col_wf c b" and "i < unat (gc_keys c)" and "h < group_entries c"
  shows "col_off c h i + key_w c \<le> length b"
proof -
  have "(h + i * group_entries c) * key_w c + key_w c \<le> unat (gc_keys c) * group_entries c * key_w c"
    using col_index_less [OF assms(2,3)] by (intro entry_inside) simp_all
  then show ?thesis using assms(1) by (simp add: col_wf_def col_off_def key_len_def ac_simps)
qed

lemma col_off_unat:
  assumes "col_wf c b" and "i < unat (gc_keys c)" and "h < group_entries c"
  shows "unat (of_nat h + of_nat i * gc_entries c :: u32) * key_w c = col_off c h i"
proof -
  have "h + i * group_entries c < 2 ^ 32"
    using col_index_less [OF assms(2,3)] assms(1) by (simp add: col_wf_def)
  then have "unat (of_nat (h + i * group_entries c) :: u32) = h + i * group_entries c"
    by (intro unat_of_nat_less) simp
  then show ?thesis by (simp add: col_off_def group_entries_def)
qed

lemma col_index_inj:
  assumes "h < (n :: nat)" and "h' < n" and "h + i * n = h' + i' * n"
  shows "h = h' \<and> i = i'"
proof -
  have "(h + i * n) mod n = (h' + i' * n) mod n" "(h + i * n) div n = (h' + i' * n) div n" using assms(3) by simp_all
  then show ?thesis using assms(1,2) by simp
qed

lemma col_comp_read:
  assumes "col_wf c b" and "i < unat (gc_keys c)" and "h < group_entries c"
  shows "mem_read b (col_off c h i) (key_w c) = Some (col_comp c b h i)"
  using mem_read_some [OF col_off_inside [OF assms]] by (simp add: col_comp_def)

lemma key_comp_read:
  assumes "length k = key_len c" and "i < unat (gc_keys c)"
  shows "mem_read k (i * key_w c) (key_w c) = Some (key_comp c k i)" and "length (key_comp c k i) = key_w c"
proof -
  have "i * key_w c + key_w c \<le> length k" using assms entry_inside [OF assms(2), of "key_w c" "key_w c"] by (simp add: key_len_def)
  then show "mem_read k (i * key_w c) (key_w c) = Some (key_comp c k i)" "length (key_comp c k i) = key_w c"
    by (simp_all add: mem_read_some key_comp_def)
qed

lemma col_wf_write: "col_wf c b \<Longrightarrow> mem_write b off bs = Some b' \<Longrightarrow> col_wf c b'"
  by (auto simp: col_wf_def dest: mem_write_length)

lemma col_comp_write:
  assumes wf: "col_wf c b" and i: "i < unat (gc_keys c)" and h: "h < group_entries c" and x: "length x = key_w c"
    and w: "mem_write b (col_off c h i) x = Some b'" and i': "i' < unat (gc_keys c)" and h': "h' < group_entries c"
  shows "col_comp c b' h' i' = (if h' = h \<and> i' = i then x else col_comp c b h' i')"
proof (cases "h' = h \<and> i' = i")
  case True
  then have "mem_read b' (col_off c h' i') (key_w c) = Some x" using mem_read_write_same [OF w] x by simp
  then show ?thesis using True col_comp_read [OF col_wf_write [OF wf w] i' h'] by simp
next
  case False
  then have "h' + i' * group_entries c \<noteq> h + i * group_entries c" using col_index_inj [OF h' h] by blast
  from entries_disjoint [OF this, of 0 "key_w c" "key_w c"]
  have "mem_read b' (col_off c h' i') (key_w c) = mem_read b (col_off c h' i') (key_w c)"
    using x by (intro mem_read_write_other [OF w]) (auto simp: col_off_def)
  then show ?thesis using False col_comp_read [OF col_wf_write [OF wf w] i' h'] col_comp_read [OF wf i' h'] by auto
qed

lemma store_key_columnar_eq:
  assumes "length k = key_len c" and h: "h < group_entries c"
  shows "col_wf c b \<Longrightarrow> i + m \<le> unat (gc_keys c) \<Longrightarrow>
     \<exists>b'. store_key_columnar (key_w c) (gc_entries c) k m i (of_nat h + of_nat i * gc_entries c) b =
            Some (b', of_nat h + of_nat (i + m) * gc_entries c) \<and> col_wf c b' \<and> length b' = length b \<and>
          (\<forall>h' < group_entries c. \<forall>i' < unat (gc_keys c).
             col_comp c b' h' i' = (if h' = h \<and> i \<le> i' \<and> i' < i + m then key_comp c k i' else col_comp c b h' i'))"
proof (induction m arbitrary: i b)
  case (Suc m)
  have i: "i < unat (gc_keys c)" using Suc.prems(2) by simp
  note key = key_comp_read [OF assms(1) i]
  obtain b1 where w: "mem_write b (col_off c h i) (key_comp c k i) = Some b1"
    using mem_write_some [of "col_off c h i" "key_comp c k i" b] col_off_inside [OF Suc.prems(1) i h] key(2) by auto
  have off: "of_nat h + of_nat i * gc_entries c + gc_entries c = of_nat h + of_nat (Suc i) * gc_entries c"
    by (simp add: algebra_simps)
  obtain b2 where b2: "store_key_columnar (key_w c) (gc_entries c) k m (Suc i) (of_nat h + of_nat (Suc i) * gc_entries c) b1 =
        Some (b2, of_nat h + of_nat (Suc i + m) * gc_entries c)" "col_wf c b2" "length b2 = length b1"
      "\<forall>h' < group_entries c. \<forall>i' < unat (gc_keys c).
         col_comp c b2 h' i' = (if h' = h \<and> Suc i \<le> i' \<and> i' < Suc i + m then key_comp c k i' else col_comp c b1 h' i')"
    using Suc.IH [OF col_wf_write [OF Suc.prems(1) w], of "Suc i"] Suc.prems(2) by auto
  have "store_key_columnar (key_w c) (gc_entries c) k (Suc m) i (of_nat h + of_nat i * gc_entries c) b =
      Some (b2, of_nat h + of_nat (i + Suc m) * gc_entries c)"
    using b2(1) by (simp only: store_key_columnar.simps key(1) col_off_unat [OF Suc.prems(1) i h] off) (simp add: w)
  moreover have "length b2 = length b" using b2(3) mem_write_length [OF w] by simp
  moreover have "col_comp c b2 h' i' = (if h' = h \<and> i \<le> i' \<and> i' < i + Suc m then key_comp c k i' else col_comp c b h' i')"
    if "h' < group_entries c" "i' < unat (gc_keys c)" for h' i'
    using b2(4) that col_comp_write [OF Suc.prems(1) i h key(2) w that(2,1)] by auto
  ultimately show ?case using b2(2) by blast
qed auto

lemma match_key_columnar_eq:
  assumes "length k = key_len c" and h: "h < group_entries c" and wf: "col_wf c b"
  shows "i + m \<le> unat (gc_keys c) \<Longrightarrow>
     match_key_columnar (key_w c) (gc_entries c) k m i (of_nat h + of_nat i * gc_entries c) b =
       Some (if \<forall>j \<in> {i..<i + m}. col_comp c b h j = key_comp c k j
             then Some (of_nat h + of_nat (i + m) * gc_entries c) else None)"
proof (induction m arbitrary: i)
  case (Suc m)
  have i: "i < unat (gc_keys c)" using Suc.prems by simp
  have off: "of_nat h + of_nat i * gc_entries c + gc_entries c = of_nat h + of_nat (Suc i) * gc_entries c"
    by (simp add: algebra_simps)
  have range: "{i..<i + Suc m} = insert i {Suc i..<Suc i + m}" by auto
  have IH: "match_key_columnar (key_w c) (gc_entries c) k m (Suc i) (of_nat h + of_nat (Suc i) * gc_entries c) b =
       Some (if \<forall>j \<in> {Suc i..<Suc i + m}. col_comp c b h j = key_comp c k j
             then Some (of_nat h + of_nat (Suc i + m) * gc_entries c) else None)"
    using Suc.IH [of "Suc i"] Suc.prems by simp
  show ?case unfolding range
    by (simp only: match_key_columnar.simps key_comp_read(1) [OF assms(1) i] col_off_unat [OF wf i h]
        col_comp_read [OF wf i h] off IH) auto
qed simp

lemma concat_chunks: "concat (map (\<lambda>i. take w (drop (i * w) xs)) [0..<n]) = take (n * w) xs"
proof (induction n)
  case (Suc n)
  have "take (n * w + w) xs = take (n * w) xs @ take w (drop (n * w) xs)" by (rule take_add)
  then show ?case using Suc by (simp add: add.commute)
qed simp

lemma col_key_eq:
  assumes wf: "col_wf c b" and h: "h < group_entries c" and k: "length k = key_len c"
  shows "col_key c b h = k \<longleftrightarrow> (\<forall>i < unat (gc_keys c). col_comp c b h i = key_comp c k i)"
proof -
  have k': "concat (map (key_comp c k) [0..<unat (gc_keys c)]) = k"
    using concat_chunks [of "key_w c" k "unat (gc_keys c)"] k by (simp add: key_comp_def [abs_def] key_len_def)
  have "length (col_comp c b h i) = key_w c" if "i < unat (gc_keys c)" for i
    using mem_read_len [OF col_comp_read [OF wf that h]] .
  then have "concat (map (col_comp c b h) [0..<n]) = concat (map (key_comp c k) [0..<n]) \<longleftrightarrow>
      (\<forall>i < n. col_comp c b h i = key_comp c k i)" if "n \<le> unat (gc_keys c)" for n
    using that by (induction n) (auto simp: key_comp_read(2) [OF k] less_Suc_eq)
  from this [of "unat (gc_keys c)"] show ?thesis unfolding k' by (simp add: col_key_def)
qed

lemma key_comp_0: "key_comp c k 0 = take (key_w c) k"
  by (simp add: key_comp_def)

text \<open>The two branches of the columnar matching functions: storing a key, and comparing with it.\<close>

lemma col_store:
  assumes wf: "col_wf c b" and k: "group_key_ok c k" and h: "h < group_entries c"
  obtains b' where "store_key_columnar (key_w c) (gc_entries c) k (unat (gc_keys c)) 0 (of_nat h) b =
      Some (b', of_nat h + of_nat (unat (gc_keys c)) * gc_entries c)"
    and "col_wf c b'" and "\<forall>j < group_entries c. col_key_at c b' j = (if j = h then Some k else col_key_at c b j)"
proof -
  have len: "length k = key_len c" using k by (simp add: group_key_ok_def)
  have pos: "0 < unat (gc_keys c)" using wf by (simp add: col_wf_def ctx_ok_def unat_gt_0 word_gt_0)
  obtain b' where b': "store_key_columnar (key_w c) (gc_entries c) k (unat (gc_keys c)) 0 (of_nat h) b =
      Some (b', of_nat h + of_nat (unat (gc_keys c)) * gc_entries c)" "col_wf c b'"
      "\<forall>h' < group_entries c. \<forall>i' < unat (gc_keys c). col_comp c b' h' i' = (if h' = h then key_comp c k i' else col_comp c b h' i')"
    using store_key_columnar_eq [OF len h wf, of 0 "unat (gc_keys c)"] by auto
  have "col_key_at c b' j = (if j = h then Some k else col_key_at c b j)" if j: "j < group_entries c" for j
  proof (cases "j = h")
    case True
    then have "col_key c b' h = k" using b'(3) h by (subst col_key_eq [OF b'(2) h len]) auto
    then show ?thesis using True b'(3) h pos k by (auto simp: col_key_at_def key_comp_0 group_key_ok_def)
  next
    case False
    then have "col_key c b' j = col_key c b j" using b'(3) j by (auto simp: col_key_def intro!: arg_cong [where f = concat])
    then show ?thesis using False b'(3) j pos by (simp add: col_key_at_def)
  qed
  then show ?thesis using that b' by blast
qed

lemma col_match:
  assumes wf: "col_wf c b" and k: "length k = key_len c" and h: "h < group_entries c"
  shows "match_key_columnar (key_w c) (gc_entries c) k (unat (gc_keys c)) 0 (of_nat h) b =
           Some (if col_key c b h = k then Some (of_nat h + of_nat (unat (gc_keys c)) * gc_entries c) else None)"
  using match_key_columnar_eq [OF k h wf, of 0 "unat (gc_keys c)"] col_key_eq [OF wf h k] by auto

lemma col_first:
  assumes wf: "col_wf c b" and h: "h < group_entries c"
  shows "mem_read b (unat (of_nat h :: u32) * key_w c) (key_w c) = Some (col_comp c b h 0)"
    and "unat (of_nat h :: u32) = h"
proof -
  have pos: "0 < unat (gc_keys c)" using wf by (simp add: col_wf_def ctx_ok_def unat_gt_0 word_gt_0)
  show "mem_read b (unat (of_nat h :: u32) * key_w c) (key_w c) = Some (col_comp c b h 0)"
    using col_comp_read [OF wf pos h] col_off_unat [OF wf pos h] by simp
  have "h < 2 ^ LENGTH(32)" using h unsigned_less [of "gc_entries c", where ?'a = nat] by (simp add: group_entries_def)
  then show "unat (of_nat h :: u32) = h" by (rule unat_of_nat_less)
qed

lemma col_slot_not_m1:
  assumes h: "h < group_entries c"
  shows "sint (of_nat h :: u32) \<noteq> - 1"
proof
  assume "sint (of_nat h :: u32) = - 1"
  then have "(of_nat h :: u32) = - 1" by (metis signed_minus_1 signed_word_eqI)
  then have "(of_nat (h + 1) :: u32) = 0" by simp
  then have "2 ^ 32 dvd h + 1" by (simp add: word_of_nat_eq_0_iff del: of_nat_Suc of_nat_add)
  moreover have "h + 1 < 2 ^ 32" using h unsigned_less [of "gc_entries c", where ?'a = nat] by (simp add: group_entries_def)
  ultimately show False using nat_dvd_not_less by auto
qed

definition col_slot_res :: "group_ctx \<Rightarrow> nat \<Rightarrow> int" where
  "col_slot_res c h = to_i32 (int h)"

lemma to_i32_inj:
  assumes "0 \<le> a" "a < 2 ^ 32" "0 \<le> b" "b < 2 ^ 32" "to_i32 a = to_i32 b"
  shows "a = b"
proof -
  have "take_bit 32 (to_i32 x) = take_bit 32 x" for x by (simp add: to_i32_def take_bit_signed_take_bit)
  then have "take_bit 32 a = take_bit 32 b" using assms(5) by metis
  then show ?thesis using assms by (simp add: take_bit_int_eq_self)
qed

lemma col_slot_attempt_eq:
  assumes wf: "col_wf c b" and k: "group_key_ok c k" and h: "h < group_entries c"
  shows "col_slot_attempt c k b h =
           (if col_comp c b h 0 = get_empty_key (key_w c)
            then map_option (\<lambda>(b', off). (b', Some (col_slot_res c h)))
                   (store_key_columnar (key_w c) (gc_entries c) k (unat (gc_keys c)) 0 (of_nat h) b)
            else Some (b, if col_key c b h = k then Some (col_slot_res c h) else None))"
proof -
  have len: "length k = key_len c" using k by (simp add: group_key_ok_def)
  have T: "get_matching_group_value_columnar_slot b (gc_entries c) (of_nat h) k (gc_keys c) (gc_width c) =
      get_matching_group_value_columnar_slot_T (key_w c) b (gc_entries c) (of_nat h) k (gc_keys c)"
    using wf by (auto simp: get_matching_group_value_columnar_slot_def col_wf_def ctx_ok_def key_w_def)
  show ?thesis
    unfolding col_slot_attempt_def columnar_slot_attempt_def T get_matching_group_value_columnar_slot_T_def
      col_first(1) [OF wf h] col_match [OF wf len h] col_slot_res_def
    using col_slot_not_m1 [OF h]
    by (cases "store_key_columnar (key_w c) (gc_entries c) k (unat (gc_keys c)) 0 (of_nat h) b") auto
qed

interpretation col_slot_table: probe_table group_entries col_wf group_key_ok col_key_at col_slot_attempt col_slot_res group_home
proof
  fix c b k i
  assume wf: "col_wf c b" and k: "group_key_ok c k" and i: "i < group_entries c"
  note eq = col_slot_attempt_eq [OF wf k i]
  {
    assume none: "col_key_at c b i = None"
    obtain b' off where "store_key_columnar (key_w c) (gc_entries c) k (unat (gc_keys c)) 0 (of_nat i) b = Some (b', off)"
      "col_wf c b'" "\<forall>j < group_entries c. col_key_at c b' j = (if j = i then Some k else col_key_at c b j)"
      by (rule col_store [OF wf k i])
    then show "\<exists>b'. col_slot_attempt c k b i = Some (b', Some (col_slot_res c i)) \<and> col_wf c b' \<and>
        (\<forall>j < group_entries c. col_key_at c b' j = (if j = i then Some k else col_key_at c b j))"
      using eq none by (auto simp: col_key_at_def split: if_splits)
  next
    assume "col_key_at c b i = Some k"
    then show "col_slot_attempt c k b i = Some (b, Some (col_slot_res c i))" using eq by (auto simp: col_key_at_def split: if_splits)
  next
    fix k' assume "col_key_at c b i = Some k'" and "k' \<noteq> k"
    then show "col_slot_attempt c k b i = Some (b, None)" using eq by (auto simp: col_key_at_def split: if_splits)
  }
next
  fix c k assume "0 < group_entries c"
  then show "group_home c k < group_entries c" by (rule group_home_less)
next
  fix c i j assume "i < group_entries c" and "j < group_entries c" and "col_slot_res c i = col_slot_res c j"
  moreover have "group_entries c < 2 ^ 32" using unsigned_less [of "gc_entries c", where ?'a = nat] by (simp add: group_entries_def)
  ultimately show "i = j" using to_i32_inj [of "int i" "int j"] by (simp add: col_slot_res_def)
qed

lemma get_group_value_columnar_slot_probe:
  assumes "ctx_ok c" and "length k = key_len c" and "0 < group_entries c"
  shows "get_group_value_columnar_slot b (gc_entries c) k (gc_keys c) (gc_width c) =
           map_option (\<lambda>(b', r). (b', case r of Some slot \<Rightarrow> slot | None \<Rightarrow> - 1))
             (probe_find (col_slot_attempt c k) (group_entries c) (group_home c k) b)"
proof -
  obtain h where "key_hash k (gc_keys c) (gc_width c) = Some h" using key_hash_total [OF assms(1,2)] by blast
  then show ?thesis using assms(3)
    by (auto simp: get_group_value_columnar_slot_def group_home_def group_entries_def col_slot_attempt_def map_conv_bind_option
        intro!: arg_cong2 [where f = Option.bind] split: option.splits)
qed

section \<open>Columnar layout with pointers\<close>

text \<open>The pointer returned is the element after the last key component of the entry.\<close>

definition col_ptr_wf :: "group_ctx \<Rightarrow> u8 list \<Rightarrow> bool" where
  "col_ptr_wf c b \<longleftrightarrow> col_wf c b \<and> gc_width c = 8"

definition col_ptr_attempt :: "group_ctx \<Rightarrow> u8 list \<Rightarrow> u8 list \<Rightarrow> nat \<Rightarrow> (u8 list \<times> nat option) option" where
  "col_ptr_attempt c k b i = get_matching_group_value_columnar b (of_nat i) k (gc_keys c) (ucast (gc_entries c))"

definition col_ptr_res :: "group_ctx \<Rightarrow> nat \<Rightarrow> nat" where
  "col_ptr_res c h = unat (of_nat h + of_nat (unat (gc_keys c)) * gc_entries c :: u32) * 8"

lemma col_ptr_attempt_eq:
  assumes wf: "col_ptr_wf c b" and k: "group_key_ok c k" and h: "h < group_entries c"
  shows "col_ptr_attempt c k b h =
           (if col_comp c b h 0 = get_empty_key (key_w c)
            then map_option (\<lambda>(b', off). (b', Some (unat off * 8)))
                   (store_key_columnar (key_w c) (gc_entries c) k (unat (gc_keys c)) 0 (of_nat h) b)
            else Some (b, if col_key c b h = k then Some (col_ptr_res c h) else None))"
proof -
  have len: "length k = key_len c" using k by (simp add: group_key_ok_def)
  have c: "col_wf c b" and w: "key_w c = 8" using wf by (simp_all add: col_ptr_wf_def key_w_def)
  have e: "(ucast (ucast (gc_entries c) :: u64) :: u32) = gc_entries c" by (rule bit_word_eqI) (simp add: bit_simps)
  show ?thesis
    unfolding col_ptr_attempt_def get_matching_group_value_columnar_def EMPTY_KEY_64_def e
      col_first(1) [OF c h, unfolded w] col_match [OF c len h, unfolded w] w
    by (cases "store_key_columnar 8 (gc_entries c) k (unat (gc_keys c)) 0 (of_nat h) b") (auto simp: col_ptr_res_def)
qed

interpretation col_ptr_table: probe_table group_entries col_ptr_wf group_key_ok col_key_at col_ptr_attempt col_ptr_res group_home
proof
  fix c b k i
  assume wf: "col_ptr_wf c b" and k: "group_key_ok c k" and i: "i < group_entries c"
  note eq = col_ptr_attempt_eq [OF wf k i]
  have c: "col_wf c b" using wf by (simp add: col_ptr_wf_def)
  {
    assume none: "col_key_at c b i = None"
    obtain b' where "store_key_columnar (key_w c) (gc_entries c) k (unat (gc_keys c)) 0 (of_nat i) b =
        Some (b', of_nat i + of_nat (unat (gc_keys c)) * gc_entries c)"
      "col_wf c b'" "\<forall>j < group_entries c. col_key_at c b' j = (if j = i then Some k else col_key_at c b j)"
      by (rule col_store [OF c k i])
    then show "\<exists>b'. col_ptr_attempt c k b i = Some (b', Some (col_ptr_res c i)) \<and> col_ptr_wf c b' \<and>
        (\<forall>j < group_entries c. col_key_at c b' j = (if j = i then Some k else col_key_at c b j))"
      using eq none wf by (auto simp: col_key_at_def col_ptr_wf_def col_ptr_res_def split: if_splits)
  next
    assume "col_key_at c b i = Some k"
    then show "col_ptr_attempt c k b i = Some (b, Some (col_ptr_res c i))" using eq by (auto simp: col_key_at_def split: if_splits)
  next
    fix k' assume "col_key_at c b i = Some k'" and "k' \<noteq> k"
    then show "col_ptr_attempt c k b i = Some (b, None)" using eq by (auto simp: col_key_at_def split: if_splits)
  }
next
  fix c k assume "0 < group_entries c"
  then show "group_home c k < group_entries c" by (rule group_home_less)
next
  fix c i j assume ij: "i < group_entries c" "j < group_entries c" and "col_ptr_res c i = col_ptr_res c j"
  then have "(of_nat i + of_nat (unat (gc_keys c)) * gc_entries c :: u32) = of_nat j + of_nat (unat (gc_keys c)) * gc_entries c"
    unfolding col_ptr_res_def by (intro unsigned_word_eqI) simp
  then have "(of_nat i :: u32) = of_nat j" by simp
  moreover have "group_entries c < 2 ^ LENGTH(32)" using unsigned_less [of "gc_entries c", where ?'a = nat] by (simp add: group_entries_def)
  ultimately show "i = j" using ij unat_of_nat_less [of i] unat_of_nat_less [of j] by (metis order.strict_trans)
qed

lemma get_group_value_columnar_probe:
  assumes "ctx_ok c" and "length k = key_len c" and "0 < group_entries c" and "gc_width c = 8"
  shows "get_group_value_columnar b (gc_entries c) k (gc_keys c) =
           probe_find (col_ptr_attempt c k) (group_entries c) (group_home c k) b"
proof -
  obtain h where "key_hash k (gc_keys c) (gc_width c) = Some h" using key_hash_total [OF assms(1,2)] by blast
  then show ?thesis using assms(3,4)
    by (auto simp: get_group_value_columnar_def group_home_def group_entries_def col_ptr_attempt_def [abs_def])
qed

end
