(* ===== verification/Output_Layout.thy ===== *)
theory Output_Layout
  imports Byte_Memory
begin

text \<open>
  The layout of a query's output buffer: the slots of \<open>Descriptors/ColSlotContext\<close> and the
  offsets that \<open>Descriptors/QueryMemoryDescriptor\<close> computes from them, row-wise and columnar.
  \<open>None\<close> is a failed \<open>CHECK\<close>.  Sums of sizes are natural numbers: they stay far below the
  bound of \<open>size_t\<close>.
\<close>

section \<open>Slots\<close>

record SlotSize =
  padded_size :: int
  logical_size :: int

record ColSlotContext =
  slot_sizes :: "SlotSize list"
  col_to_slot_map :: "nat list list"
  varlen_output_slot_map :: "(nat \<times> int) list"

definition empty_ctx :: ColSlotContext where
  "empty_ctx = \<lparr>slot_sizes = [], col_to_slot_map = [], varlen_output_slot_map = []\<rparr>"

definition addSlotForColumn :: "ColSlotContext \<Rightarrow> int \<Rightarrow> int \<Rightarrow> nat \<Rightarrow> ColSlotContext option" where
  "addSlotForColumn ctx padded logical column_idx =
     (if column_idx < length (col_to_slot_map ctx)
      then Some (ctx\<lparr>col_to_slot_map := (col_to_slot_map ctx)[column_idx := col_to_slot_map ctx ! column_idx @ [length (slot_sizes ctx)]],
                     slot_sizes := slot_sizes ctx @ [\<lparr>padded_size = padded, logical_size = logical\<rparr>]\<rparr>)
      else None)"

definition addSlotForColumn_unset :: "ColSlotContext \<Rightarrow> int \<Rightarrow> nat \<Rightarrow> ColSlotContext option" where
  "addSlotForColumn_unset ctx logical column_idx = addSlotForColumn ctx (- 1) logical column_idx"

fun add_slots :: "ColSlotContext \<Rightarrow> (int \<times> int) list \<Rightarrow> nat \<Rightarrow> ColSlotContext option" where
  "add_slots ctx [] col_idx = Some ctx"
| "add_slots ctx ((logical, padded) # rest) col_idx =
     do { ctx' \<leftarrow> addSlotForColumn ctx padded logical col_idx; add_slots ctx' rest col_idx }"

definition addColumn :: "ColSlotContext \<Rightarrow> (int \<times> int) list \<Rightarrow> ColSlotContext option" where
  "addColumn ctx slots_for_col =
     (let col_idx = length (col_to_slot_map ctx)
      in add_slots (ctx\<lparr>col_to_slot_map := col_to_slot_map ctx @ [[]]\<rparr>) slots_for_col col_idx)"

text \<open>
  What the constructor reads of a target expression: a null pointer (the row index), a compact
  type that is a string or an array, or another type with its width in bits and whether the
  target is an average.
\<close>

datatype col_expr = RowIndex | VarlenExpr | ScalarExpr nat bool

definition add_expr_slots :: "ColSlotContext \<Rightarrow> bool \<Rightarrow> col_expr \<Rightarrow> nat \<Rightarrow> ColSlotContext option" where
  "add_expr_slots ctx not_projected e idx =
     (if not_projected then addSlotForColumn ctx 0 0 idx
      else case e of
        RowIndex \<Rightarrow> addSlotForColumn_unset ctx 8 idx
      | VarlenExpr \<Rightarrow> do { ctx' \<leftarrow> addSlotForColumn_unset ctx 8 idx; addSlotForColumn_unset ctx' 8 idx }
      | ScalarExpr bitwidth is_avg \<Rightarrow>
          if bitwidth mod 8 \<noteq> 0 then None
          else do {
            ctx' \<leftarrow> addSlotForColumn_unset ctx (signed_take_bit 7 (int (bitwidth div 8))) idx;
            if is_avg then addSlotForColumn_unset ctx' 8 idx else Some ctx'
          })"

fun add_all_expr_slots :: "ColSlotContext \<Rightarrow> int list \<Rightarrow> col_expr list \<Rightarrow> nat \<Rightarrow> ColSlotContext option" where
  "add_all_expr_slots ctx not_project [] idx = Some ctx"
| "add_all_expr_slots ctx not_project (e # es) idx =
     do {
       ctx' \<leftarrow> add_expr_slots ctx (not_project \<noteq> [] \<and> not_project ! idx \<noteq> - 1) e idx;
       add_all_expr_slots ctx' not_project es (Suc idx)
     }"

definition ColSlotContext_new :: "col_expr list \<Rightarrow> int list \<Rightarrow> ColSlotContext option" where
  "ColSlotContext_new col_expr_list col_exprs_to_not_project =
     (if col_exprs_to_not_project \<noteq> [] \<and> length col_expr_list \<noteq> length col_exprs_to_not_project then None
      else add_all_expr_slots (empty_ctx\<lparr>col_to_slot_map := replicate (length col_expr_list) []\<rparr>)
             col_exprs_to_not_project col_expr_list 0)"

definition setAllSlotsSize :: "ColSlotContext \<Rightarrow> int \<Rightarrow> ColSlotContext" where
  "setAllSlotsSize ctx w =
     ctx\<lparr>slot_sizes := map (\<lambda>_. \<lparr>padded_size = w, logical_size = w\<rparr>) (slot_sizes ctx)\<rparr>"

definition setAllSlotsPaddedSize :: "ColSlotContext \<Rightarrow> int \<Rightarrow> ColSlotContext" where
  "setAllSlotsPaddedSize ctx p = ctx\<lparr>slot_sizes := map (\<lambda>s. s\<lparr>padded_size := p\<rparr>) (slot_sizes ctx)\<rparr>"

definition setAllUnsetSlotsPaddedSize :: "ColSlotContext \<Rightarrow> int \<Rightarrow> ColSlotContext" where
  "setAllUnsetSlotsPaddedSize ctx p =
     ctx\<lparr>slot_sizes := map (\<lambda>s. if padded_size s < 0 then s\<lparr>padded_size := p\<rparr> else s) (slot_sizes ctx)\<rparr>"

definition setAllSlotsPaddedSizeToLogicalSize :: "ColSlotContext \<Rightarrow> ColSlotContext" where
  "setAllSlotsPaddedSizeToLogicalSize ctx =
     ctx\<lparr>slot_sizes := map (\<lambda>s. s\<lparr>padded_size := logical_size s\<rparr>) (slot_sizes ctx)\<rparr>"

definition validate :: "ColSlotContext \<Rightarrow> unit option" where
  "validate ctx =
     (if list_all (\<lambda>s. 0 \<le> logical_size s \<and> logical_size s \<le> padded_size s) (slot_sizes ctx) then Some () else None)"

definition getSlotInfo :: "ColSlotContext \<Rightarrow> nat \<Rightarrow> SlotSize option" where
  "getSlotInfo ctx slot_idx = (if slot_idx < length (slot_sizes ctx) then Some (slot_sizes ctx ! slot_idx) else None)"

definition setPaddedSlotWidthBytes :: "ColSlotContext \<Rightarrow> nat \<Rightarrow> int \<Rightarrow> ColSlotContext option" where
  "setPaddedSlotWidthBytes ctx slot_idx bytes =
     (if slot_idx < length (slot_sizes ctx)
      then Some (ctx\<lparr>slot_sizes := (slot_sizes ctx)[slot_idx := (slot_sizes ctx ! slot_idx)\<lparr>padded_size := bytes\<rparr>]\<rparr>)
      else None)"

definition getSlotsForCol :: "ColSlotContext \<Rightarrow> nat \<Rightarrow> nat list option" where
  "getSlotsForCol ctx col_idx = (if col_idx < length (col_to_slot_map ctx) then Some (col_to_slot_map ctx ! col_idx) else None)"

section \<open>Sizes and offsets of the slots\<close>

fun all_padded_size :: "nat \<Rightarrow> SlotSize list \<Rightarrow> nat option" where
  "all_padded_size acc [] = Some acc"
| "all_padded_size acc (s # ss) =
     (if 0 \<le> padded_size s then all_padded_size (acc + nat (padded_size s)) ss else None)"

definition getAllSlotsPaddedSize :: "ColSlotContext \<Rightarrow> nat option" where
  "getAllSlotsPaddedSize ctx = all_padded_size 0 (slot_sizes ctx)"

definition add_aligned :: "nat \<Rightarrow> nat \<Rightarrow> nat" where
  "add_aligned acc chosen_bytes = (if chosen_bytes = 8 then align_to_int64 acc + chosen_bytes else acc + chosen_bytes)"

fun aligned_padded_size :: "nat \<Rightarrow> SlotSize list \<Rightarrow> nat option" where
  "aligned_padded_size acc [] = Some acc"
| "aligned_padded_size acc (s # ss) =
     (if 0 \<le> padded_size s then aligned_padded_size (add_aligned acc (nat (padded_size s))) ss else None)"

definition getAlignedPaddedSizeForRange :: "ColSlotContext \<Rightarrow> nat \<Rightarrow> nat option" where
  "getAlignedPaddedSizeForRange ctx k =
     (if k \<le> length (slot_sizes ctx) then aligned_padded_size 0 (take k (slot_sizes ctx)) else None)"

definition getAllSlotsAlignedPaddedSize :: "ColSlotContext \<Rightarrow> nat option" where
  "getAllSlotsAlignedPaddedSize ctx = getAlignedPaddedSizeForRange ctx (length (slot_sizes ctx))"

fun columnar_bytes :: "nat \<Rightarrow> nat \<Rightarrow> SlotSize list \<Rightarrow> nat option" where
  "columnar_bytes entry_count acc [] = Some acc"
| "columnar_bytes entry_count acc (s # ss) =
     (if 0 \<le> padded_size s
      then columnar_bytes entry_count (acc + align_to_int64 (nat (padded_size s) * entry_count)) ss else None)"

definition ctx_getTotalBytesOfColumnarBuffers :: "ColSlotContext \<Rightarrow> nat \<Rightarrow> nat option" where
  "ctx_getTotalBytesOfColumnarBuffers ctx entry_count =
     map_option align_to_int64 (columnar_bytes entry_count 0 (slot_sizes ctx))"

definition getMinPaddedByteSize :: "ColSlotContext \<Rightarrow> int \<Rightarrow> int" where
  "getMinPaddedByteSize ctx actual_min_byte_width =
     (if slot_sizes ctx = [] then actual_min_byte_width
      else min (Min (padded_size ` set (slot_sizes ctx))) actual_min_byte_width)"

text \<open>\<open>compact_width\<close> is a \<open>size_t\<close>: a negative size converts to a huge value.\<close>

definition getCompactByteWidth :: "ColSlotContext \<Rightarrow> nat option" where
  "getCompactByteWidth ctx =
     (if slot_sizes ctx = [] then Some 8
      else case List.find (\<lambda>s. padded_size s \<noteq> 0) (slot_sizes ctx) of
             None \<Rightarrow> Some 0
           | Some s0 \<Rightarrow>
               if list_all (\<lambda>s. padded_size s = 0 \<or> padded_size s = padded_size s0) (slot_sizes ctx)
               then Some (nat (padded_size s0 mod 2 ^ 64)) else None)"

definition ctx_getColOnlyOffInBytes :: "ColSlotContext \<Rightarrow> nat \<Rightarrow> nat option" where
  "ctx_getColOnlyOffInBytes ctx slot_idx =
     (if slot_idx < length (slot_sizes ctx)
      then do {
        offset_bytes \<leftarrow> getAlignedPaddedSizeForRange ctx slot_idx;
        Some (if padded_size (slot_sizes ctx ! slot_idx) = 8 then align_to_int64 offset_bytes else offset_bytes)
      }
      else None)"

text \<open>
  \<open>alignPaddedSlots\<close> gives the gap before an 8-byte slot to the slot before it, and the gap at the
  end to the last slot.  A slot whose size is not set is outside the model, as is an empty list
  of slots without GPU sort, where the source reads \<open>back()\<close>.
\<close>

fun align_slots_loop :: "SlotSize list \<Rightarrow> nat \<Rightarrow> SlotSize list \<Rightarrow> (nat \<times> SlotSize list) option" where
  "align_slots_loop done_slots total_bytes [] = Some (total_bytes, done_slots)"
| "align_slots_loop done_slots total_bytes (s # ss) =
     (if padded_size s < 0 then None
      else if padded_size s = 8
      then
        let aligned_total_bytes = align_to_int64 total_bytes; padding = aligned_total_bytes - total_bytes
        in if done_slots = [] then align_slots_loop [s] (aligned_total_bytes + 8) ss
           else if padding = 0 \<or> padding = 4
           then align_slots_loop
                  (butlast done_slots @ [(last done_slots)\<lparr>padded_size := padded_size (last done_slots) + int padding\<rparr>, s])
                  (aligned_total_bytes + 8) ss
           else None
      else align_slots_loop (done_slots @ [s]) (total_bytes + nat (padded_size s)) ss)"

definition ctx_alignPaddedSlots :: "ColSlotContext \<Rightarrow> bool \<Rightarrow> ColSlotContext option" where
  "ctx_alignPaddedSlots ctx sort_on_gpu =
     do {
       (total_bytes, slots) \<leftarrow> align_slots_loop [] 0 (slot_sizes ctx);
       if sort_on_gpu then Some (ctx\<lparr>slot_sizes := slots\<rparr>)
       else
         let padding = align_to_int64 total_bytes - total_bytes
         in if slots \<noteq> [] \<and> (padding = 0 \<or> padding = 4)
            then Some (ctx\<lparr>slot_sizes := butlast slots @
                         [(last slots)\<lparr>padded_size := padded_size (last slots) + int padding\<rparr>]\<rparr>)
            else None
     }"

definition varlenOutputElementSize :: "ColSlotContext \<Rightarrow> nat \<Rightarrow> int option" where
  "varlenOutputElementSize ctx slot_idx = map_of (varlen_output_slot_map ctx) slot_idx"

section \<open>The memory descriptor\<close>

datatype QueryDescriptionType = GroupByPerfectHash | GroupByBaselineHash | Projection | NonGroupedAggregate | Estimator

record QueryMemoryDescriptor =
  query_desc_type :: QueryDescriptionType
  keyless_hash :: bool
  interleaved_bins_on_gpu :: bool
  warpSize :: nat
  group_col_widths :: "int list"
  group_col_compact_width :: nat
  qmd_entry_count :: nat
  output_columnar :: bool
  sort_on_gpu :: bool
  target_groupby_indices :: "int list"
  col_slot_context :: ColSlotContext

definition getEffectiveKeyWidth :: "QueryMemoryDescriptor \<Rightarrow> nat" where
  "getEffectiveKeyWidth q = (if group_col_compact_width q \<noteq> 0 then group_col_compact_width q else 8)"

definition getGroupbyColCount :: "QueryMemoryDescriptor \<Rightarrow> nat" where
  "getGroupbyColCount q = length (group_col_widths q)"

definition groupColWidth :: "QueryMemoryDescriptor \<Rightarrow> nat \<Rightarrow> int option" where
  "groupColWidth q key_idx = (if key_idx < length (group_col_widths q) then Some (group_col_widths q ! key_idx) else None)"

definition getSlotCount :: "QueryMemoryDescriptor \<Rightarrow> nat" where
  "getSlotCount q = length (slot_sizes (col_slot_context q))"

definition getPaddedSlotWidthBytes :: "QueryMemoryDescriptor \<Rightarrow> nat \<Rightarrow> int option" where
  "getPaddedSlotWidthBytes q slot_idx = map_option padded_size (getSlotInfo (col_slot_context q) slot_idx)"

definition getColsSize :: "QueryMemoryDescriptor \<Rightarrow> nat option" where
  "getColsSize q = getAllSlotsAlignedPaddedSize (col_slot_context q)"

definition getRowSize :: "QueryMemoryDescriptor \<Rightarrow> nat option" where
  "getRowSize q =
     (if output_columnar q \<or> (keyless_hash q \<and> query_desc_type q \<noteq> GroupByPerfectHash) then None
      else do {
        let acc = (if keyless_hash q then 0 else align_to_int64 (length (group_col_widths q) * getEffectiveKeyWidth q));
        cols \<leftarrow> getColsSize q;
        Some (align_to_int64 (acc + cols))
      })"

definition getWarpCount :: "QueryMemoryDescriptor \<Rightarrow> nat" where
  "getWarpCount q = (if interleaved_bins_on_gpu q then warpSize q else 1)"

definition getTotalBytesOfColumnarBuffers :: "QueryMemoryDescriptor \<Rightarrow> nat option" where
  "getTotalBytesOfColumnarBuffers q =
     (if output_columnar q then ctx_getTotalBytesOfColumnarBuffers (col_slot_context q) (qmd_entry_count q) else None)"

definition getTotalBytesOfColumnarProjections :: "QueryMemoryDescriptor \<Rightarrow> nat \<Rightarrow> nat option" where
  "getTotalBytesOfColumnarProjections q projection_count =
     map_option (\<lambda>b. b + 8 * projection_count)
       (ctx_getTotalBytesOfColumnarBuffers (col_slot_context q) projection_count)"

definition getColOnlyOffInBytes :: "QueryMemoryDescriptor \<Rightarrow> nat \<Rightarrow> nat option" where
  "getColOnlyOffInBytes q col_idx = ctx_getColOnlyOffInBytes (col_slot_context q) col_idx"

text \<open>The columns of the keys come first in the columnar layout, each at least 8 bytes wide.\<close>

definition group_col_bytes :: "QueryMemoryDescriptor \<Rightarrow> int \<Rightarrow> nat" where
  "group_col_bytes q w = align_to_int64 (nat (max w 8) * qmd_entry_count q)"

definition getPrependedGroupColOffInBytes :: "QueryMemoryDescriptor \<Rightarrow> nat \<Rightarrow> nat option" where
  "getPrependedGroupColOffInBytes q group_idx =
     (if output_columnar q \<and> group_idx < getGroupbyColCount q
      then Some (sum_list (map (group_col_bytes q) (take group_idx (group_col_widths q)))) else None)"

definition getPrependedGroupBufferSizeInBytes :: "QueryMemoryDescriptor \<Rightarrow> nat option" where
  "getPrependedGroupBufferSizeInBytes q =
     (if output_columnar q then Some (sum_list (map (group_col_bytes q) (group_col_widths q))) else None)"

fun columnar_off :: "nat \<Rightarrow> SlotSize list \<Rightarrow> nat" where
  "columnar_off entry_count [] = 0"
| "columnar_off entry_count (s # ss) = align_to_int64 (nat (padded_size s) * entry_count) + columnar_off entry_count ss"

text \<open>In the columnar layout an offset behind a slot whose size is not set is outside the model.\<close>

definition getColOffInBytes :: "QueryMemoryDescriptor \<Rightarrow> nat \<Rightarrow> nat option" where
  "getColOffInBytes q col_idx =
     (if output_columnar q
      then if getWarpCount q \<noteq> 1 \<or> getSlotCount q < col_idx \<or> (\<exists>s \<in> set (take col_idx (slot_sizes (col_slot_context q))). padded_size s < 0)
           then None
           else do {
             prepended \<leftarrow> (if keyless_hash q then Some 0 else getPrependedGroupBufferSizeInBytes q);
             Some (prepended + columnar_off (qmd_entry_count q) (take col_idx (slot_sizes (col_slot_context q))))
           }
      else if keyless_hash q \<and> query_desc_type q \<noteq> GroupByPerfectHash then None
      else do {
        let keys = (if keyless_hash q then 0 else align_to_int64 (length (group_col_widths q) * getEffectiveKeyWidth q));
        off \<leftarrow> getColOnlyOffInBytes q col_idx;
        Some (keys + off)
      })"

definition getColOffInBytesInNextBin :: "QueryMemoryDescriptor \<Rightarrow> nat \<Rightarrow> int option" where
  "getColOffInBytesInNextBin q col_idx =
     (if output_columnar q
      then if length (group_col_widths q) = 1 \<and> getWarpCount q = 1 then getPaddedSlotWidthBytes q col_idx else None
      else map_option (\<lambda>r. int (getWarpCount q * r)) (getRowSize q))"

text \<open>
  The distance from a column of an entry to the next one; \<open>col_ptr\<close> is an offset in a buffer at
  an address that is a multiple of 8.  In the columnar layout the difference of the widths may be
  negative and the sum is taken modulo \<open>2^64\<close>.
\<close>

definition getNextColOffInBytes :: "QueryMemoryDescriptor \<Rightarrow> nat \<Rightarrow> nat \<Rightarrow> nat \<Rightarrow> u64 option" where
  "getNextColOffInBytes q col_ptr bin col_idx =
     (if output_columnar q \<and> qmd_entry_count q \<le> bin then None
      else do {
        chosen_bytes \<leftarrow> getPaddedSlotWidthBytes q col_idx;
        if col_idx + 1 = getSlotCount q
        then if output_columnar q then Some (of_nat (qmd_entry_count q - bin) * of_int chosen_bytes)
             else Some (of_nat (align_to_int64 (col_ptr + nat chosen_bytes) - col_ptr))
        else do {
          next_chosen_bytes \<leftarrow> getPaddedSlotWidthBytes q (col_idx + 1);
          if output_columnar q
          then if length (group_col_widths q) = 1 \<and> getWarpCount q = 1
               then Some (of_nat (align_to_int64 (qmd_entry_count q * nat chosen_bytes)) +
                          of_nat bin * of_int (next_chosen_bytes - chosen_bytes))
               else None
          else if next_chosen_bytes = 8
          then Some (of_nat (align_to_int64 (col_ptr + nat chosen_bytes) - col_ptr))
          else Some (of_int chosen_bytes)
        }
      })"

definition getNextColOffInBytesRowOnly :: "QueryMemoryDescriptor \<Rightarrow> nat \<Rightarrow> nat \<Rightarrow> nat option" where
  "getNextColOffInBytesRowOnly q col_ptr col_idx =
     do {
       chosen_bytes \<leftarrow> getPaddedSlotWidthBytes q col_idx;
       if col_idx + 1 = getSlotCount q
       then Some (align_to_int64 (col_ptr + nat chosen_bytes) - col_ptr)
       else do {
         next_chosen_bytes \<leftarrow> getPaddedSlotWidthBytes q (col_idx + 1);
         if next_chosen_bytes = 8
         then Some (align_to_int64 (col_ptr + nat chosen_bytes) - col_ptr)
         else Some (nat chosen_bytes)
       }
     }"

datatype ExecutorDeviceType = CPU | GPU

definition interleavedBins :: "QueryMemoryDescriptor \<Rightarrow> ExecutorDeviceType \<Rightarrow> bool" where
  "interleavedBins q device_type \<longleftrightarrow> interleaved_bins_on_gpu q \<and> device_type = GPU"

definition getBufferSizeBytes :: "QueryMemoryDescriptor \<Rightarrow> ExecutorDeviceType \<Rightarrow> nat \<Rightarrow> nat option" where
  "getBufferSizeBytes q device_type entry_count =
     (if keyless_hash q \<and> \<not> output_columnar q
      then if group_col_widths q = [] then None
           else map_option (\<lambda>cols. (if interleavedBins q device_type then warpSize q else 1) * entry_count * align_to_int64 cols)
                  (getColsSize q)
      else if output_columnar q
      then map_option (\<lambda>b. (if query_desc_type q = Projection then 8 * entry_count
                             else 8 * length (group_col_widths q) * entry_count) + b)
             (getTotalBytesOfColumnarBuffers q)
      else map_option (\<lambda>r. r * entry_count) (getRowSize q))"

definition isLogicalSizedColumnsAllowed :: "QueryMemoryDescriptor \<Rightarrow> bool" where
  "isLogicalSizedColumnsAllowed q \<longleftrightarrow> output_columnar q \<and> query_desc_type q = Projection"

definition setOutputColumnar :: "QueryMemoryDescriptor \<Rightarrow> bool \<Rightarrow> QueryMemoryDescriptor" where
  "setOutputColumnar q val =
     (let q' = q\<lparr>output_columnar := val\<rparr>
      in if isLogicalSizedColumnsAllowed q'
         then q'\<lparr>col_slot_context := setAllSlotsPaddedSizeToLogicalSize (col_slot_context q')\<rparr> else q')"

definition getBufferColSlotCount :: "QueryMemoryDescriptor \<Rightarrow> nat" where
  "getBufferColSlotCount q =
     (if target_groupby_indices q = [] then getSlotCount q
      else getSlotCount q - length (filter (\<lambda>i. 0 \<le> i) (target_groupby_indices q)))"

definition usesGetGroupValueFast :: "QueryMemoryDescriptor \<Rightarrow> bool" where
  "usesGetGroupValueFast q \<longleftrightarrow> query_desc_type q = GroupByPerfectHash \<and> getGroupbyColCount q = 1"

definition threadsShareMemory :: "QueryMemoryDescriptor \<Rightarrow> bool" where
  "threadsShareMemory q \<longleftrightarrow> query_desc_type q \<noteq> NonGroupedAggregate"

definition getSlotIndexForSingleSlotCol :: "QueryMemoryDescriptor \<Rightarrow> nat \<Rightarrow> nat option" where
  "getSlotIndexForSingleSlotCol q col_idx =
     do {
       col_slots \<leftarrow> getSlotsForCol (col_slot_context q) col_idx;
       case col_slots of [s] \<Rightarrow> Some s | _ \<Rightarrow> None
     }"

end
