(* ===== verification/Output_Layout_Props.thy ===== *)
theory Output_Layout_Props
  imports Output_Layout
begin

text \<open>
  The slots of a row do not overlap and stay inside it, walking from slot to slot meets the
  offsets computed directly, and giving the gaps to the slots before them moves no slot.
\<close>

section \<open>Offsets as sums\<close>

definition slots_set :: "SlotSize list \<Rightarrow> bool" where
  "slots_set ss \<longleftrightarrow> (\<forall>s \<in> set ss. 0 \<le> padded_size s)"

definition widths :: "SlotSize list \<Rightarrow> nat list" where
  "widths ss = map (\<lambda>s. nat (padded_size s)) ss"

abbreviation packed :: "nat list \<Rightarrow> nat" where
  "packed ws \<equiv> foldl add_aligned 0 ws"

definition slot_off :: "nat list \<Rightarrow> nat \<Rightarrow> nat" where
  "slot_off ws i = (if ws ! i = 8 then align_to_int64 (packed (take i ws)) else packed (take i ws))"

lemma length_widths [simp]: "length (widths ss) = length ss"
  by (simp add: widths_def)

lemma nth_widths [simp]: "i < length ss \<Longrightarrow> widths ss ! i = nat (padded_size (ss ! i))"
  by (simp add: widths_def)

lemma slots_set_nth: "slots_set ss \<Longrightarrow> i < length ss \<Longrightarrow> 0 \<le> padded_size (ss ! i)"
  by (simp add: slots_set_def)

lemma slots_set_take: "slots_set ss \<Longrightarrow> slots_set (take k ss)"
  by (auto simp: slots_set_def dest: in_set_takeD)

lemma aligned_padded_size_eq: "slots_set ss \<Longrightarrow> aligned_padded_size acc ss = Some (foldl add_aligned acc (widths ss))"
  by (induction ss arbitrary: acc) (simp_all add: slots_set_def widths_def)

lemma padded_8_iff: "0 \<le> padded_size s \<Longrightarrow> padded_size s = 8 \<longleftrightarrow> nat (padded_size s) = 8"
  by auto

lemma ctx_getColOnlyOffInBytes_eq:
  assumes "slots_set (slot_sizes ctx)" and "i < length (slot_sizes ctx)"
  shows "ctx_getColOnlyOffInBytes ctx i = Some (slot_off (widths (slot_sizes ctx)) i)"
  using assms slots_set_nth [OF assms] aligned_padded_size_eq [OF slots_set_take [OF assms(1)], of 0 i]
  by (auto simp: ctx_getColOnlyOffInBytes_def getAlignedPaddedSizeForRange_def slot_off_def widths_def take_map)

lemma add_aligned_ge: "acc + w \<le> add_aligned acc w"
  using align_to_int64_le [of acc] by (simp add: add_aligned_def)

lemma packed_mono: "acc \<le> foldl add_aligned acc ws"
proof (induction ws arbitrary: acc)
  case (Cons w ws)
  have "acc \<le> add_aligned acc w" using add_aligned_ge [of acc w] by simp
  then show ?case using Cons [of "add_aligned acc w"] by simp
qed simp

lemma packed_take_mono: "i \<le> j \<Longrightarrow> packed (take i ws) \<le> packed (take j ws)"
proof -
  assume "i \<le> j"
  then have "take j ws = take i ws @ take (j - i) (drop i ws)" by (metis le_add_diff_inverse take_add)
  then show ?thesis using packed_mono by simp
qed

lemma slot_off_next: "i < length ws \<Longrightarrow> slot_off ws i + ws ! i = packed (take (Suc i) ws)"
  by (simp add: slot_off_def add_aligned_def take_Suc_conv_app_nth)

lemma slot_off_ge: "packed (take i ws) \<le> slot_off ws i"
  by (simp add: slot_off_def align_to_int64_le)

lemma slot_off_before:
  assumes "i < j" and "j < length ws"
  shows "slot_off ws i + ws ! i \<le> slot_off ws j"
  using slot_off_next [of i ws] packed_take_mono [of "Suc i" j ws] slot_off_ge [of j ws] assms by simp

lemma slot_off_inside: "i < length ws \<Longrightarrow> slot_off ws i + ws ! i \<le> packed ws"
  using slot_off_next [of i ws] packed_take_mono [of "Suc i" "length ws" ws] by simp

lemma slot_off_aligned: "ws ! i = 8 \<Longrightarrow> 8 dvd slot_off ws i"
  by (simp add: slot_off_def)

section \<open>Rows\<close>

abbreviation q_widths :: "QueryMemoryDescriptor \<Rightarrow> nat list" where
  "q_widths q \<equiv> widths (slot_sizes (col_slot_context q))"

definition row_layout_ok :: "QueryMemoryDescriptor \<Rightarrow> bool" where
  "row_layout_ok q \<longleftrightarrow> \<not> output_columnar q \<and> (keyless_hash q \<longrightarrow> query_desc_type q = GroupByPerfectHash) \<and>
     slots_set (slot_sizes (col_slot_context q))"

definition key_bytes :: "QueryMemoryDescriptor \<Rightarrow> nat" where
  "key_bytes q = (if keyless_hash q then 0 else align_to_int64 (length (group_col_widths q) * getEffectiveKeyWidth q))"

lemma key_bytes_dvd [simp]: "8 dvd key_bytes q"
  by (simp add: key_bytes_def)

lemma getColsSize_eq:
  assumes "slots_set (slot_sizes (col_slot_context q))"
  shows "getColsSize q = Some (packed (q_widths q))"
  using aligned_padded_size_eq [OF assms, of 0]
  by (simp add: getColsSize_def getAllSlotsAlignedPaddedSize_def getAlignedPaddedSizeForRange_def)

lemma getRowSize_eq:
  assumes "row_layout_ok q"
  shows "getRowSize q = Some (align_to_int64 (key_bytes q + packed (q_widths q)))"
proof -
  have "slots_set (slot_sizes (col_slot_context q))" "\<not> (output_columnar q \<or> keyless_hash q \<and> query_desc_type q \<noteq> GroupByPerfectHash)"
    using assms by (auto simp: row_layout_ok_def)
  then show ?thesis using getColsSize_eq [of q] unfolding getRowSize_def key_bytes_def by simp
qed

lemma getColOffInBytes_row:
  assumes "row_layout_ok q" and "i < getSlotCount q"
  shows "getColOffInBytes q i = Some (key_bytes q + slot_off (q_widths q) i)"
proof -
  have "\<not> output_columnar q" "\<not> (keyless_hash q \<and> query_desc_type q \<noteq> GroupByPerfectHash)"
    using assms(1) by (auto simp: row_layout_ok_def)
  moreover have "getColOnlyOffInBytes q i = Some (slot_off (q_widths q) i)"
    unfolding getColOnlyOffInBytes_def
    using assms by (intro ctx_getColOnlyOffInBytes_eq) (simp_all add: row_layout_ok_def getSlotCount_def)
  ultimately show ?thesis unfolding getColOffInBytes_def key_bytes_def by simp
qed

lemma getPaddedSlotWidthBytes_eq:
  "i < getSlotCount q \<Longrightarrow> getPaddedSlotWidthBytes q i = Some (padded_size (slot_sizes (col_slot_context q) ! i))"
  by (simp add: getPaddedSlotWidthBytes_def getSlotInfo_def getSlotCount_def)

lemma next_row_off:
  assumes ok: "row_layout_ok q" and i: "Suc i < getSlotCount q" and base: "8 dvd base"
  shows "getNextColOffInBytesRowOnly q (base + key_bytes q + slot_off (q_widths q) i) i =
           Some (slot_off (q_widths q) (Suc i) - slot_off (q_widths q) i)"
proof -
  let ?ws = "q_widths q"
  have len: "Suc i < length ?ws" using i by (simp add: getSlotCount_def)
  have set: "slots_set (slot_sizes (col_slot_context q))" using ok by (simp add: row_layout_ok_def)
  have next8: "padded_size (slot_sizes (col_slot_context q) ! Suc i) = 8 \<longleftrightarrow> ?ws ! Suc i = 8"
    using slots_set_nth [OF set, of "Suc i"] len by (simp add: padded_8_iff)
  have F: "slot_off ?ws i + ?ws ! i = packed (take (Suc i) ?ws)" using len by (intro slot_off_next) simp
  have al: "align_to_int64 (base + key_bytes q + slot_off ?ws i + ?ws ! i) = base + key_bytes q + align_to_int64 (packed (take (Suc i) ?ws))"
    using base F by (simp add: add.assoc align_to_int64_shift)
  show ?thesis
    using i len next8 F al getPaddedSlotWidthBytes_eq [of i q] getPaddedSlotWidthBytes_eq [of "Suc i" q]
    by (auto simp: getNextColOffInBytesRowOnly_def getSlotCount_def slot_off_def [of ?ws "Suc i"])
qed

section \<open>Padding the slots\<close>

text \<open>
  The slots built so far lie side by side at the offsets of the original widths, and an 8-byte
  slot among them starts at a multiple of 8.
\<close>

definition align_inv :: "nat list \<Rightarrow> SlotSize list \<Rightarrow> nat \<Rightarrow> bool" where
  "align_inv ws ds t \<longleftrightarrow> length ds = length ws \<and> slots_set ds \<and> sum_list (widths ds) = t \<and> packed ws = t \<and>
     (\<forall>i < length ws. sum_list (take i (widths ds)) = slot_off ws i \<and>
        (widths ds ! i = 8 \<longrightarrow> 8 dvd sum_list (take i (widths ds))))"

lemma align_invD:
  "align_inv ws ds t \<Longrightarrow> i < length ws \<Longrightarrow>
     sum_list (take i (widths ds)) = slot_off ws i \<and> (widths ds ! i = 8 \<longrightarrow> 8 dvd sum_list (take i (widths ds)))"
  unfolding align_inv_def by blast

lemma align_invI:
  assumes "length ds = length ws" and "slots_set ds" and "sum_list (widths ds) = t" and "packed ws = t"
    and "\<And>i. i < length ws \<Longrightarrow> sum_list (take i (widths ds)) = slot_off ws i \<and>
          (widths ds ! i = 8 \<longrightarrow> 8 dvd sum_list (take i (widths ds)))"
  shows "align_inv ws ds t"
  unfolding align_inv_def using assms by blast

lemma widths_append [simp]: "widths (xs @ ys) = widths xs @ widths ys"
  by (simp add: widths_def)

lemma widths_Cons [simp]: "widths (x # xs) = nat (padded_size x) # widths xs"
  by (simp add: widths_def)

lemma widths_Nil [simp]: "widths [] = []"
  by (simp add: widths_def)

lemma slots_set_append [simp]: "slots_set (xs @ ys) \<longleftrightarrow> slots_set xs \<and> slots_set ys"
  by (auto simp: slots_set_def)

lemma slots_set_Cons [simp]: "slots_set (x # xs) \<longleftrightarrow> 0 \<le> padded_size x \<and> slots_set xs"
  by (auto simp: slots_set_def)

lemma slots_set_Nil [simp]: "slots_set []"
  by (simp add: slots_set_def)

lemma slot_off_append: "i < length ws \<Longrightarrow> slot_off (ws @ vs) i = slot_off ws i"
  by (simp add: slot_off_def nth_append)

lemma slot_off_last: "slot_off (ws @ [w]) (length ws) = (if w = 8 then align_to_int64 (packed ws) else packed ws)"
  by (simp add: slot_off_def)

text \<open>Adding a slot at the end, and giving a gap to the last slot.\<close>

lemma align_inv_snoc:
  assumes inv: "align_inv ws ds t" and s: "0 \<le> padded_size s" and al: "padded_size s = 8 \<longrightarrow> 8 dvd t"
  shows "align_inv (ws @ [nat (padded_size s)]) (ds @ [s]) (t + nat (padded_size s))"
proof -
  have "align_to_int64 t = t" if "8 dvd t" using that align_to_int64_shift [of t 0] by (simp add: align_to_int64_def)
  then have pack: "(if nat (padded_size s) = 8 then align_to_int64 t else t) = t" using al s by auto
  have at: "sum_list (take i (widths (ds @ [s]))) = slot_off (ws @ [nat (padded_size s)]) i \<and>
      (widths (ds @ [s]) ! i = 8 \<longrightarrow> 8 dvd sum_list (take i (widths (ds @ [s]))))" if "i < Suc (length ws)" for i
  proof (cases "i = length ws")
    case True
    then show ?thesis using inv pack al s by (auto simp: align_inv_def slot_off_last nth_append)
  next
    case False
    then have i: "i < length ws" using that by simp
    moreover have "length ds = length ws" using inv by (simp add: align_inv_def)
    ultimately show ?thesis using align_invD [OF inv i] by (auto simp: slot_off_append nth_append simp del: nth_widths)
  qed
  show ?thesis using inv s pack by (intro align_invI at) (auto simp: align_inv_def add_aligned_def)
qed

lemma align_pad_last:
  assumes inv: "align_inv ws ds t" and ne: "ds \<noteq> []" and p: "align_to_int64 t - t = p" "p = 0 \<or> p = 4"
  defines "ds' \<equiv> butlast ds @ [(last ds)\<lparr>padded_size := padded_size (last ds) + int p\<rparr>]"
  shows "length ds' = length ws" and "slots_set ds'" and "sum_list (widths ds') = align_to_int64 t"
    and "\<forall>i < length ws. sum_list (take i (widths ds')) = slot_off ws i \<and>
        (widths ds' ! i = 8 \<longrightarrow> 8 dvd sum_list (take i (widths ds')))"
proof -
  obtain es e where ds: "ds = es @ [e]" using ne by (metis append_butlast_last_id)
  have len: "length ws = Suc (length es)" and e: "0 \<le> padded_size e" and es: "slots_set es"
    and sum: "sum_list (widths es) + nat (padded_size e) = t"
    using inv by (auto simp: align_inv_def ds)
  have ds': "ds' = es @ [e\<lparr>padded_size := padded_size e + int p\<rparr>]" by (simp add: ds'_def ds)
  have wd: "widths ds' = widths es @ [nat (padded_size e) + p]" using e by (simp add: ds' nat_add_distrib)
  have t: "t + p = align_to_int64 t" using p(1) align_to_int64_le [of t] by simp
  show "length ds' = length ws" "slots_set ds'" "sum_list (widths ds') = align_to_int64 t"
    using len es e sum t by (simp_all add: wd) (simp_all add: ds')
  have old: "sum_list (take i (widths es)) = slot_off ws i \<and> (i < length es \<longrightarrow> widths es ! i = 8 \<longrightarrow> 8 dvd sum_list (take i (widths es)))"
    if "i \<le> length es" for i
  proof -
    have "i < length ws" using that len by simp
    then have "sum_list (take i (widths ds)) = slot_off ws i \<and> (widths ds ! i = 8 \<longrightarrow> 8 dvd sum_list (take i (widths ds)))"
      by (rule align_invD [OF inv])
    then show ?thesis using that by (auto simp: ds nth_append simp del: nth_widths)
  qed
  have last8: "8 dvd sum_list (widths es)" if w: "nat (padded_size e) + p = 8"
  proof (cases "p = 0")
    case True
    then have "widths ds ! length es = 8" using w by (simp add: ds nth_append)
    moreover have "length es < length ws" using len by simp
    ultimately have "8 dvd sum_list (take (length es) (widths ds))" using align_invD [OF inv] by blast
    then show ?thesis by (simp add: ds)
  next
    case False
    then have "sum_list (widths es) + 8 = align_to_int64 t" using t sum w p(2) by simp
    then show ?thesis using align_to_int64_dvd [of t] by (metis dvd_add_left_iff dvd_refl)
  qed
  show "\<forall>i < length ws. sum_list (take i (widths ds')) = slot_off ws i \<and>
        (widths ds' ! i = 8 \<longrightarrow> 8 dvd sum_list (take i (widths ds')))"
  proof (intro allI impI)
    fix i assume "i < length ws"
    then consider "i < length es" | "i = length es" using len by linarith
    then show "sum_list (take i (widths ds')) = slot_off ws i \<and> (widths ds' ! i = 8 \<longrightarrow> 8 dvd sum_list (take i (widths ds')))"
      using old [of i] last8 by cases (auto simp: wd nth_append)
  qed
qed

lemma align_slots_loop_inv:
  "align_inv ws ds t \<Longrightarrow> align_slots_loop ds t ss = Some (t', ds') \<Longrightarrow> align_inv (ws @ widths ss) ds' t'"
proof (induction ds t ss arbitrary: ws rule: align_slots_loop.induct)
  case (1 ds t)
  then show ?case by simp
next
  case (2 ds t s ss)
  have s: "0 \<le> padded_size s" using "2.prems"(2) by (auto split: if_splits)
  have app: "(ws @ [nat (padded_size s)]) @ widths ss = ws @ widths (s # ss)" by simp
  show ?case
  proof (cases "padded_size s = 8")
    case False
    then have "align_slots_loop (ds @ [s]) (t + nat (padded_size s)) ss = Some (t', ds')" using "2.prems"(2) s by simp
    moreover have "align_inv (ws @ [nat (padded_size s)]) (ds @ [s]) (t + nat (padded_size s))"
      using False s by (intro align_inv_snoc [OF "2.prems"(1)]) simp_all
    ultimately have "align_inv ((ws @ [nat (padded_size s)]) @ widths ss) ds' t'" using s by (intro "2.IH"(3) [OF _ False]) simp_all
    then show ?thesis using app by simp
  next
    case eight: True
    show ?thesis
    proof (cases "ds = []")
      case True
      have t: "t = 0" and ws: "ws = []" using "2.prems"(1) True by (auto simp: align_inv_def)
      have "align_slots_loop [s] (align_to_int64 t + 8) ss = Some (t', ds')" using "2.prems"(2) eight True by (simp add: Let_def)
      moreover have "align_inv (ws @ [nat (padded_size s)]) [s] (align_to_int64 t + 8)"
        using align_inv_snoc [OF "2.prems"(1) s] eight True t by (simp add: align_to_int64_def)
      ultimately have "align_inv ((ws @ [nat (padded_size s)]) @ widths ss) ds' t'"
        using s by (intro "2.IH"(1) [OF _ eight refl refl True]) simp_all
      then show ?thesis using app by simp
    next
      case False
      define p where "p = align_to_int64 t - t"
      define es where "es = butlast ds @ [(last ds)\<lparr>padded_size := padded_size (last ds) + int p\<rparr>]"
      have p: "p = 0 \<or> p = 4" using "2.prems"(2) eight False by (auto simp: Let_def p_def split: if_splits)
      have loop: "align_slots_loop (es @ [s]) (align_to_int64 t + 8) ss = Some (t', ds')"
        using "2.prems"(2) eight False p by (simp add: Let_def p_def es_def)
      note pad = align_pad_last [OF "2.prems"(1) False p_def [symmetric] p, folded es_def]
      have pack: "packed ws = t" using "2.prems"(1) by (simp add: align_inv_def)
      have at: "sum_list (take i (widths (es @ [s]))) = slot_off (ws @ [8]) i \<and>
          (widths (es @ [s]) ! i = 8 \<longrightarrow> 8 dvd sum_list (take i (widths (es @ [s]))))" if "i < Suc (length ws)" for i
      proof (cases "i = length ws")
        case True
        then show ?thesis using pad(1-3) pack by (auto simp: slot_off_last)
      next
        case False
        then have i: "i < length ws" using that by simp
        then show ?thesis using pad(1) pad(4) [rule_format, OF i] by (auto simp: slot_off_append nth_append simp del: nth_widths)
      qed
      have "align_inv (ws @ [8]) (es @ [s]) (align_to_int64 t + 8)"
        using pad(1-3) eight pack by (intro align_invI at) (simp_all add: add_aligned_def)
      then have "align_inv ((ws @ [8]) @ widths ss) ds' t'"
        using s loop p unfolding es_def p_def
        by (intro "2.IH"(2) [OF _ eight refl refl False]) simp_all
      then show ?thesis using app eight by simp
    qed
  qed
qed

lemma packed_contiguous:
  assumes "\<forall>i < length ws. ws ! i = 8 \<longrightarrow> 8 dvd sum_list (take i ws)"
  shows "packed ws = sum_list ws"
  using assms
proof (induction ws rule: rev_induct)
  case (snoc w ws)
  have "ws ! i = 8 \<longrightarrow> 8 dvd sum_list (take i ws)" if "i < length ws" for i
    using snoc.prems that by (auto simp: nth_append dest: spec [of _ i])
  then have "packed ws = sum_list ws" by (intro snoc.IH) blast
  moreover have "align_to_int64 (sum_list ws) = sum_list ws" if "w = 8"
  proof -
    have "8 dvd sum_list ws" using snoc.prems that by (auto dest: spec [of _ "length ws"])
    then show ?thesis using align_to_int64_shift [of "sum_list ws" 0] by (simp add: align_to_int64_def)
  qed
  ultimately show ?case by (simp add: add_aligned_def [of "sum_list ws" w])
qed simp

text \<open>Slots that lie side by side have their offsets at the sums of the widths before them.\<close>

lemma slot_off_contiguous:
  assumes "\<forall>i < length ws. ws ! i = 8 \<longrightarrow> 8 dvd sum_list (take i ws)" and "i < length ws"
  shows "slot_off ws i = sum_list (take i ws)"
proof -
  have "packed (take i ws) = sum_list (take i ws)"
    using assms by (intro packed_contiguous) (auto simp: min_def)
  moreover have "align_to_int64 (sum_list (take i ws)) = sum_list (take i ws)" if "ws ! i = 8"
    using assms that align_to_int64_shift [of "sum_list (take i ws)" 0] by (simp add: align_to_int64_def)
  ultimately show ?thesis by (simp add: slot_off_def)
qed

lemma ctx_alignPaddedSlots_widths:
  assumes al: "ctx_alignPaddedSlots ctx gpu = Some ctx'"
  defines "ws \<equiv> widths (slot_sizes ctx)" and "vs \<equiv> widths (slot_sizes ctx')"
  shows "length vs = length ws" and "slots_set (slot_sizes ctx')"
    and "\<forall>i < length ws. sum_list (take i vs) = slot_off ws i \<and> (vs ! i = 8 \<longrightarrow> 8 dvd sum_list (take i vs))"
    and "sum_list vs = (if gpu then packed ws else align_to_int64 (packed ws))"
proof -
  obtain t ds where loop: "align_slots_loop [] 0 (slot_sizes ctx) = Some (t, ds)"
    using al by (auto simp: ctx_alignPaddedSlots_def bind_eq_Some_conv)
  have "align_inv [] [] 0" by (simp add: align_inv_def)
  from align_slots_loop_inv [OF this loop] have inv: "align_inv ws ds t" by (simp add: ws_def)
  have pack: "packed ws = t" using inv by (simp add: align_inv_def)
  let ?G = "length vs = length ws \<and> slots_set (slot_sizes ctx') \<and>
    (\<forall>i < length ws. sum_list (take i vs) = slot_off ws i \<and> (vs ! i = 8 \<longrightarrow> 8 dvd sum_list (take i vs))) \<and>
    sum_list vs = (if gpu then packed ws else align_to_int64 (packed ws))"
  have ?G
  proof (cases gpu)
    case True
    then have ds: "slot_sizes ctx' = ds" using al loop by (auto simp: ctx_alignPaddedSlots_def)
    have "length ds = length ws" "slots_set ds" "sum_list (widths ds) = packed ws" using inv by (simp_all add: align_inv_def)
    then show ?thesis using align_invD [OF inv] True by (simp only: ds vs_def length_widths if_True) blast
  next
    case False
    define p where "p = align_to_int64 t - t"
    have ne: "ds \<noteq> []" and p: "p = 0 \<or> p = 4"
      and ctx': "slot_sizes ctx' = butlast ds @ [(last ds)\<lparr>padded_size := padded_size (last ds) + int p\<rparr>]"
      using al loop False by (auto simp: ctx_alignPaddedSlots_def Let_def p_def split: if_splits)
    show ?thesis
      using align_pad_last [OF inv ne p_def [symmetric] p, folded ctx'] False pack
      by (simp only: vs_def length_widths if_False)
  qed
  then show "length vs = length ws" "slots_set (slot_sizes ctx')"
    "\<forall>i < length ws. sum_list (take i vs) = slot_off ws i \<and> (vs ! i = 8 \<longrightarrow> 8 dvd sum_list (take i vs))"
    "sum_list vs = (if gpu then packed ws else align_to_int64 (packed ws))" by blast+
qed

section \<open>Columns\<close>

definition col_layout_ok :: "QueryMemoryDescriptor \<Rightarrow> bool" where
  "col_layout_ok q \<longleftrightarrow> output_columnar q \<and> getWarpCount q = 1 \<and> slots_set (slot_sizes (col_slot_context q))"

definition prepended :: "QueryMemoryDescriptor \<Rightarrow> nat" where
  "prepended q = (if keyless_hash q then 0 else sum_list (map (group_col_bytes q) (group_col_widths q)))"

lemma columnar_off_append: "columnar_off n (xs @ ys) = columnar_off n xs + columnar_off n ys"
  by (induction xs) simp_all

lemma getColOffInBytes_col:
  assumes "col_layout_ok q" and "i \<le> getSlotCount q"
  shows "getColOffInBytes q i = Some (prepended q + columnar_off (qmd_entry_count q) (take i (slot_sizes (col_slot_context q))))"
proof -
  have "\<not> (getWarpCount q \<noteq> 1 \<or> getSlotCount q < i \<or> (\<exists>s \<in> set (take i (slot_sizes (col_slot_context q))). padded_size s < 0))"
    using assms by (force simp: col_layout_ok_def slots_set_def dest: in_set_takeD)
  moreover have "output_columnar q" using assms(1) by (simp add: col_layout_ok_def)
  ultimately show ?thesis unfolding getColOffInBytes_def prepended_def getPrependedGroupBufferSizeInBytes_def by simp
qed

lemma columnar_off_step:
  assumes "i < length ss"
  shows "columnar_off n (take (Suc i) ss) = columnar_off n (take i ss) + align_to_int64 (nat (padded_size (ss ! i)) * n)"
  using assms by (simp add: take_Suc_conv_app_nth columnar_off_append)

lemma columnar_off_mono: "i \<le> j \<Longrightarrow> columnar_off n (take i ss) \<le> columnar_off n (take j ss)"
proof -
  assume "i \<le> j"
  then have "take j ss = take i ss @ take (j - i) (drop i ss)" by (metis le_add_diff_inverse take_add)
  then show ?thesis by (simp add: columnar_off_append)
qed

lemma columnar_bytes_eq: "slots_set ss \<Longrightarrow> columnar_bytes n acc ss = Some (acc + columnar_off n ss)"
  by (induction ss arbitrary: acc) (simp_all add: slots_set_def)

lemma columnar_off_dvd: "8 dvd columnar_off n ss"
  by (induction ss) simp_all

lemma getTotalBytesOfColumnarBuffers_eq:
  assumes "col_layout_ok q"
  shows "getTotalBytesOfColumnarBuffers q = Some (columnar_off (qmd_entry_count q) (slot_sizes (col_slot_context q)))"
proof -
  have set: "slots_set (slot_sizes (col_slot_context q))" using assms by (simp add: col_layout_ok_def)
  have "align_to_int64 (columnar_off n ss) = columnar_off n ss" for n ss
    using align_to_int64_shift [OF columnar_off_dvd, of n ss 0] by (simp add: align_to_int64_def)
  then show ?thesis using assms columnar_bytes_eq [OF set, of "qmd_entry_count q" 0]
    by (simp add: getTotalBytesOfColumnarBuffers_def ctx_getTotalBytesOfColumnarBuffers_def col_layout_ok_def)
qed

text \<open>Key columns of at most 8 bytes take 8 bytes per entry.\<close>

lemma prepended_narrow:
  assumes "\<forall>w \<in> set (group_col_widths q). w \<le> 8" and "\<not> keyless_hash q"
  shows "prepended q = 8 * length (group_col_widths q) * qmd_entry_count q"
proof -
  have "sum_list (map (group_col_bytes q) ws) = 8 * length ws * qmd_entry_count q" if "\<forall>w \<in> set ws. w \<le> 8" for ws
    using that
  proof (induction ws)
    case (Cons w ws)
    have "group_col_bytes q w = 8 * qmd_entry_count q"
      using Cons.prems align_to_int64_shift [of "8 * qmd_entry_count q" 0]
      by (simp add: group_col_bytes_def max_def align_to_int64_def)
    then show ?case using Cons by (simp add: algebra_simps)
  qed simp
  then show ?thesis using assms by (simp add: prepended_def)
qed

end
