(* ===== verification/Group_Init.thy ===== *)
theory Group_Init
  imports Output_Layout_Props Group_By
begin

text \<open>
  The initialisation of a row-wise group-by buffer: \<open>QueryMemoryInitializer::initRowGroups\<close> with
  both of its paths, the row by row one and the one that builds a sample of rows and spreads it
  over the buffer, in the portable and in the AVX-512 version of \<open>spread_vec_sample\<close>.  An address
  is given where the code looks at it, otherwise pointers are offsets.
\<close>

section \<open>Rows\<close>

text \<open>The descriptor the result set uses, with its slots padded.\<close>

definition resetGroupColWidths :: "QueryMemoryDescriptor \<Rightarrow> int list \<Rightarrow> QueryMemoryDescriptor" where
  "resetGroupColWidths q ws = q\<lparr>group_col_widths := ws\<rparr>"

definition alignPaddedSlots :: "QueryMemoryDescriptor \<Rightarrow> QueryMemoryDescriptor option" where
  "alignPaddedSlots q =
     map_option (\<lambda>ctx. q\<lparr>col_slot_context := ctx\<rparr>) (ctx_alignPaddedSlots (col_slot_context q) (sort_on_gpu q))"

definition fixupQueryMemoryDescriptor :: "QueryMemoryDescriptor \<Rightarrow> QueryMemoryDescriptor option" where
  "fixupQueryMemoryDescriptor q =
     (let q' = resetGroupColWidths q (replicate (getGroupbyColCount q) 8)
      in if output_columnar q then Some q' else alignPaddedSlots q')"

fun fill_empty_keys :: "nat \<Rightarrow> nat \<Rightarrow> nat \<Rightarrow> u8 list \<Rightarrow> u8 list option" where
  "fill_empty_keys w key_ptr 0 buf = Some buf"
| "fill_empty_keys w key_ptr (Suc n) buf =
     do { buf' \<leftarrow> mem_write buf key_ptr (get_empty_key w); fill_empty_keys w (key_ptr + w) n buf' }"

definition fill_empty_key :: "nat \<Rightarrow> nat \<Rightarrow> nat \<Rightarrow> u8 list \<Rightarrow> u8 list option" where
  "fill_empty_key key_ptr key_count key_width buf =
     (if key_width = 4 then fill_empty_keys 4 key_ptr key_count buf
      else if key_width = 8 then fill_empty_keys 8 key_ptr key_count buf
      else None)"

text \<open>
  The loop over the slots of a row.  In a query with group columns a slot may hold a
  count-distinct set or a quantile digest, with the pointer that was allocated for it; the
  allocation is a parameter here.  \<open>m\<close> is the number of slots left.
\<close>

datatype slot_special = Plain | CountDistinct int | Quantile int

fun initColumnsPerRow_loop ::
    "QueryMemoryDescriptor \<Rightarrow> int list \<Rightarrow> slot_special list \<Rightarrow> nat \<Rightarrow> nat \<Rightarrow> nat \<Rightarrow> nat \<Rightarrow> u8 list \<Rightarrow> u8 list option" where
  "initColumnsPerRow_loop q init_vals special 0 col_ptr col_idx init_vec_idx buf = Some buf"
| "initColumnsPerRow_loop q init_vals special (Suc m) col_ptr col_idx init_vec_idx buf =
     do {
       width \<leftarrow> getPaddedSlotWidthBytes q col_idx;
       (init_val, init_vec_idx') \<leftarrow>
         (case special ! col_idx of
            CountDistinct ptr \<Rightarrow> if width = 8 then Some (ptr, Suc init_vec_idx) else None
          | Quantile ptr \<Rightarrow> Some (ptr, Suc init_vec_idx)
          | Plain \<Rightarrow>
              if 0 < width
              then if init_vec_idx < length init_vals then Some (init_vals ! init_vec_idx, Suc init_vec_idx) else None
              else Some (0, init_vec_idx));
       buf' \<leftarrow> (if width \<in> {1, 2, 4, 8} then mem_write buf col_ptr (le_bytes (nat width) init_val)
               else if width = 0 then Some buf else None);
       step \<leftarrow> getNextColOffInBytesRowOnly q col_ptr col_idx;
       initColumnsPerRow_loop q init_vals special m (col_ptr + step) (Suc col_idx) init_vec_idx' buf'
     }"

definition initColumnsPerRow ::
    "QueryMemoryDescriptor \<Rightarrow> nat \<Rightarrow> int list \<Rightarrow> slot_special list \<Rightarrow> u8 list \<Rightarrow> u8 list option" where
  "initColumnsPerRow q row_ptr init_vals special buf =
     initColumnsPerRow_loop q init_vals special (getSlotCount q) row_ptr 0 0 buf"

section \<open>The sample\<close>

fun const_log2 :: "nat \<Rightarrow> nat option" where
  "const_log2 v =
     (if v = 1 then Some 0
      else if odd v \<or> v = 0 then None
      else map_option Suc (const_log2 (v div 2)))"

declare const_log2.simps [simp del]

text \<open>The number of trailing zero bits of \<open>rem\<close>, which is not zero.\<close>

fun trailing_zeros :: "nat \<Rightarrow> nat" where
  "trailing_zeros rem = (if rem = 0 \<or> odd rem then 0 else Suc (trailing_zeros (rem div 2)))"

declare trailing_zeros.simps [simp del]

definition get_num_rows_for_vec_sample :: "nat \<Rightarrow> nat" where
  "get_num_rows_for_vec_sample row_size =
     (let rem = row_size mod 64
      in if rem = 0 then 1
         else case const_log2 64 of None \<Rightarrow> 0 | Some vp2 \<Rightarrow> 2 ^ (vp2 - trailing_zeros rem))"

definition useVectorRowGroupsInit :: "nat \<Rightarrow> nat \<Rightarrow> bool" where
  "useVectorRowGroupsInit row_size entries \<longleftrightarrow>
     (let rows_per_sample = get_num_rows_for_vec_sample row_size in 3 < entries div rows_per_sample)"

text \<open>\<open>spread_vec_sample\<close>: \<open>dst\<close> is an offset of the buffer, and \<open>n\<close> the size of what is left.\<close>

function spread_vec_sample_default :: "u8 list \<Rightarrow> nat \<Rightarrow> nat \<Rightarrow> u8 list \<Rightarrow> nat \<Rightarrow> u8 list option" where
  "spread_vec_sample_default buf dst n sample sample_size =
     (if sample_size = 0 then None
      else if sample_size \<le> n
      then do {
        s \<leftarrow> mem_read sample 0 sample_size;
        buf' \<leftarrow> mem_write buf dst s;
        spread_vec_sample_default buf' (dst + sample_size) (n - sample_size) sample sample_size
      }
      else do {
        s \<leftarrow> mem_read sample 0 n;
        mem_write buf dst s
      })"
  by pat_completeness auto

termination spread_vec_sample_default
  by (relation "measure (\<lambda>(buf, dst, n, sample, sample_size). n)") auto

declare spread_vec_sample_default.simps [simp del]

text \<open>The copies of one sample by 64-byte vectors.\<close>

fun copy_vecs :: "u8 list \<Rightarrow> nat \<Rightarrow> u8 list \<Rightarrow> nat \<Rightarrow> nat \<Rightarrow> nat \<Rightarrow> u8 list option" where
  "copy_vecs buf align_dst sample align_sample i 0 = Some buf"
| "copy_vecs buf align_dst sample align_sample i (Suc m) =
     do {
       vec_val \<leftarrow> mem_read sample (align_sample + 64 * i) 64;
       buf' \<leftarrow> mem_write buf (align_dst + 64 * i) vec_val;
       copy_vecs buf' align_dst sample align_sample (Suc i) m
     }"

function spread_vecs :: "u8 list \<Rightarrow> nat \<Rightarrow> nat \<Rightarrow> u8 list \<Rightarrow> nat \<Rightarrow> nat \<Rightarrow> u8 list option" where
  "spread_vecs buf align_dst vec_end sample align_sample sample_size =
     (if sample_size = 0 then None
      else if align_dst < vec_end
      then do {
        buf' \<leftarrow> copy_vecs buf align_dst sample align_sample 0 (sample_size div 64);
        spread_vecs buf' (align_dst + sample_size) vec_end sample align_sample sample_size
      }
      else Some buf)"
  by pat_completeness auto

termination spread_vecs
  by (relation "measure (\<lambda>(buf, align_dst, vec_end, sample, align_sample, sample_size). vec_end - align_dst)") auto

declare spread_vecs.simps [simp del]

text \<open>\<open>addr\<close> is the address of the buffer.\<close>

definition spread_vec_sample_avx512 :: "nat \<Rightarrow> u8 list \<Rightarrow> nat \<Rightarrow> u8 list \<Rightarrow> nat \<Rightarrow> u8 list option" where
  "spread_vec_sample_avx512 addr buf dst_size sample sample_size =
     (let align_bytes = (64 - addr mod 64) mod 64
      in if dst_size < align_bytes \<or> sample_size = 0 then None
         else do {
           s \<leftarrow> mem_read sample 0 align_bytes;
           buf1 \<leftarrow> mem_write buf 0 s;
           let rem = dst_size - align_bytes;
           let rem_scalar = rem mod sample_size;
           let rem_vector = rem - rem_scalar;
           buf2 \<leftarrow> spread_vecs buf1 align_bytes (align_bytes + rem_vector) sample align_bytes sample_size;
           t \<leftarrow> mem_read sample align_bytes rem_scalar;
           mem_write buf2 (align_bytes + rem_vector) t
         })"

section \<open>The buffer\<close>

fun init_rows ::
    "QueryMemoryDescriptor \<Rightarrow> QueryMemoryDescriptor \<Rightarrow> int list \<Rightarrow> slot_special list \<Rightarrow> nat \<Rightarrow> nat \<Rightarrow> nat \<Rightarrow> nat \<Rightarrow> u8 list \<Rightarrow> u8 list option" where
  "init_rows q fixedup init_vals special row_size col_base_off buffer_ptr 0 buf = Some buf"
| "init_rows q fixedup init_vals special row_size col_base_off buffer_ptr (Suc n) buf =
     do {
       buf1 \<leftarrow> (if keyless_hash q then Some buf
               else fill_empty_key buffer_ptr (getGroupbyColCount q) (getEffectiveKeyWidth q) buf);
       buf2 \<leftarrow> initColumnsPerRow fixedup (buffer_ptr + col_base_off) init_vals special buf1;
       init_rows q fixedup init_vals special row_size col_base_off (buffer_ptr + row_size) n buf2
     }"

text \<open>The vectorised path initialises the slots of all sample rows, then their keys.\<close>

fun init_cols_rows :: "QueryMemoryDescriptor \<Rightarrow> int list \<Rightarrow> slot_special list \<Rightarrow> nat \<Rightarrow> nat \<Rightarrow> nat \<Rightarrow> nat \<Rightarrow> u8 list \<Rightarrow> u8 list option" where
  "init_cols_rows fixedup init_vals special row_size col_base_off ptr 0 buf = Some buf"
| "init_cols_rows fixedup init_vals special row_size col_base_off ptr (Suc n) buf =
     do {
       buf1 \<leftarrow> initColumnsPerRow fixedup (ptr + col_base_off) init_vals special buf;
       init_cols_rows fixedup init_vals special row_size col_base_off (ptr + row_size) n buf1
     }"

fun fill_key_rows :: "nat \<Rightarrow> nat \<Rightarrow> nat \<Rightarrow> nat \<Rightarrow> nat \<Rightarrow> u8 list \<Rightarrow> u8 list option" where
  "fill_key_rows key_count key_width row_size ptr 0 buf = Some buf"
| "fill_key_rows key_count key_width row_size ptr (Suc n) buf =
     do {
       buf1 \<leftarrow> fill_empty_key ptr key_count key_width buf;
       fill_key_rows key_count key_width row_size (ptr + row_size) n buf1
     }"

text \<open>
  The sample is zeroed, its rows are initialised and its first 64 bytes are repeated behind it.
  Its address has the alignment of the buffer's modulo 64; both are multiples of 8.  The vector
  has 128 bytes more than the rows, of which at least 64 remain behind them.
\<close>

definition vec_sample_of ::
    "QueryMemoryDescriptor \<Rightarrow> QueryMemoryDescriptor \<Rightarrow> int list \<Rightarrow> slot_special list \<Rightarrow> nat \<Rightarrow> nat \<Rightarrow> nat \<Rightarrow> u8 list option" where
  "vec_sample_of q fixedup init_vals special row_size col_base_off rows_per_sample =
     do {
       let sample_size = row_size * rows_per_sample;
       s \<leftarrow> init_cols_rows fixedup init_vals special row_size col_base_off 0 rows_per_sample (replicate (sample_size + 64) 0);
       s' \<leftarrow> (if keyless_hash q then Some s
             else fill_key_rows (getGroupbyColCount q) (getEffectiveKeyWidth q) row_size 0 rows_per_sample s);
       first \<leftarrow> mem_read s' 0 64;
       mem_write s' sample_size first
     }"

definition initRowGroups ::
    "bool \<Rightarrow> bool \<Rightarrow> nat \<Rightarrow> QueryMemoryDescriptor \<Rightarrow> int list \<Rightarrow> slot_special list \<Rightarrow> nat \<Rightarrow> nat \<Rightarrow> u8 list \<Rightarrow> u8 list option" where
  "initRowGroups avx512 optimize_row_initialization addr q init_vals special groups_buffer_entry_count warp_size buf =
     do {
       row_size \<leftarrow> getRowSize q;
       col_base_off \<leftarrow> getColOffInBytes q 0;
       fixedup \<leftarrow> fixupQueryMemoryDescriptor q;
       let vectorised = (list_all (\<lambda>x. x = Plain) special \<and> optimize_row_initialization \<and>
         useVectorRowGroupsInit row_size (groups_buffer_entry_count * warp_size));
       if keyless_hash q \<and> \<not> (1 \<le> warp_size \<and> (getGroupbyColCount q = 1 \<or> warp_size = 1)) then None
       else do {
         let rows_count = (if keyless_hash q then groups_buffer_entry_count * warp_size else groups_buffer_entry_count);
         if vectorised
         then do {
           let rows_per_sample = get_num_rows_for_vec_sample row_size;
           let sample_size = row_size * rows_per_sample;
           sample \<leftarrow> vec_sample_of q fixedup init_vals special row_size col_base_off rows_per_sample;
           if avx512 then spread_vec_sample_avx512 addr buf (rows_count * row_size) sample sample_size
           else spread_vec_sample_default buf 0 (rows_count * row_size) sample sample_size
         }
         else init_rows q fixedup init_vals special row_size col_base_off 0 rows_count buf
       }
     }"

end
