(* ===== verification/Group_Init_Props.thy ===== *)
theory Group_Init_Props
  imports Group_Init
begin

text \<open>
  Both paths of the initialisation of a group-by buffer leave the same keys and slots: every key
  component of every row is the empty key and every slot holds its initial value.  The number of
  rows of the sample is the least that fills whole 64-byte vectors.
\<close>

section \<open>Changes inside a range\<close>

definition same_outside :: "nat \<Rightarrow> nat \<Rightarrow> u8 list \<Rightarrow> u8 list \<Rightarrow> bool" where
  "same_outside lo hi b b' \<longleftrightarrow> length b' = length b \<and> (\<forall>i < length b. i < lo \<or> hi \<le> i \<longrightarrow> b' ! i = b ! i)"

lemma same_outside_refl [simp]: "same_outside lo hi b b"
  by (simp add: same_outside_def)

lemma same_outside_trans: "same_outside lo hi a b \<Longrightarrow> same_outside lo hi b c \<Longrightarrow> same_outside lo hi a c"
  by (simp add: same_outside_def)

lemma same_outside_mono: "same_outside lo hi a b \<Longrightarrow> lo' \<le> lo \<Longrightarrow> hi \<le> hi' \<Longrightarrow> same_outside lo' hi' a b"
  by (auto simp: same_outside_def)

lemma same_outside_write:
  "mem_write b off bs = Some b' \<Longrightarrow> lo \<le> off \<Longrightarrow> off + length bs \<le> hi \<Longrightarrow> same_outside lo hi b b'"
  by (auto simp: same_outside_def mem_write_nth dest: mem_write_length)

lemma same_outside_read:
  "same_outside lo hi b b' \<Longrightarrow> off + n \<le> lo \<or> hi \<le> off \<Longrightarrow> mem_read b' off n = mem_read b off n"
  by (intro mem_read_eqI) (auto simp: same_outside_def)

lemma same_outside_length: "same_outside lo hi b b' \<Longrightarrow> length b' = length b"
  by (simp add: same_outside_def)

section \<open>One row\<close>

lemma length_get_empty_key [simp]: "length (get_empty_key w) = w"
  by (simp add: get_empty_key_def)

lemma fill_empty_keys_spec:
  "key_ptr + n * w \<le> length buf \<Longrightarrow>
     \<exists>buf'. fill_empty_keys w key_ptr n buf = Some buf' \<and> same_outside key_ptr (key_ptr + n * w) buf buf' \<and>
            (\<forall>k < n. mem_read buf' (key_ptr + k * w) w = Some (get_empty_key w))"
proof (induction n arbitrary: key_ptr buf)
  case (Suc n)
  have "key_ptr + length (get_empty_key w) \<le> length buf" using Suc.prems by simp
  then obtain b1 where w: "mem_write buf key_ptr (get_empty_key w) = Some b1" using mem_write_some by blast
  have "key_ptr + w + n * w \<le> length b1" using Suc.prems mem_write_length [OF w] by simp
  from Suc.IH [OF this] obtain b2 where b2: "fill_empty_keys w (key_ptr + w) n b1 = Some b2"
    "same_outside (key_ptr + w) (key_ptr + w + n * w) b1 b2"
    "\<forall>k < n. mem_read b2 (key_ptr + w + k * w) w = Some (get_empty_key w)" by blast
  have "same_outside key_ptr (key_ptr + Suc n * w) buf b1" by (rule same_outside_write [OF w]) simp_all
  then have "same_outside key_ptr (key_ptr + Suc n * w) buf b2"
    by (rule same_outside_trans [OF _ same_outside_mono [OF b2(2)]]) simp_all
  moreover have "mem_read b2 (key_ptr + k * w) w = Some (get_empty_key w)" if "k < Suc n" for k
  proof (cases k)
    case 0
    have "mem_read b2 key_ptr w = mem_read b1 key_ptr w" by (rule same_outside_read [OF b2(2)]) simp
    then show ?thesis using 0 mem_read_write_same [OF w] by simp
  next
    case (Suc k')
    then show ?thesis using b2(3) that by (simp add: add.assoc)
  qed
  ultimately show ?case using w b2(1) by auto
qed simp

lemma fill_empty_key_spec:
  assumes "w \<in> {4, 8}" and "key_ptr + n * w \<le> length buf"
  obtains buf' where "fill_empty_key key_ptr n w buf = Some buf'" and "same_outside key_ptr (key_ptr + n * w) buf buf'"
    and "\<forall>k < n. mem_read buf' (key_ptr + k * w) w = Some (get_empty_key w)"
proof -
  have "fill_empty_key key_ptr n w buf = fill_empty_keys w key_ptr n buf" using assms(1) by (auto simp: fill_empty_key_def)
  then show ?thesis using that fill_empty_keys_spec [OF assms(2)] by metis
qed

text \<open>The value a slot is initialised with: its place among the initial values counts the slots before it that have one.\<close>

definition takes_init :: "nat list \<Rightarrow> slot_special list \<Rightarrow> nat \<Rightarrow> bool" where
  "takes_init ws special i \<longleftrightarrow> special ! i \<noteq> Plain \<or> 0 < ws ! i"

definition init_index :: "nat list \<Rightarrow> slot_special list \<Rightarrow> nat \<Rightarrow> nat" where
  "init_index ws special i = length (filter (takes_init ws special) [0..<i])"

definition slot_init :: "nat list \<Rightarrow> slot_special list \<Rightarrow> int list \<Rightarrow> nat \<Rightarrow> int" where
  "slot_init ws special vals i =
     (case special ! i of Plain \<Rightarrow> vals ! init_index ws special i | CountDistinct p \<Rightarrow> p | Quantile p \<Rightarrow> p)"

definition slots_ready :: "nat list \<Rightarrow> slot_special list \<Rightarrow> int list \<Rightarrow> bool" where
  "slots_ready ws special vals \<longleftrightarrow> length special = length ws \<and> (\<forall>i < length ws. ws ! i \<in> {0, 1, 2, 4, 8}) \<and>
     (\<forall>i < length ws. \<forall>p. special ! i = CountDistinct p \<longrightarrow> ws ! i = 8) \<and>
     init_index ws special (length ws) \<le> length vals"

lemma init_index_Suc: "init_index ws special (Suc i) = init_index ws special i + (if takes_init ws special i then 1 else 0)"
  by (simp add: init_index_def)

lemma init_index_mono: "i \<le> j \<Longrightarrow> init_index ws special i \<le> init_index ws special j"
  by (induction j) (auto simp: init_index_Suc le_Suc_eq)

lemma last_off:
  assumes "i < getSlotCount q"
  shows "\<exists>step. getNextColOffInBytesRowOnly q ptr i = Some step"
  using assms getPaddedSlotWidthBytes_eq [of i q] getPaddedSlotWidthBytes_eq [of "Suc i" q]
  by (cases "Suc i = getSlotCount q") (auto simp: getNextColOffInBytesRowOnly_def)

lemma init_loop_spec:
  assumes ok: "row_layout_ok q" and ready: "slots_ready (q_widths q) special vals" and base: "8 dvd base"
  defines "ws \<equiv> q_widths q" and "B \<equiv> base + key_bytes q"
  shows "m + i = length ws \<Longrightarrow> B + packed ws \<le> length buf \<Longrightarrow>
     \<exists>buf'. initColumnsPerRow_loop q vals special m (if i < length ws then B + slot_off ws i else ptr) i (init_index ws special i) buf = Some buf' \<and>
       same_outside (B + packed (take i ws)) (B + packed ws) buf buf' \<and>
       (\<forall>j < length ws. i \<le> j \<longrightarrow> ws ! j \<noteq> 0 \<longrightarrow>
          mem_read buf' (B + slot_off ws j) (ws ! j) = Some (le_bytes (ws ! j) (slot_init ws special vals j)))"
proof (induction m arbitrary: i buf ptr)
  case 0
  then show ?case by auto
next
  case (Suc m)
  let ?ss = "slot_sizes (col_slot_context q)"
  have i: "i < length ws" using Suc.prems by simp
  then have iq: "i < getSlotCount q" by (simp add: ws_def getSlotCount_def)
  have set: "slots_set ?ss" using ok by (simp add: row_layout_ok_def)
  have wi: "padded_size (?ss ! i) = int (ws ! i)" using slots_set_nth [OF set] i by (simp add: ws_def)
  have width: "getPaddedSlotWidthBytes q i = Some (int (ws ! i))" using getPaddedSlotWidthBytes_eq [OF iq] wi by simp
  have wcase: "ws ! i \<in> {0, 1, 2, 4, 8}" using ready i by (simp add: slots_ready_def ws_def)
  have inside: "B + slot_off ws i + ws ! i \<le> length buf" using slot_off_inside [OF i] Suc.prems(2) by simp
  have idx: "init_index ws special i < length vals" if "takes_init ws special i"
    using ready init_index_Suc [of ws special i] init_index_mono [of "Suc i" "length ws" ws special] that i
    by (simp add: slots_ready_def ws_def)
  have pick: "(case special ! i of
            CountDistinct ptr \<Rightarrow> if int (ws ! i) = 8 then Some (ptr, Suc (init_index ws special i)) else None
          | Quantile ptr \<Rightarrow> Some (ptr, Suc (init_index ws special i))
          | Plain \<Rightarrow>
              if 0 < int (ws ! i)
              then if init_index ws special i < length vals then Some (vals ! init_index ws special i, Suc (init_index ws special i)) else None
              else Some (0, init_index ws special i)) =
      Some (if special ! i = Plain \<and> ws ! i = 0 then 0 else slot_init ws special vals i, init_index ws special (Suc i))"
    using idx ready i by (auto simp: init_index_Suc takes_init_def slot_init_def slots_ready_def ws_def split: slot_special.splits)
  obtain b1 where b1: "(if int (ws ! i) \<in> {1, 2, 4, 8}
        then mem_write buf (B + slot_off ws i) (le_bytes (nat (int (ws ! i))) (if special ! i = Plain \<and> ws ! i = 0 then 0 else slot_init ws special vals i))
        else if int (ws ! i) = 0 then Some buf else None) = Some b1"
      "ws ! i \<noteq> 0 \<Longrightarrow> mem_write buf (B + slot_off ws i) (le_bytes (ws ! i) (slot_init ws special vals i)) = Some b1"
      "ws ! i = 0 \<Longrightarrow> b1 = buf"
    using wcase inside mem_write_some [of "B + slot_off ws i" "le_bytes (ws ! i) (slot_init ws special vals i)" buf] by fastforce
  have same1: "same_outside (B + packed (take i ws)) (B + packed ws) buf b1"
  proof (cases "ws ! i = 0")
    case False
    then show ?thesis using slot_off_ge [of i ws] slot_off_inside [OF i] by (intro same_outside_write [OF b1(2)]) simp_all
  qed (use b1(3) in simp)
  obtain step where step: "getNextColOffInBytesRowOnly q (B + slot_off ws i) i = Some step"
    and target: "B + slot_off ws i + step = (if Suc i < length ws then B + slot_off ws (Suc i) else B + slot_off ws i + step)"
  proof (cases "Suc i < length ws")
    case True
    then have "Suc i < getSlotCount q" by (simp add: ws_def getSlotCount_def)
    from next_row_off [OF ok this base] show ?thesis
      using that True slot_off_before [of i "Suc i" ws] by (simp add: B_def ws_def)
  next
    case False
    then show ?thesis using that last_off [OF iq] by auto
  qed
  obtain b2 where b2: "initColumnsPerRow_loop q vals special m (B + slot_off ws i + step) (Suc i) (init_index ws special (Suc i)) b1 = Some b2"
      "same_outside (B + packed (take (Suc i) ws)) (B + packed ws) b1 b2"
      "\<forall>j < length ws. Suc i \<le> j \<longrightarrow> ws ! j \<noteq> 0 \<longrightarrow>
          mem_read b2 (B + slot_off ws j) (ws ! j) = Some (le_bytes (ws ! j) (slot_init ws special vals j))"
    using Suc.IH [of "Suc i" b1 "B + slot_off ws i + step"] Suc.prems same_outside_length [OF same1] target by auto
  have "initColumnsPerRow_loop q vals special (Suc m) (B + slot_off ws i) i (init_index ws special i) buf = Some b2"
    unfolding initColumnsPerRow_loop.simps width bind.bind_lunit pick using b1(1) step b2(1) by simp
  moreover have "same_outside (B + packed (take i ws)) (B + packed ws) buf b2"
    using same_outside_trans [OF same1 same_outside_mono [OF b2(2)]] packed_take_mono [of i "Suc i" ws] by simp
  moreover have "mem_read b2 (B + slot_off ws i) (ws ! i) = Some (le_bytes (ws ! i) (slot_init ws special vals i))" if "ws ! i \<noteq> 0"
  proof -
    have "mem_read b2 (B + slot_off ws i) (ws ! i) = mem_read b1 (B + slot_off ws i) (ws ! i)"
      using slot_off_next [OF i] by (intro same_outside_read [OF b2(2)]) simp
    then show ?thesis using mem_read_write_same [OF b1(2) [OF that]] by simp
  qed
  ultimately show ?case using b2(3) i by (auto simp: le_eq_less_or_eq Suc_le_eq)
qed

section \<open>Rows\<close>

text \<open>What an initialised row holds.\<close>

definition row_slots :: "QueryMemoryDescriptor \<Rightarrow> int list \<Rightarrow> slot_special list \<Rightarrow> nat \<Rightarrow> u8 list \<Rightarrow> bool" where
  "row_slots f vals special base buf \<longleftrightarrow>
     (\<forall>j < length (q_widths f). q_widths f ! j \<noteq> 0 \<longrightarrow>
        mem_read buf (base + key_bytes f + slot_off (q_widths f) j) (q_widths f ! j) =
          Some (le_bytes (q_widths f ! j) (slot_init (q_widths f) special vals j)))"

definition row_keys :: "QueryMemoryDescriptor \<Rightarrow> nat \<Rightarrow> u8 list \<Rightarrow> bool" where
  "row_keys q base buf \<longleftrightarrow>
     (\<not> keyless_hash q \<longrightarrow>
       (\<forall>k < getGroupbyColCount q.
          mem_read buf (base + k * getEffectiveKeyWidth q) (getEffectiveKeyWidth q) = Some (get_empty_key (getEffectiveKeyWidth q))))"

definition init_ok :: "QueryMemoryDescriptor \<Rightarrow> QueryMemoryDescriptor \<Rightarrow> int list \<Rightarrow> slot_special list \<Rightarrow> bool" where
  "init_ok q f vals special \<longleftrightarrow> row_layout_ok q \<and> 0 < getSlotCount q \<and> fixupQueryMemoryDescriptor q = Some f \<and>
     getEffectiveKeyWidth q \<in> {4, 8} \<and> slots_ready (q_widths f) special vals"

definition row_size_of :: "QueryMemoryDescriptor \<Rightarrow> nat" where
  "row_size_of q = align_to_int64 (key_bytes q + packed (q_widths q))"

text \<open>The padded descriptor has the keys and slots of the original one at the same places.\<close>

lemma fixup_layout:
  assumes "init_ok q f vals special"
  shows "row_layout_ok f" and "key_bytes f = key_bytes q" and "length (q_widths f) = getSlotCount q"
    and "\<forall>i < getSlotCount q. slot_off (q_widths f) i = slot_off (q_widths q) i"
    and "key_bytes q + packed (q_widths f) \<le> row_size_of q"
proof -
  have q: "row_layout_ok q" "0 < getSlotCount q" using assms by (simp_all add: init_ok_def)
  have nc: "\<not> output_columnar q" using q(1) by (simp add: row_layout_ok_def)
  obtain ctx where al: "ctx_alignPaddedSlots (col_slot_context q) (sort_on_gpu q) = Some ctx"
    and f: "f = (resetGroupColWidths q (replicate (getGroupbyColCount q) 8))\<lparr>col_slot_context := ctx\<rparr>"
    using assms nc by (auto simp: init_ok_def fixupQueryMemoryDescriptor_def alignPaddedSlots_def resetGroupColWidths_def Let_def)
  note w = ctx_alignPaddedSlots_widths [OF al]
  have fw: "q_widths f = widths (slot_sizes ctx)" by (simp add: f)
  show "row_layout_ok f" using q(1) w(2) by (simp add: row_layout_ok_def f resetGroupColWidths_def)
  show kb: "key_bytes f = key_bytes q" by (simp add: key_bytes_def f resetGroupColWidths_def getEffectiveKeyWidth_def getGroupbyColCount_def)
  show len: "length (q_widths f) = getSlotCount q" using w(1) by (simp add: fw getSlotCount_def)
  have cont: "\<forall>i < length (q_widths f). q_widths f ! i = 8 \<longrightarrow> 8 dvd sum_list (take i (q_widths f))"
    using w(1,3) unfolding fw by (simp only: length_widths) blast
  show "\<forall>i < getSlotCount q. slot_off (q_widths f) i = slot_off (q_widths q) i"
    using slot_off_contiguous [OF cont] w(1,3) len unfolding fw by (simp add: getSlotCount_def del: nth_widths)
  have "packed (q_widths f) \<le> align_to_int64 (packed (q_widths q))"
    using packed_contiguous [OF cont] w(4) align_to_int64_le [of "packed (q_widths q)"] by (simp add: fw split: if_splits)
  then show "key_bytes q + packed (q_widths f) \<le> row_size_of q" by (simp add: row_size_of_def align_to_int64_shift)
qed

lemma init_ok_sizes:
  assumes "init_ok q f vals special"
  shows "getRowSize q = Some (row_size_of q)" and "getColOffInBytes q 0 = Some (key_bytes q)" and "8 dvd row_size_of q"
    and "\<not> keyless_hash q \<Longrightarrow> getGroupbyColCount q * getEffectiveKeyWidth q \<le> key_bytes q"
    and "key_bytes q \<le> row_size_of q"
proof -
  have q: "row_layout_ok q" "0 < getSlotCount q" using assms by (simp_all add: init_ok_def)
  show "getRowSize q = Some (row_size_of q)" using getRowSize_eq [OF q(1)] by (simp add: row_size_of_def)
  show "getColOffInBytes q 0 = Some (key_bytes q)"
    using getColOffInBytes_row [OF q] by (simp add: slot_off_def align_to_int64_def)
  show "8 dvd row_size_of q" by (simp add: row_size_of_def)
  show "\<not> keyless_hash q \<Longrightarrow> getGroupbyColCount q * getEffectiveKeyWidth q \<le> key_bytes q"
    by (simp add: key_bytes_def getGroupbyColCount_def align_to_int64_le)
  show "key_bytes q \<le> row_size_of q" using fixup_layout(5) [OF assms] by simp
qed

lemma row_slots_local:
  assumes ok: "init_ok q f vals special" and "same_outside lo hi b b'" and "row_slots f vals special base b"
    and "base + row_size_of q \<le> lo \<or> hi \<le> base + key_bytes q"
  shows "row_slots f vals special base b'"
proof -
  note f = fixup_layout [OF ok]
  have "mem_read b' (base + key_bytes f + slot_off (q_widths f) j) (q_widths f ! j) =
      mem_read b (base + key_bytes f + slot_off (q_widths f) j) (q_widths f ! j)" if "j < length (q_widths f)" for j
    using slot_off_inside [OF that] f(2,5) assms(4) by (intro same_outside_read [OF assms(2)]) auto
  then show ?thesis using assms(3) by (simp add: row_slots_def)
qed

lemma row_keys_local:
  assumes ok: "init_ok q f vals special" and "same_outside lo hi b b'" and "row_keys q base b"
    and "base + key_bytes q \<le> lo \<or> hi \<le> base"
  shows "row_keys q base b'"
proof (cases "keyless_hash q")
  case False
  have "mem_read b' (base + k * getEffectiveKeyWidth q) (getEffectiveKeyWidth q) =
      mem_read b (base + k * getEffectiveKeyWidth q) (getEffectiveKeyWidth q)" if "k < getGroupbyColCount q" for k
    using entry_inside [OF that, of "getEffectiveKeyWidth q" "getEffectiveKeyWidth q"] init_ok_sizes(4) [OF ok False] assms(4)
    by (intro same_outside_read [OF assms(2)]) auto
  then show ?thesis using assms(3) by (simp add: row_keys_def)
qed (simp add: row_keys_def)

lemma init_slots_spec:
  assumes ok: "init_ok q f vals special" and base: "8 dvd base" and fits: "base + row_size_of q \<le> length buf"
  obtains buf' where "initColumnsPerRow f (base + key_bytes q) vals special buf = Some buf'"
    and "same_outside (base + key_bytes q) (base + row_size_of q) buf buf'" and "row_slots f vals special base buf'"
proof -
  note f = fixup_layout [OF ok]
  have ready: "slots_ready (q_widths f) special vals" and pos: "0 < length (q_widths f)" using ok f(3) by (simp_all add: init_ok_def)
  have off0: "slot_off (q_widths f) 0 = 0" by (simp add: slot_off_def align_to_int64_def)
  obtain buf' where b: "initColumnsPerRow_loop f vals special (length (q_widths f)) (base + key_bytes f) 0 0 buf = Some buf'"
    "same_outside (base + key_bytes f) (base + key_bytes f + packed (q_widths f)) buf buf'"
    "\<forall>j < length (q_widths f). q_widths f ! j \<noteq> 0 \<longrightarrow>
       mem_read buf' (base + key_bytes f + slot_off (q_widths f) j) (q_widths f ! j) =
         Some (le_bytes (q_widths f ! j) (slot_init (q_widths f) special vals j))"
    using init_loop_spec [OF f(1) ready base, of "length (q_widths f)" 0 buf] fits f(2,5) pos off0
    by (auto simp: init_index_def)
  have "same_outside (base + key_bytes q) (base + row_size_of q) buf buf'"
    using f(2,5) by (intro same_outside_mono [OF b(2)]) simp_all
  then show ?thesis using that b f(2) by (simp add: initColumnsPerRow_def getSlotCount_def row_slots_def)
qed

definition row_inited :: "QueryMemoryDescriptor \<Rightarrow> QueryMemoryDescriptor \<Rightarrow> int list \<Rightarrow> slot_special list \<Rightarrow> nat \<Rightarrow> u8 list \<Rightarrow> bool" where
  "row_inited q f vals special base buf \<longleftrightarrow> row_keys q base buf \<and> row_slots f vals special base buf"

lemma row_inited_local:
  assumes "init_ok q f vals special" and "same_outside lo hi b b'" and "row_inited q f vals special base b"
    and "base + row_size_of q \<le> lo \<or> hi \<le> base"
  shows "row_inited q f vals special base b'"
proof -
  have "base + key_bytes q \<le> lo \<or> hi \<le> base" "base + row_size_of q \<le> lo \<or> hi \<le> base + key_bytes q"
    using assms(4) init_ok_sizes(5) [OF assms(1)] by auto
  then show ?thesis
    using assms row_keys_local [OF assms(1,2)] row_slots_local [OF assms(1,2)] by (simp add: row_inited_def)
qed

lemma fill_row_keys:
  assumes ok: "init_ok q f vals special" and fits: "base + row_size_of q \<le> length buf"
  obtains buf' where "(if keyless_hash q then Some buf
      else fill_empty_key base (getGroupbyColCount q) (getEffectiveKeyWidth q) buf) = Some buf'"
    and "same_outside base (base + key_bytes q) buf buf'" and "row_keys q base buf'"
proof (cases "keyless_hash q")
  case False
  have kw: "getEffectiveKeyWidth q \<in> {4, 8}" using ok by (simp add: init_ok_def)
  have "base + getGroupbyColCount q * getEffectiveKeyWidth q \<le> length buf"
    using init_ok_sizes(4,5) [OF ok] False fits by simp
  then obtain b1 where "fill_empty_key base (getGroupbyColCount q) (getEffectiveKeyWidth q) buf = Some b1"
    "same_outside base (base + getGroupbyColCount q * getEffectiveKeyWidth q) buf b1"
    "\<forall>k < getGroupbyColCount q. mem_read b1 (base + k * getEffectiveKeyWidth q) (getEffectiveKeyWidth q) = Some (get_empty_key (getEffectiveKeyWidth q))"
    by (rule fill_empty_key_spec [OF kw])
  then show ?thesis
    using that [of b1] False same_outside_mono [of base _ buf b1 base "base + key_bytes q"] init_ok_sizes(4) [OF ok False]
    by (simp add: row_keys_def)
qed (use that [of buf] in \<open>simp add: row_keys_def\<close>)

lemma init_rows_spec:
  assumes ok: "init_ok q f vals special"
  shows "8 dvd base \<Longrightarrow> base + n * row_size_of q \<le> length buf \<Longrightarrow>
    \<exists>buf'. init_rows q f vals special (row_size_of q) (key_bytes q) base n buf = Some buf' \<and>
      same_outside base (base + n * row_size_of q) buf buf' \<and>
      (\<forall>r < n. row_inited q f vals special (base + r * row_size_of q) buf')"
proof (induction n arbitrary: base buf)
  case (Suc n)
  let ?R = "row_size_of q"
  have fits: "base + ?R \<le> length buf" using Suc.prems(2) by simp
  obtain b1 where b1: "(if keyless_hash q then Some buf
      else fill_empty_key base (getGroupbyColCount q) (getEffectiveKeyWidth q) buf) = Some b1"
    "same_outside base (base + key_bytes q) buf b1" "row_keys q base b1"
    by (rule fill_row_keys [OF ok fits])
  have len1: "length b1 = length buf" by (rule same_outside_length [OF b1(2)])
  obtain b2 where b2: "initColumnsPerRow f (base + key_bytes q) vals special b1 = Some b2"
    "same_outside (base + key_bytes q) (base + ?R) b1 b2" "row_slots f vals special base b2"
    by (rule init_slots_spec [OF ok Suc.prems(1), of b1]) (use fits len1 in auto)
  have len2: "length b2 = length buf" using same_outside_length [OF b2(2)] len1 by simp
  have here: "row_inited q f vals special base b2"
    using row_keys_local [OF ok b2(2) b1(3)] b2(3) by (simp add: row_inited_def)
  obtain b3 where b3: "init_rows q f vals special ?R (key_bytes q) (base + ?R) n b2 = Some b3"
    "same_outside (base + ?R) (base + ?R + n * ?R) b2 b3"
    "\<forall>r < n. row_inited q f vals special (base + ?R + r * ?R) b3"
    using Suc.IH [of "base + ?R" b2] Suc.prems init_ok_sizes(3) [OF ok] len2 by (auto simp: add.assoc)
  have "row_inited q f vals special (base + r * ?R) b3" if "r < Suc n" for r
  proof (cases r)
    case 0
    then show ?thesis using row_inited_local [OF ok b3(2) here] by simp
  next
    case (Suc r')
    then show ?thesis using b3(3) that by (simp add: add.assoc)
  qed
  moreover have "same_outside base (base + Suc n * ?R) buf b3"
  proof -
    have "same_outside base (base + Suc n * ?R) buf b1" using init_ok_sizes(5) [OF ok] by (intro same_outside_mono [OF b1(2)]) simp_all
    moreover have "same_outside base (base + Suc n * ?R) b1 b2" by (rule same_outside_mono [OF b2(2)]) simp_all
    moreover have "same_outside base (base + Suc n * ?R) b2 b3" by (rule same_outside_mono [OF b3(2)]) simp_all
    ultimately show ?thesis by (metis same_outside_trans)
  qed
  moreover have "init_rows q f vals special ?R (key_bytes q) base (Suc n) buf = Some b3"
    unfolding init_rows.simps b1(1) by (simp add: b2(1) b3(1))
  ultimately show ?case by blast
qed simp

text \<open>The two loops over the rows of the sample.\<close>

lemma init_cols_rows_spec:
  assumes ok: "init_ok q f vals special"
  shows "8 dvd base \<Longrightarrow> base + n * row_size_of q \<le> length buf \<Longrightarrow>
    \<exists>buf'. init_cols_rows f vals special (row_size_of q) (key_bytes q) base n buf = Some buf' \<and>
      same_outside base (base + n * row_size_of q) buf buf' \<and>
      (\<forall>r < n. row_slots f vals special (base + r * row_size_of q) buf')"
proof (induction n arbitrary: base buf)
  case (Suc n)
  let ?R = "row_size_of q"
  have fits: "base + ?R \<le> length buf" using Suc.prems(2) by simp
  obtain b2 where b2: "initColumnsPerRow f (base + key_bytes q) vals special buf = Some b2"
    "same_outside (base + key_bytes q) (base + ?R) buf b2" "row_slots f vals special base b2"
    by (rule init_slots_spec [OF ok Suc.prems(1) fits])
  obtain b3 where b3: "init_cols_rows f vals special ?R (key_bytes q) (base + ?R) n b2 = Some b3"
    "same_outside (base + ?R) (base + ?R + n * ?R) b2 b3"
    "\<forall>r < n. row_slots f vals special (base + ?R + r * ?R) b3"
    using Suc.IH [of "base + ?R" b2] Suc.prems init_ok_sizes(3) [OF ok] same_outside_length [OF b2(2)] by (auto simp: add.assoc)
  have "row_slots f vals special (base + r * ?R) b3" if "r < Suc n" for r
  proof (cases r)
    case 0
    then show ?thesis using row_slots_local [OF ok b3(2) b2(3)] by simp
  next
    case (Suc r')
    then show ?thesis using b3(3) that by (simp add: add.assoc)
  qed
  moreover have "same_outside base (base + Suc n * ?R) buf b3"
    by (rule same_outside_trans [OF same_outside_mono [OF b2(2)] same_outside_mono [OF b3(2)]]) simp_all
  ultimately show ?case using b2(1) b3(1) by auto
qed simp

lemma fill_key_rows_spec:
  assumes ok: "init_ok q f vals special" and keys: "\<not> keyless_hash q"
  shows "base + n * row_size_of q \<le> length buf \<Longrightarrow>
    \<exists>buf'. fill_key_rows (getGroupbyColCount q) (getEffectiveKeyWidth q) (row_size_of q) base n buf = Some buf' \<and>
      same_outside base (base + n * row_size_of q) buf buf' \<and>
      (\<forall>r < n. row_keys q (base + r * row_size_of q) buf' \<and>
         (row_slots f vals special (base + r * row_size_of q) buf \<longrightarrow> row_slots f vals special (base + r * row_size_of q) buf'))"
proof (induction n arbitrary: base buf)
  case (Suc n)
  let ?R = "row_size_of q"
  have fits: "base + ?R \<le> length buf" using Suc.prems by simp
  obtain b2 where b2: "fill_empty_key base (getGroupbyColCount q) (getEffectiveKeyWidth q) buf = Some b2"
    "same_outside base (base + key_bytes q) buf b2" "row_keys q base b2"
    using fill_row_keys [OF ok fits] keys by auto
  obtain b3 where b3: "fill_key_rows (getGroupbyColCount q) (getEffectiveKeyWidth q) ?R (base + ?R) n b2 = Some b3"
    "same_outside (base + ?R) (base + ?R + n * ?R) b2 b3"
    "\<forall>r < n. row_keys q (base + ?R + r * ?R) b3 \<and>
       (row_slots f vals special (base + ?R + r * ?R) b2 \<longrightarrow> row_slots f vals special (base + ?R + r * ?R) b3)"
    using Suc.IH [of "base + ?R" b2] Suc.prems same_outside_length [OF b2(2)] by (auto simp: add.assoc)
  have "row_keys q (base + r * ?R) b3 \<and> (row_slots f vals special (base + r * ?R) buf \<longrightarrow> row_slots f vals special (base + r * ?R) b3)"
    if "r < Suc n" for r
  proof (cases r)
    case 0
    then show ?thesis
      using row_keys_local [OF ok b3(2) b2(3)] init_ok_sizes(5) [OF ok]
        row_slots_local [OF ok b2(2), of base] row_slots_local [OF ok b3(2), of base] by simp
  next
    case (Suc r')
    then show ?thesis
      using b3(3) that row_slots_local [OF ok b2(2), of "base + ?R + r' * ?R"] init_ok_sizes(5) [OF ok] by (simp add: add.assoc)
  qed
  moreover have "same_outside base (base + Suc n * ?R) buf b3"
    using init_ok_sizes(5) [OF ok]
    by (intro same_outside_trans [OF same_outside_mono [OF b2(2)] same_outside_mono [OF b3(2)]]) simp_all
  ultimately show ?case using b2(1) b3(1) by auto
qed simp

end
