(* ===== verification/Group_Init_Vec.thy ===== *)
theory Group_Init_Vec
  imports Group_Init_Props
begin

text \<open>
  The vectorised initialisation: the number of rows of the sample, the periodic content that both
  versions of \<open>spread_vec_sample\<close> produce, and the rows of the buffer.
\<close>

section \<open>The number of rows of the sample\<close>

lemma trailing_zeros_pow:
  "0 < n \<Longrightarrow> \<exists>k. odd k \<and> n = 2 ^ trailing_zeros n * k"
proof (induction n rule: trailing_zeros.induct)
  case (1 n)
  show ?case
  proof (cases "odd n")
    case True
    then show ?thesis by (subst trailing_zeros.simps) auto
  next
    case False
    then have "0 < n div 2" using "1.prems" by auto
    then obtain k where k: "odd k" "n div 2 = 2 ^ trailing_zeros (n div 2) * k" using "1.IH" False "1.prems" by auto
    then have "n = 2 * (2 ^ trailing_zeros (n div 2) * k)" using False by (metis dvd_mult_div_cancel)
    then show ?thesis using k(1) False "1.prems" by (subst trailing_zeros.simps) auto
  qed
qed

lemma const_log2_64: "const_log2 64 = Some 6"
  by (simp add: const_log2.simps)

lemma num_rows_eq:
  assumes "row_size mod 64 \<noteq> 0"
  shows "get_num_rows_for_vec_sample row_size = 2 ^ (6 - trailing_zeros (row_size mod 64))"
    and "trailing_zeros (row_size mod 64) < 6"
proof -
  show "get_num_rows_for_vec_sample row_size = 2 ^ (6 - trailing_zeros (row_size mod 64))"
    using assms by (simp add: get_num_rows_for_vec_sample_def const_log2_64)
  obtain k where k: "odd k" "row_size mod 64 = 2 ^ trailing_zeros (row_size mod 64) * k"
    using trailing_zeros_pow [of "row_size mod 64"] assms by auto
  have "(2::nat) ^ trailing_zeros (row_size mod 64) \<le> row_size mod 64" using k by (metis dvd_imp_le dvd_triv_left assms not_gr_zero)
  also have "\<dots> < 2 ^ 6" by simp
  finally show "trailing_zeros (row_size mod 64) < 6" by (rule power_less_imp_less_exp [rotated]) simp
qed

text \<open>A multiple of the rows is a multiple of 64 bytes exactly when the number of rows divides it.\<close>

lemma num_rows_iff: "64 dvd row_size * m \<longleftrightarrow> get_num_rows_for_vec_sample row_size dvd m"
proof (cases "row_size mod 64 = 0")
  case True
  then show ?thesis by (auto simp: get_num_rows_for_vec_sample_def)
next
  case False
  define r where "r = row_size mod 64"
  define p where "p = trailing_zeros r"
  obtain k where k: "odd k" "r = 2 ^ p * k" using trailing_zeros_pow [of r] False by (auto simp: r_def p_def)
  have p: "p < 6" and rows: "get_num_rows_for_vec_sample row_size = 2 ^ (6 - p)"
    using num_rows_eq [OF False] by (simp_all add: p_def r_def)
  have "(64 :: nat) = 2 ^ p * 2 ^ (6 - p)" using p by (simp flip: power_add)
  moreover have "64 dvd row_size * m \<longleftrightarrow> 64 dvd r * m" unfolding r_def by (metis dvd_eq_mod_eq_0 mod_mult_left_eq)
  ultimately have "64 dvd row_size * m \<longleftrightarrow> 2 ^ p * 2 ^ (6 - p) dvd 2 ^ p * (k * m)" by (simp add: k(2) mult.assoc)
  also have "\<dots> \<longleftrightarrow> 2 ^ (6 - p) dvd k * m" by simp
  also have "\<dots> \<longleftrightarrow> 2 ^ (6 - p) dvd m" using k(1) by (intro coprime_dvd_mult_right_iff) (simp add: coprime_power_left_iff)
  finally show ?thesis by (simp add: rows)
qed

section \<open>Spreading\<close>

definition periodic :: "u8 list \<Rightarrow> nat \<Rightarrow> nat \<Rightarrow> u8 list \<Rightarrow> nat \<Rightarrow> bool" where
  "periodic buf dst n sample sample_size \<longleftrightarrow> (\<forall>i < n. buf ! (dst + i) = sample ! (i mod sample_size))"

lemma mem_copy:
  assumes "off + n \<le> length src" and "dst + n \<le> length buf"
  obtains b' where "mem_read src off n = Some (take n (drop off src))" and "mem_write buf dst (take n (drop off src)) = Some b'"
    and "same_outside dst (dst + n) buf b'" and "\<forall>i < n. b' ! (dst + i) = src ! (off + i)"
proof -
  have len: "length (take n (drop off src)) = n" using assms(1) by simp
  then obtain b' where w: "mem_write buf dst (take n (drop off src)) = Some b'" using mem_write_some assms(2) by metis
  have "b' ! (dst + i) = src ! (off + i)" if "i < n" for i
    using mem_write_nth [OF w, of "dst + i"] that assms len by simp
  then show ?thesis using that [OF mem_read_some [OF assms(1)] w] same_outside_write [OF w, of dst "dst + n"] len by simp
qed

lemma spread_default_spec:
  "0 < ss \<Longrightarrow> ss \<le> length sample \<Longrightarrow> dst + n \<le> length buf \<Longrightarrow>
     \<exists>b'. spread_vec_sample_default buf dst n sample ss = Some b' \<and> same_outside dst (dst + n) buf b' \<and> periodic b' dst n sample ss"
proof (induction buf dst n sample ss rule: spread_vec_sample_default.induct)
  case (1 buf dst n sample ss)
  show ?case
  proof (cases "ss \<le> n")
    case True
    obtain b1 where b1: "mem_read sample 0 ss = Some (take ss (drop 0 sample))" "mem_write buf dst (take ss (drop 0 sample)) = Some b1"
      "same_outside dst (dst + ss) buf b1" "\<forall>i < ss. b1 ! (dst + i) = sample ! (0 + i)"
      by (rule mem_copy [of 0 ss sample dst buf]) (use "1.prems" True in auto)
    have "dst + ss + (n - ss) \<le> length b1" using "1.prems" True same_outside_length [OF b1(3)] by simp
    from "1.IH" [OF _ True b1(1) b1(2) "1.prems"(1,2) this] "1.prems"(1)
    obtain b2 where b2: "spread_vec_sample_default b1 (dst + ss) (n - ss) sample ss = Some b2"
      "same_outside (dst + ss) (dst + ss + (n - ss)) b1 b2" "periodic b2 (dst + ss) (n - ss) sample ss" by auto
    have "b2 ! (dst + i) = sample ! (i mod ss)" if i: "i < n" for i
    proof (cases "i < ss")
      case True
      have "dst + i < length b1" using "1.prems"(3) i same_outside_length [OF b1(3)] by simp
      then have "b2 ! (dst + i) = b1 ! (dst + i)" using b2(2) True by (simp add: same_outside_def)
      then show ?thesis using b1(4) True by simp
    next
      case False
      then have "i - ss < n - ss" using i by simp
      then have "b2 ! (dst + ss + (i - ss)) = sample ! ((i - ss) mod ss)" using b2(3) by (simp only: periodic_def)
      then show ?thesis using False by (simp add: le_mod_geq)
    qed
    moreover have "same_outside dst (dst + n) buf b2"
      by (rule same_outside_trans [OF same_outside_mono [OF b1(3)] same_outside_mono [OF b2(2)]]) (use True in simp_all)
    moreover have "spread_vec_sample_default buf dst n sample ss = Some b2"
      using "1.prems"(1) True b1(1,2) b2(1) by (subst spread_vec_sample_default.simps) simp
    ultimately show ?thesis by (simp add: periodic_def)
  next
    case False
    obtain b1 where b1: "mem_read sample 0 n = Some (take n (drop 0 sample))" "mem_write buf dst (take n (drop 0 sample)) = Some b1"
      "same_outside dst (dst + n) buf b1" "\<forall>i < n. b1 ! (dst + i) = sample ! (0 + i)"
      by (rule mem_copy [of 0 n sample dst buf]) (use "1.prems" False in auto)
    then show ?thesis using False "1.prems"(1) by (subst spread_vec_sample_default.simps) (simp add: periodic_def)
  qed
qed

lemma copy_vecs_spec:
  "dst + 64 * (i + m) \<le> length buf \<Longrightarrow> a + 64 * (i + m) \<le> length sample \<Longrightarrow>
     \<exists>b'. copy_vecs buf dst sample a i m = Some b' \<and> same_outside (dst + 64 * i) (dst + 64 * (i + m)) buf b' \<and>
       (\<forall>j. 64 * i \<le> j \<longrightarrow> j < 64 * (i + m) \<longrightarrow> b' ! (dst + j) = sample ! (a + j))"
proof (induction m arbitrary: i buf)
  case (Suc m)
  obtain b1 where b1: "mem_read sample (a + 64 * i) 64 = Some (take 64 (drop (a + 64 * i) sample))"
    "mem_write buf (dst + 64 * i) (take 64 (drop (a + 64 * i) sample)) = Some b1"
    "same_outside (dst + 64 * i) (dst + 64 * i + 64) buf b1" "\<forall>k < 64. b1 ! (dst + 64 * i + k) = sample ! (a + 64 * i + k)"
    by (rule mem_copy [of "a + 64 * i" 64 sample "dst + 64 * i" buf]) (use Suc.prems in auto)
  obtain b2 where b2: "copy_vecs b1 dst sample a (Suc i) m = Some b2"
    "same_outside (dst + 64 * Suc i) (dst + 64 * (Suc i + m)) b1 b2"
    "\<forall>j. 64 * Suc i \<le> j \<longrightarrow> j < 64 * (Suc i + m) \<longrightarrow> b2 ! (dst + j) = sample ! (a + j)"
    using Suc.IH [of "Suc i" b1] Suc.prems same_outside_length [OF b1(3)] by auto
  have "b2 ! (dst + j) = sample ! (a + j)" if j: "64 * i \<le> j" "j < 64 * (i + Suc m)" for j
  proof (cases "j < 64 * Suc i")
    case True
    have "dst + j < length b1" using Suc.prems(1) j same_outside_length [OF b1(3)] by simp
    then have "b2 ! (dst + j) = b1 ! (dst + j)" using b2(2) True by (simp add: same_outside_def)
    then show ?thesis using b1(4) [rule_format, of "j - 64 * i"] True j by simp
  next
    case False
    then show ?thesis using b2(3) j by simp
  qed
  moreover have "same_outside (dst + 64 * i) (dst + 64 * (i + Suc m)) buf b2"
    by (rule same_outside_trans [OF same_outside_mono [OF b1(3)] same_outside_mono [OF b2(2)]]) simp_all
  ultimately show ?case using b1(1,2) b2(1) by auto
qed simp

lemma spread_vecs_spec:
  assumes ss: "0 < ss" "64 dvd ss" and a: "a + ss \<le> length sample"
  shows "dst + k * ss \<le> length buf \<Longrightarrow>
     \<exists>b'. spread_vecs buf dst (dst + k * ss) sample a ss = Some b' \<and> same_outside dst (dst + k * ss) buf b' \<and>
       (\<forall>j < k * ss. b' ! (dst + j) = sample ! (a + j mod ss))"
proof (induction k arbitrary: dst buf)
  case 0
  then show ?case using ss by (subst spread_vecs.simps) simp
next
  case (Suc k)
  have ss64: "64 * (ss div 64) = ss" using ss(2) by simp
  obtain b1 where b1: "copy_vecs buf dst sample a 0 (ss div 64) = Some b1" "same_outside dst (dst + ss) buf b1"
    "\<forall>j < ss. b1 ! (dst + j) = sample ! (a + j)"
    using copy_vecs_spec [of dst 0 "ss div 64" buf a sample] Suc.prems a ss64 by auto
  obtain b2 where b2: "spread_vecs b1 (dst + ss) (dst + ss + k * ss) sample a ss = Some b2"
    "same_outside (dst + ss) (dst + ss + k * ss) b1 b2" "\<forall>j < k * ss. b2 ! (dst + ss + j) = sample ! (a + j mod ss)"
    using Suc.IH [of "dst + ss" b1] Suc.prems same_outside_length [OF b1(2)] by (auto simp: add.assoc)
  have "b2 ! (dst + j) = sample ! (a + j mod ss)" if j: "j < Suc k * ss" for j
  proof (cases "j < ss")
    case True
    have "dst + j < length b1" using Suc.prems j same_outside_length [OF b1(2)] by simp
    then have "b2 ! (dst + j) = b1 ! (dst + j)" using b2(2) True by (simp add: same_outside_def)
    then show ?thesis using b1(3) True by simp
  next
    case False
    then have "j - ss < k * ss" using j by simp
    then have "b2 ! (dst + ss + (j - ss)) = sample ! (a + (j - ss) mod ss)" using b2(3) by (simp only:)
    then show ?thesis using False by (simp add: le_mod_geq)
  qed
  moreover have "same_outside dst (dst + Suc k * ss) buf b2"
    by (rule same_outside_trans [OF same_outside_mono [OF b1(2)] same_outside_mono [OF b2(2)]]) simp_all
  moreover have "spread_vecs buf dst (dst + Suc k * ss) sample a ss = Some b2"
    using ss(1) b1(1) b2(1) by (subst spread_vecs.simps) (simp add: add.assoc)
  ultimately show ?case by blast
qed

text \<open>The 64 bytes behind the sample repeat its start.\<close>

definition wraps :: "u8 list \<Rightarrow> nat \<Rightarrow> bool" where
  "wraps sample ss \<longleftrightarrow> ss + 64 \<le> length sample \<and> (\<forall>j < 64. sample ! (ss + j) = sample ! j)"

lemma wraps_shift:
  assumes "wraps sample ss" and "a < 64" and "64 \<le> ss"
  shows "sample ! (a + j mod ss) = sample ! ((a + j) mod ss)"
proof -
  have lt: "j mod ss < ss" using assms(3) by simp
  show ?thesis
  proof (cases "a + j mod ss < ss")
    case True
    then have "(a + j) mod ss = a + j mod ss" by (metis mod_add_right_eq mod_less)
    then show ?thesis by simp
  next
    case False
    have "(a + j) mod ss = (a + j mod ss) mod ss" by (simp add: mod_add_right_eq)
    also have "\<dots> = (a + j mod ss - ss) mod ss" using False by (intro le_mod_geq) simp
    also have "\<dots> = a + j mod ss - ss" using assms(2,3) lt by (intro mod_less) linarith
    finally have "(a + j) mod ss = a + j mod ss - ss" .
    moreover have "a + j mod ss - ss < 64" using assms(2) lt by linarith
    then have "sample ! (ss + (a + j mod ss - ss)) = sample ! (a + j mod ss - ss)" using assms(1) by (simp only: wraps_def)
    ultimately show ?thesis using False by simp
  qed
qed

lemma spread_avx512_spec:
  assumes wr: "wraps sample ss" and ss: "64 dvd ss" "0 < ss" and n: "64 \<le> n" "n \<le> length buf"
  shows "\<exists>b'. spread_vec_sample_avx512 addr buf n sample ss = Some b' \<and> same_outside 0 n buf b' \<and> periodic b' 0 n sample ss"
proof -
  define a where "a = (64 - addr mod 64) mod 64"
  have a: "a < 64" by (simp add: a_def)
  have ss64: "64 \<le> ss" using ss by (auto dest: dvd_imp_le)
  have len: "ss + 64 \<le> length sample" using wr by (simp add: wraps_def)
  define k where "k = (n - a) div ss"
  define t where "t = (n - a) mod ss"
  have split: "n - a = k * ss + t" by (simp add: k_def t_def)
  have tot: "a + k * ss + t = n" using split a n(1) by simp
  have t: "t < ss" using ss(2) by (simp add: t_def)
  obtain b1 where b1: "mem_read sample 0 a = Some (take a (drop 0 sample))" "mem_write buf 0 (take a (drop 0 sample)) = Some b1"
    "same_outside 0 (0 + a) buf b1" "\<forall>i < a. b1 ! (0 + i) = sample ! (0 + i)"
    by (rule mem_copy [of 0 a sample 0 buf]) (use a n len in auto)
  have len1: "length b1 = length buf" by (rule same_outside_length [OF b1(3)])
  obtain b2 where b2: "spread_vecs b1 a (a + k * ss) sample a ss = Some b2" "same_outside a (a + k * ss) b1 b2"
    "\<forall>j < k * ss. b2 ! (a + j) = sample ! (a + j mod ss)"
    using spread_vecs_spec [OF ss(2,1), of a sample a k b1] a len len1 tot n(2) by auto
  have len2: "length b2 = length buf" using same_outside_length [OF b2(2)] len1 by simp
  obtain b3 where b3: "mem_read sample a t = Some (take t (drop a sample))" "mem_write b2 (a + k * ss) (take t (drop a sample)) = Some b3"
    "same_outside (a + k * ss) (a + k * ss + t) b2 b3" "\<forall>i < t. b3 ! (a + k * ss + i) = sample ! (a + i)"
    by (rule mem_copy [of a t sample "a + k * ss" b2]) (use a len t len2 tot n in auto)
  have res: "spread_vec_sample_avx512 addr buf n sample ss = Some b3"
    unfolding spread_vec_sample_avx512_def Let_def a_def [symmetric] t_def [symmetric]
    using a n(1) ss(2) b1(1,2) b2(1) b3(1,2) split by simp
  have "same_outside 0 n buf b3"
    by (rule same_outside_trans [OF same_outside_trans [OF same_outside_mono [OF b1(3)] same_outside_mono [OF b2(2)]] same_outside_mono [OF b3(3)]])
       (use tot in simp_all)
  moreover have "b3 ! i = sample ! (i mod ss)" if i: "i < n" for i
  proof -
    have il: "i < length buf" using i n(2) by simp
    consider "i < a" | "a \<le> i" "i < a + k * ss" | "a + k * ss \<le> i" by linarith
    then show ?thesis
    proof cases
      case 1
      then have "b3 ! i = b1 ! i" using b2(2) b3(3) il len1 len2 by (simp add: same_outside_def)
      then show ?thesis using b1(4) 1 a ss64 by simp
    next
      case 2
      then have "b3 ! i = b2 ! (a + (i - a))" using b3(3) il len2 by (simp add: same_outside_def)
      also have "i - a < k * ss" using 2 by simp
      then have "b2 ! (a + (i - a)) = sample ! (a + (i - a) mod ss)" using b2(3) by (simp only:)
      finally show ?thesis using wraps_shift [OF wr a ss64, of "i - a"] 2 by simp
    next
      case 3
      define x where "x = i - (a + k * ss)"
      have x: "i = a + k * ss + x" "x < t" using 3 i tot by (simp_all add: x_def)
      have "b3 ! i = sample ! (a + x mod ss)" using b3(4) x t by simp
      also have "\<dots> = sample ! ((a + x) mod ss)" by (rule wraps_shift [OF wr a ss64])
      also have "i = a + x + k * ss" using x(1) by simp
      then have "(a + x) mod ss = i mod ss" by simp
      finally show ?thesis .
    qed
  qed
  ultimately show ?thesis using res by (auto simp: periodic_def)
qed

section \<open>The whole buffer\<close>

lemma row_inited_copy:
  assumes ok: "init_ok q f vals special" and src: "row_inited q f vals special x s"
    and bounds: "x + row_size_of q \<le> length s" "y + row_size_of q \<le> length b"
    and same: "\<forall>t < row_size_of q. b ! (y + t) = s ! (x + t)"
  shows "row_inited q f vals special y b"
proof -
  have read: "mem_read b (y + a) n = mem_read s (x + a) n" if "a + n \<le> row_size_of q" for a n
    using that bounds same by (auto simp: mem_read_def add.assoc intro!: nth_equalityI)
  note f = fixup_layout [OF ok]
  have slots: "mem_read b (y + key_bytes f + slot_off (q_widths f) j) (q_widths f ! j) =
      mem_read s (x + key_bytes f + slot_off (q_widths f) j) (q_widths f ! j)" if "j < length (q_widths f)" for j
    using read [of "key_bytes f + slot_off (q_widths f) j" "q_widths f ! j"] slot_off_inside [OF that] f(2,5) by (simp add: add.assoc)
  have keys: "mem_read b (y + k * getEffectiveKeyWidth q) (getEffectiveKeyWidth q) =
      mem_read s (x + k * getEffectiveKeyWidth q) (getEffectiveKeyWidth q)" if "k < getGroupbyColCount q" "\<not> keyless_hash q" for k
    using entry_inside [OF that(1), of "getEffectiveKeyWidth q" "getEffectiveKeyWidth q"] init_ok_sizes(4,5) [OF ok] that(2)
    by (intro read) simp
  show ?thesis using src slots keys by (simp add: row_inited_def row_slots_def row_keys_def)
qed

lemma vec_sample_spec:
  assumes ok: "init_ok q f vals special" and pos: "0 < row_size_of q"
  defines "k \<equiv> get_num_rows_for_vec_sample (row_size_of q)"
  defines "ss \<equiv> row_size_of q * k"
  obtains sample where "vec_sample_of q f vals special (row_size_of q) (key_bytes q) k = Some sample"
    and "wraps sample ss" and "64 dvd ss" and "0 < ss" and "\<forall>r < k. row_inited q f vals special (r * row_size_of q) sample"
proof -
  have dvd: "64 dvd ss" unfolding ss_def num_rows_iff by (simp add: k_def)
  have "0 < k" using num_rows_eq(1) [of "row_size_of q"] unfolding k_def
    by (cases "row_size_of q mod 64 = 0") (simp_all add: get_num_rows_for_vec_sample_def)
  then have ss: "0 < ss" using pos by (simp add: ss_def)
  then have ss64: "64 \<le> ss" using dvd by (auto dest: dvd_imp_le)
  obtain b1 where b1: "init_cols_rows f vals special (row_size_of q) (key_bytes q) 0 k (replicate (ss + 64) 0) = Some b1"
    "length b1 = ss + 64" "\<forall>r < k. row_slots f vals special (r * row_size_of q) b1"
    using init_cols_rows_spec [OF ok, of 0 k "replicate (ss + 64) 0"] by (auto simp: ss_def same_outside_def mult.commute)
  obtain b2 where b2: "(if keyless_hash q then Some b1
        else fill_key_rows (getGroupbyColCount q) (getEffectiveKeyWidth q) (row_size_of q) 0 k b1) = Some b2"
    "length b2 = ss + 64" "\<forall>r < k. row_inited q f vals special (r * row_size_of q) b2"
  proof (cases "keyless_hash q")
    case True
    then show ?thesis using that [of b1] b1 by (simp add: row_inited_def row_keys_def)
  next
    case False
    have "0 + k * row_size_of q \<le> length b1" using b1(2) by (simp add: ss_def mult.commute)
    from fill_key_rows_spec [OF ok False this] show ?thesis
      using that b1(2,3) False by (auto simp: row_inited_def same_outside_def)
  qed
  obtain b3 where b3: "mem_read b2 0 64 = Some (take 64 (drop 0 b2))" "mem_write b2 ss (take 64 (drop 0 b2)) = Some b3"
    "same_outside ss (ss + 64) b2 b3" "\<forall>i < 64. b3 ! (ss + i) = b2 ! (0 + i)"
    by (rule mem_copy [of 0 64 b2 ss b2]) (use b2(2) ss64 in auto)
  have "vec_sample_of q f vals special (row_size_of q) (key_bytes q) k = Some b3"
    unfolding vec_sample_of_def Let_def ss_def [symmetric] b1(1) bind.bind_lunit b2(1) b3(1) by (rule b3(2))
  moreover have "wraps b3 ss"
    using b3(3,4) b2(2) ss64 by (simp add: wraps_def same_outside_def)
  moreover have "row_inited q f vals special (r * row_size_of q) b3" if "r < k" for r
    using row_inited_local [OF ok b3(3)] b2(3) that entry_inside [OF that, of "row_size_of q" "row_size_of q"]
    by (simp add: ss_def mult.commute)
  ultimately show ?thesis using that dvd ss by blast
qed

text \<open>Every row of a periodic buffer is a row of the sample.\<close>

lemma periodic_rows:
  assumes ok: "init_ok q f vals special" and pos: "0 < row_size_of q" and k: "0 < k"
    and per: "periodic b 0 (rows * row_size_of q) sample (row_size_of q * k)" and len: "rows * row_size_of q \<le> length b"
    and slen: "row_size_of q * k \<le> length sample" and src: "\<forall>r < k. row_inited q f vals special (r * row_size_of q) sample"
    and r: "r < rows"
  shows "row_inited q f vals special (r * row_size_of q) b"
proof (rule row_inited_copy [OF ok])
  let ?R = "row_size_of q"
  show "row_inited q f vals special ((r mod k) * ?R) sample" using src k by simp
  show "r mod k * ?R + ?R \<le> length sample"
    using entry_inside [of "r mod k" k ?R ?R] k slen by (simp add: mult.commute)
  show "r * ?R + ?R \<le> length b" using entry_inside [OF r, of ?R ?R] len by simp
  have "b ! (r * ?R + t) = sample ! ((r mod k) * ?R + t)" if t: "t < ?R" for t
  proof -
    have "r * ?R + t < rows * ?R" using entry_inside [OF r, of "Suc t" ?R] t by simp
    then have "b ! (r * ?R + t) = sample ! ((r * ?R + t) mod (?R * k))" using per by (simp add: periodic_def)
    also have "(r * ?R + t) mod (?R * k) = ?R * ((r * ?R + t) div ?R mod k) + (r * ?R + t) mod ?R" by (rule mod_mult2_eq)
    finally show ?thesis using t by (simp add: mult.commute)
  qed
  then show "\<forall>t < ?R. b ! (r * ?R + t) = sample ! (r mod k * ?R + t)" by blast
qed

lemma initRowGroups_rows:
  assumes ok: "init_ok q f vals special" and pos: "0 < row_size_of q"
    and warp: "1 \<le> warp_size" "getGroupbyColCount q = 1 \<or> warp_size = 1" "\<not> keyless_hash q \<Longrightarrow> warp_size = 1"
    and len: "n * warp_size * row_size_of q \<le> length buf"
  shows "\<exists>buf'. initRowGroups avx512 opt addr q vals special n warp_size buf = Some buf' \<and> length buf' = length buf \<and>
           (\<forall>r < n * warp_size. row_inited q f vals special (r * row_size_of q) buf')"
proof -
  let ?R = "row_size_of q"
  have fix': "fixupQueryMemoryDescriptor q = Some f" using ok by (simp add: init_ok_def)
  have rows: "(if keyless_hash q then n * warp_size else n) = n * warp_size" using warp(3) by simp
  define k where "k = get_num_rows_for_vec_sample ?R"
  have guard: "\<not> (keyless_hash q \<and> \<not> (1 \<le> warp_size \<and> (getGroupbyColCount q = 1 \<or> warp_size = 1)))" using warp by blast
  note unf = initRowGroups_def Let_def init_ok_sizes(1,2) [OF ok] fix' bind.bind_lunit rows k_def [symmetric]
  show ?thesis
  proof (cases "list_all (\<lambda>x. x = Plain) special \<and> opt \<and> useVectorRowGroupsInit ?R (n * warp_size)")
    case False
    obtain buf' where "init_rows q f vals special ?R (key_bytes q) 0 (n * warp_size) buf = Some buf'"
      "length buf' = length buf" "\<forall>r < n * warp_size. row_inited q f vals special (r * ?R) buf'"
      using init_rows_spec [OF ok, of 0 "n * warp_size" buf] len by (auto simp: same_outside_def)
    then show ?thesis unfolding unf if_not_P [OF guard] if_not_P [OF False] by simp
  next
    case True
    obtain sample where s: "vec_sample_of q f vals special ?R (key_bytes q) k = Some sample"
      "wraps sample (?R * k)" "64 dvd ?R * k" "0 < ?R * k" "\<forall>r < k. row_inited q f vals special (r * ?R) sample"
      using vec_sample_spec [OF ok pos] unfolding k_def by blast
    have k: "0 < k" using s(4) by simp
    have "3 < n * warp_size div k" using True by (simp add: useVectorRowGroupsInit_def k_def)
    then have "k \<le> n * warp_size" by (metis div_less linorder_not_less not_less_zero)
    then have "?R * k \<le> n * warp_size * ?R" by (simp add: mult.commute)
    then have n64: "64 \<le> n * warp_size * ?R" using s(3,4) by (meson dvd_imp_le order_trans)
    have slen: "?R * k \<le> length sample" using s(2) by (simp add: wraps_def)
    obtain buf' where b: "(if avx512 then spread_vec_sample_avx512 addr buf (n * warp_size * ?R) sample (?R * k)
        else spread_vec_sample_default buf 0 (n * warp_size * ?R) sample (?R * k)) = Some buf'"
      "length buf' = length buf" "periodic buf' 0 (n * warp_size * ?R) sample (?R * k)"
      using spread_avx512_spec [OF s(2,3,4) n64 len, of addr] spread_default_spec [OF s(4) slen, of 0 "n * warp_size * ?R" buf] len
      by (cases avx512) (auto simp: same_outside_def)
    have "\<forall>r < n * warp_size. row_inited q f vals special (r * ?R) buf'"
      using periodic_rows [OF ok pos k b(3) _ slen s(5)] len b(2) by simp
    then show ?thesis unfolding unf if_not_P [OF guard] if_P [OF True] s(1) bind.bind_lunit using b(1,2) by simp
  qed
qed

end
