(* ===== verification/Agg_Functions.thy ===== *)
theory Agg_Functions
  imports Group_By
begin

text \<open>
  The null-aware operators and the aggregates of \<open>QueryEngine/RuntimeFunctions.cpp\<close> on integers,
  and the HyperLogLog registers of \<open>HyperLogLog.h\<close>.  A value of an \<open>int<w>_t\<close> is an integer of its
  range; \<open>None\<close> is undefined behaviour (signed overflow, division by zero, an access outside a
  buffer).  An aggregate is a function of the slot it updates.
\<close>

section \<open>Null-aware operators\<close>

definition int_range :: "nat \<Rightarrow> int \<Rightarrow> bool" where
  "int_range w v \<longleftrightarrow> - (2 ^ (w - 1)) \<le> v \<and> v < 2 ^ (w - 1)"

text \<open>
  The value of an operator on \<open>int<w>_t\<close>: 8- and 16-bit operands are promoted to \<open>int\<close> and the
  result is converted back, on 32 and 64 bits an overflow is undefined.
\<close>

definition arith_result :: "nat \<Rightarrow> int \<Rightarrow> int option" where
  "arith_result w v =
     (if w < 32 then Some (signed_take_bit (w - 1) v)
      else if int_range w v then Some v else None)"

datatype arith_op = Add | Sub | Mul | Div | Mod

fun arith_value :: "arith_op \<Rightarrow> int \<Rightarrow> int \<Rightarrow> int option" where
  "arith_value Add a b = Some (a + b)"
| "arith_value Sub a b = Some (a - b)"
| "arith_value Mul a b = Some (a * b)"
| "arith_value Div a b = (if b = 0 then None else Some (a sdiv b))"
| "arith_value Mod a b = (if b = 0 then None else Some (a smod b))"

definition arith :: "nat \<Rightarrow> arith_op \<Rightarrow> int \<Rightarrow> int \<Rightarrow> int option" where
  "arith w f lhs rhs = do { v \<leftarrow> arith_value f lhs rhs; arith_result w v }"

definition arith_nullable :: "nat \<Rightarrow> arith_op \<Rightarrow> int \<Rightarrow> int \<Rightarrow> int \<Rightarrow> int option" where
  "arith_nullable w f lhs rhs null_val =
     (if lhs \<noteq> null_val \<and> rhs \<noteq> null_val then arith w f lhs rhs else Some null_val)"

definition arith_nullable_lhs :: "nat \<Rightarrow> arith_op \<Rightarrow> int \<Rightarrow> int \<Rightarrow> int \<Rightarrow> int option" where
  "arith_nullable_lhs w f lhs rhs null_val =
     (if lhs \<noteq> null_val then arith w f lhs rhs else Some null_val)"

definition arith_nullable_rhs :: "nat \<Rightarrow> arith_op \<Rightarrow> int \<Rightarrow> int \<Rightarrow> int \<Rightarrow> int option" where
  "arith_nullable_rhs w f lhs rhs null_val =
     (if rhs \<noteq> null_val then arith w f lhs rhs else Some null_val)"

definition safe_div :: "nat \<Rightarrow> int \<Rightarrow> int \<Rightarrow> int \<Rightarrow> int option" where
  "safe_div w lhs rhs null_val =
     (if lhs \<noteq> null_val \<and> rhs \<noteq> null_val \<and> rhs \<noteq> 0 then arith w Div lhs rhs else Some null_val)"

datatype cmp_op = Eq | Ne | Lt | Gt | Le | Ge

fun cmp_value :: "cmp_op \<Rightarrow> int \<Rightarrow> int \<Rightarrow> bool" where
  "cmp_value Eq a b = (a = b)"
| "cmp_value Ne a b = (a \<noteq> b)"
| "cmp_value Lt a b = (a < b)"
| "cmp_value Gt a b = (a > b)"
| "cmp_value Le a b = (a \<le> b)"
| "cmp_value Ge a b = (a \<ge> b)"

definition cmp_nullable :: "cmp_op \<Rightarrow> int \<Rightarrow> int \<Rightarrow> int \<Rightarrow> int \<Rightarrow> int" where
  "cmp_nullable f lhs rhs null_val null_bool_val =
     (if lhs \<noteq> null_val \<and> rhs \<noteq> null_val then of_bool (cmp_value f lhs rhs) else null_bool_val)"

definition cmp_nullable_lhs :: "cmp_op \<Rightarrow> int \<Rightarrow> int \<Rightarrow> int \<Rightarrow> int \<Rightarrow> int" where
  "cmp_nullable_lhs f lhs rhs null_val null_bool_val =
     (if lhs \<noteq> null_val then of_bool (cmp_value f lhs rhs) else null_bool_val)"

definition cmp_nullable_rhs :: "cmp_op \<Rightarrow> int \<Rightarrow> int \<Rightarrow> int \<Rightarrow> int \<Rightarrow> int" where
  "cmp_nullable_rhs f lhs rhs null_val null_bool_val =
     (if rhs \<noteq> null_val then of_bool (cmp_value f lhs rhs) else null_bool_val)"

definition uminus_nullable :: "nat \<Rightarrow> int \<Rightarrow> int \<Rightarrow> int option" where
  "uminus_nullable w operand null_val = (if operand = null_val then Some null_val else arith_result w (- operand))"

definition cast_nullable :: "nat \<Rightarrow> int \<Rightarrow> int \<Rightarrow> int \<Rightarrow> int" where
  "cast_nullable to_w operand from_null_val to_null_val =
     (if operand = from_null_val then to_null_val else signed_take_bit (to_w - 1) operand)"

section \<open>Decimals and floor division\<close>

text \<open>The product of an \<open>int64_t\<close> and a \<open>uint64_t\<close> is taken modulo \<open>2^64\<close>.\<close>

definition scale_decimal_up :: "int \<Rightarrow> int \<Rightarrow> int \<Rightarrow> int \<Rightarrow> int" where
  "scale_decimal_up operand scale operand_null_val result_null_val =
     (if operand \<noteq> operand_null_val then signed_take_bit 63 (operand * scale) else result_null_val)"

definition scale_decimal_down_not_nullable :: "int \<Rightarrow> int \<Rightarrow> int option" where
  "scale_decimal_down_not_nullable operand scale =
     do {
       let tmp = scale div 2;
       tmp \<leftarrow> chk64 (if 0 \<le> operand then operand + tmp else operand - tmp);
       if scale = 0 then None else chk64 (tmp sdiv scale)
     }"

definition scale_decimal_down_nullable :: "int \<Rightarrow> int \<Rightarrow> int \<Rightarrow> int option" where
  "scale_decimal_down_nullable operand scale null_val =
     (if operand = null_val then Some null_val
      else do {
        let tmp = scale div 2;
        tmp \<leftarrow> chk64 (if 0 \<le> operand then operand + tmp else operand - tmp);
        if scale = 0 then None else chk64 (tmp sdiv scale)
      })"

definition floor_div_lhs :: "int \<Rightarrow> int \<Rightarrow> int option" where
  "floor_div_lhs dividend divisor =
     do {
       d \<leftarrow> (if dividend < 0 then do { d1 \<leftarrow> chk64 (divisor - 1); chk64 (dividend - d1) } else Some dividend);
       if divisor = 0 then None else chk64 (d sdiv divisor)
     }"

definition floor_div_nullable_lhs :: "int \<Rightarrow> int \<Rightarrow> int \<Rightarrow> int option" where
  "floor_div_nullable_lhs dividend divisor null_val =
     (if dividend = null_val then Some null_val else floor_div_lhs dividend divisor)"

section \<open>Three-valued logic\<close>

definition logical_not :: "int \<Rightarrow> int \<Rightarrow> int" where
  "logical_not operand null_val = (if operand = null_val then operand else if operand \<noteq> 0 then 0 else 1)"

definition logical_and :: "int \<Rightarrow> int \<Rightarrow> int \<Rightarrow> int" where
  "logical_and lhs rhs null_val =
     (if lhs = null_val then if rhs = 0 then rhs else null_val
      else if rhs = null_val then if lhs = 0 then lhs else null_val
      else if lhs \<noteq> 0 \<and> rhs \<noteq> 0 then 1 else 0)"

definition logical_or :: "int \<Rightarrow> int \<Rightarrow> int \<Rightarrow> int" where
  "logical_or lhs rhs null_val =
     (if lhs = null_val then if rhs = 0 then null_val else rhs
      else if rhs = null_val then if lhs = 0 then null_val else lhs
      else if lhs \<noteq> 0 \<or> rhs \<noteq> 0 then 1 else 0)"

section \<open>Aggregates\<close>

text \<open>The aggregates that return the old value give the pair of the new slot and the result.\<close>

definition agg_count :: "u64 \<Rightarrow> u64 \<times> u64" where
  "agg_count agg = (agg + 1, agg)"

definition agg_count_int32 :: "u32 \<Rightarrow> u32 \<times> u32" where
  "agg_count_int32 agg = (agg + 1, agg)"

definition agg_sum :: "int \<Rightarrow> int \<Rightarrow> (int \<times> int) option" where
  "agg_sum agg val = (if int_range 64 (agg + val) then Some (agg + val, agg) else None)"

definition agg_sum_int32 :: "int \<Rightarrow> int \<Rightarrow> (int \<times> int) option" where
  "agg_sum_int32 agg val = (if int_range 32 (agg + val) then Some (agg + val, agg) else None)"

text \<open>The maximum, minimum and identity are the same function at every width.\<close>

definition agg_max :: "int \<Rightarrow> int \<Rightarrow> int" where "agg_max agg val = max agg val"

definition agg_min :: "int \<Rightarrow> int \<Rightarrow> int" where "agg_min agg val = min agg val"

definition agg_id :: "int \<Rightarrow> int \<Rightarrow> int" where "agg_id agg val = val"

definition checked_single_agg_id :: "int \<Rightarrow> int \<Rightarrow> int \<Rightarrow> int \<times> int" where
  "checked_single_agg_id agg val null_val =
     (if val = null_val then (agg, 0)
      else if agg = val then (agg, 0)
      else if agg = null_val then (val, 0)
      else (agg, 15))"

definition agg_sum_skip_val :: "int \<Rightarrow> int \<Rightarrow> int \<Rightarrow> (int \<times> int) option" where
  "agg_sum_skip_val agg val skip_val =
     (if val \<noteq> skip_val
      then if agg \<noteq> skip_val then agg_sum agg val else Some (val, agg)
      else Some (agg, agg))"

definition agg_sum_int32_skip_val :: "int \<Rightarrow> int \<Rightarrow> int \<Rightarrow> (int \<times> int) option" where
  "agg_sum_int32_skip_val agg val skip_val =
     (if val \<noteq> skip_val
      then if agg \<noteq> skip_val then agg_sum_int32 agg val else Some (val, agg)
      else Some (agg, agg))"

definition agg_count_skip_val :: "u64 \<Rightarrow> int \<Rightarrow> int \<Rightarrow> u64 \<times> u64" where
  "agg_count_skip_val agg val skip_val = (if val \<noteq> skip_val then agg_count agg else (agg, agg))"

definition agg_count_int32_skip_val :: "u32 \<Rightarrow> int \<Rightarrow> int \<Rightarrow> u32 \<times> u32" where
  "agg_count_int32_skip_val agg val skip_val = (if val \<noteq> skip_val then agg_count_int32 agg else (agg, agg))"

definition agg_max_skip_val :: "int \<Rightarrow> int \<Rightarrow> int \<Rightarrow> int" where
  "agg_max_skip_val agg val skip_val =
     (if val \<noteq> skip_val then if agg \<noteq> skip_val then agg_max agg val else val else agg)"

definition agg_min_skip_val :: "int \<Rightarrow> int \<Rightarrow> int \<Rightarrow> int" where
  "agg_min_skip_val agg val skip_val =
     (if val \<noteq> skip_val then if agg \<noteq> skip_val then agg_min agg val else val else agg)"

definition write_projection :: "int \<Rightarrow> int \<Rightarrow> int \<Rightarrow> int" where
  "write_projection slot val init_val = (if val \<noteq> init_val then val else slot)"

text \<open>The loop counter is an \<open>int\<close>; values of \<open>2^31\<close> bytes and more are outside the model.\<close>

fun agg_id_varlen_loop :: "nat \<Rightarrow> nat \<Rightarrow> nat \<Rightarrow> u8 list \<Rightarrow> u8 list \<Rightarrow> u8 list option" where
  "agg_id_varlen_loop 0 i offset value varlen_buffer = Some varlen_buffer"
| "agg_id_varlen_loop (Suc m) i offset value varlen_buffer =
     (if i < length value \<and> offset + i < length varlen_buffer
      then agg_id_varlen_loop m (Suc i) offset value (varlen_buffer[offset + i := value ! i]) else None)"

definition agg_id_varlen :: "u8 list \<Rightarrow> int \<Rightarrow> u8 list \<Rightarrow> int \<Rightarrow> (u8 list \<times> nat) option" where
  "agg_id_varlen varlen_buffer offset value size_bytes =
     (if offset < 0 \<or> 2 ^ 31 \<le> size_bytes then None
      else map_option (\<lambda>b. (b, nat offset)) (agg_id_varlen_loop (nat size_bytes) 0 (nat offset) value varlen_buffer))"

section \<open>Count distinct\<close>

text \<open>The bitmap the slot points to; the index is a \<open>uint64_t\<close>.\<close>

definition agg_count_distinct_bitmap :: "u8 list \<Rightarrow> int \<Rightarrow> int \<Rightarrow> u8 list option" where
  "agg_count_distinct_bitmap bitmap val min_val =
     do {
       d \<leftarrow> chk64 (val - min_val);
       let bitmap_idx = nat (d mod 2 ^ 64);
       if bitmap_idx div 8 < length bitmap
       then Some (bitmap[bitmap_idx div 8 := bitmap ! (bitmap_idx div 8) OR 2 ^ (bitmap_idx mod 8)])
       else None
     }"

definition agg_count_distinct_bitmap_skip_val :: "u8 list \<Rightarrow> int \<Rightarrow> int \<Rightarrow> int \<Rightarrow> u8 list option" where
  "agg_count_distinct_bitmap_skip_val bitmap val min_val skip_val =
     (if val \<noteq> skip_val then agg_count_distinct_bitmap bitmap val min_val else Some bitmap)"

text \<open>The bitset is \<open>None\<close> when the pointer is null.\<close>

definition bit_is_set :: "u8 list option \<Rightarrow> int \<Rightarrow> int \<Rightarrow> int \<Rightarrow> int \<Rightarrow> int \<Rightarrow> int option" where
  "bit_is_set bitset val min_val max_val null_val null_bool_val =
     (if val = null_val then Some null_bool_val
      else if val < min_val \<or> max_val < val then Some 0
      else case bitset of
        None \<Rightarrow> Some 0
      | Some bitmap \<Rightarrow>
          do {
            d \<leftarrow> chk64 (val - min_val);
            let bitmap_idx = nat (d mod 2 ^ 64);
            if bitmap_idx div 8 < length bitmap
            then Some (if bitmap ! (bitmap_idx div 8) AND 2 ^ (bitmap_idx mod 8) \<noteq> 0 then 1 else 0)
            else None
          })"

section \<open>HyperLogLog\<close>

text \<open>
  The registers are bytes; their values are ranks, at most 65, so natural numbers model both the
  unsigned and the signed readings of them.  \<open>clz64\<close> is the number of leading zero bits of a
  64-bit word that is not zero.
\<close>

definition clz64 :: "u64 \<Rightarrow> nat" where
  "clz64 x = length (takeWhile (\<lambda>i. \<not> bit x i) (rev [0..<64]))"

definition get_rank :: "u64 \<Rightarrow> nat \<Rightarrow> nat" where
  "get_rank x b = min b (if x \<noteq> 0 then clz64 x else 64) + 1"

definition hll_index :: "u64 \<Rightarrow> nat \<Rightarrow> nat" where
  "hll_index hash b = unat (drop_bit (64 - b) hash)"

definition agg_approximate_count_distinct :: "nat list \<Rightarrow> int \<Rightarrow> nat \<Rightarrow> nat list option" where
  "agg_approximate_count_distinct M key b =
     do {
       hash \<leftarrow> MurmurHash64A (le_bytes 8 key) 8 0;
       let i = hll_index hash b;
       let rank = get_rank (push_bit b hash) (64 - b);
       if i < length M then Some (M[i := max (M ! i) rank]) else None
     }"

fun hll_unify_loop :: "nat \<Rightarrow> nat \<Rightarrow> nat list \<Rightarrow> nat list \<Rightarrow> (nat list \<times> nat list) option" where
  "hll_unify_loop 0 r lhs rhs = Some (lhs, rhs)"
| "hll_unify_loop (Suc m) r lhs rhs =
     (if r < length lhs \<and> r < length rhs
      then let v = max (lhs ! r) (rhs ! r) in hll_unify_loop m (Suc r) (lhs[r := v]) (rhs[r := v]) else None)"

definition hll_unify :: "nat list \<Rightarrow> nat list \<Rightarrow> nat \<Rightarrow> (nat list \<times> nat list) option" where
  "hll_unify lhs rhs m = hll_unify_loop m 0 lhs rhs"

definition count_zeros :: "nat list \<Rightarrow> nat \<Rightarrow> nat option" where
  "count_zeros M m = (if m \<le> length M then Some (length (filter (\<lambda>v. v = 0) (take m M))) else None)"

end
