(* ===== verification/Agg_Props.thy ===== *)
theory Agg_Props
  imports Agg_Functions
begin

text \<open>
  What the aggregates compute over a sequence of values, the arithmetic of decimals and floors,
  and the dependence of the count-distinct structures on the set of values alone.
\<close>

section \<open>Folding an aggregate over values\<close>

primrec agg_fold :: "('s \<Rightarrow> 'v \<Rightarrow> 's option) \<Rightarrow> 'v list \<Rightarrow> 's \<Rightarrow> 's option" where
  "agg_fold f [] a = Some a"
| "agg_fold f (x # xs) a = do { a' \<leftarrow> f a x; agg_fold f xs a' }"

definition non_null :: "int \<Rightarrow> int list \<Rightarrow> int list" where
  "non_null skip vs = filter (\<lambda>v. v \<noteq> skip) vs"

text \<open>No partial sum leaves the range or meets the sentinel.\<close>

definition sums_ok :: "int \<Rightarrow> int list \<Rightarrow> bool" where
  "sums_ok skip vs \<longleftrightarrow>
     (\<forall>k \<in> {1..length vs}. int_range 64 (sum_list (take k vs)) \<and> sum_list (take k vs) \<noteq> skip)"

lemma agg_sum_fold_from:
  assumes "a \<noteq> skip"
    and "\<forall>k \<in> {1..length (non_null skip vs)}. int_range 64 (a + sum_list (take k (non_null skip vs))) \<and> a + sum_list (take k (non_null skip vs)) \<noteq> skip"
  shows "agg_fold (\<lambda>g v. map_option fst (agg_sum_skip_val g v skip)) vs a = Some (a + sum_list (non_null skip vs))"
  using assms
proof (induction vs arbitrary: a)
  case (Cons v vs)
  show ?case
  proof (cases "v = skip")
    case True
    then show ?thesis using Cons by (simp add: agg_sum_skip_val_def non_null_def)
  next
    case False
    then have nn: "non_null skip (v # vs) = v # non_null skip vs" by (simp add: non_null_def)
    have one: "int_range 64 (a + v)" "a + v \<noteq> skip" using Cons.prems(2) [rule_format, of 1] by (simp_all add: nn)
    have "int_range 64 (a + v + sum_list (take k (non_null skip vs))) \<and> a + v + sum_list (take k (non_null skip vs)) \<noteq> skip"
      if "k \<in> {1..length (non_null skip vs)}" for k
      using Cons.prems(2) [rule_format, of "Suc k"] that by (simp add: nn add.assoc)
    then have "agg_fold (\<lambda>g v. map_option fst (agg_sum_skip_val g v skip)) vs (a + v) = Some (a + v + sum_list (non_null skip vs))"
      using one(2) by (intro Cons.IH) blast+
    then show ?thesis using Cons.prems(1) False one by (simp add: nn agg_sum_skip_val_def agg_sum_def add.assoc)
  qed
qed (simp add: non_null_def)

lemma agg_sum_fold:
  "sums_ok skip (non_null skip vs) \<Longrightarrow>
     agg_fold (\<lambda>g v. map_option fst (agg_sum_skip_val g v skip)) vs skip =
       Some (if non_null skip vs = [] then skip else sum_list (non_null skip vs))"
proof (induction vs)
  case (Cons v vs)
  show ?case
  proof (cases "v = skip")
    case True
    then show ?thesis using Cons by (simp add: agg_sum_skip_val_def non_null_def)
  next
    case False
    then have nn: "non_null skip (v # vs) = v # non_null skip vs" by (simp add: non_null_def)
    have "int_range 64 (v + sum_list (take k (non_null skip vs))) \<and> v + sum_list (take k (non_null skip vs)) \<noteq> skip"
      if "k \<in> {1..length (non_null skip vs)}" for k
      using Cons.prems [unfolded sums_ok_def, rule_format, of "Suc k"] that by (simp add: nn)
    then have "agg_fold (\<lambda>g v. map_option fst (agg_sum_skip_val g v skip)) vs v = Some (v + sum_list (non_null skip vs))"
      using False by (intro agg_sum_fold_from) blast+
    then show ?thesis using False by (simp add: nn agg_sum_skip_val_def)
  qed
qed (simp add: non_null_def)

lemma agg_max_fold_from:
  "a \<noteq> skip \<Longrightarrow> foldl (\<lambda>g v. agg_max_skip_val g v skip) a vs = Max (insert a (set (non_null skip vs)))"
proof (induction vs arbitrary: a)
  case (Cons v vs)
  show ?case
  proof (cases "v = skip")
    case True
    then show ?thesis using Cons by (simp add: agg_max_skip_val_def non_null_def)
  next
    case False
    then have "max a v \<noteq> skip" using Cons.prems by (simp add: max_def)
    moreover have "Max (insert (max a v) (set (non_null skip vs))) = Max (insert a (insert v (set (non_null skip vs))))"
      by (cases "non_null skip vs = []") (simp_all add: max.assoc)
    ultimately show ?thesis using Cons False by (simp add: agg_max_skip_val_def agg_max_def non_null_def)
  qed
qed (simp add: non_null_def)

lemma agg_min_fold_from:
  "a \<noteq> skip \<Longrightarrow> foldl (\<lambda>g v. agg_min_skip_val g v skip) a vs = Min (insert a (set (non_null skip vs)))"
proof (induction vs arbitrary: a)
  case (Cons v vs)
  show ?case
  proof (cases "v = skip")
    case True
    then show ?thesis using Cons by (simp add: agg_min_skip_val_def non_null_def)
  next
    case False
    then have "min a v \<noteq> skip" using Cons.prems by (simp add: min_def)
    moreover have "Min (insert (min a v) (set (non_null skip vs))) = Min (insert a (insert v (set (non_null skip vs))))"
      by (cases "non_null skip vs = []") (simp_all add: min.assoc)
    ultimately show ?thesis using Cons False by (simp add: agg_min_skip_val_def agg_min_def non_null_def)
  qed
qed (simp add: non_null_def)

lemma agg_max_fold:
  "foldl (\<lambda>g v. agg_max_skip_val g v skip) skip vs = (if non_null skip vs = [] then skip else Max (set (non_null skip vs)))"
proof (induction vs)
  case (Cons v vs)
  then show ?case
    using agg_max_fold_from [of v skip vs] by (cases "v = skip") (simp_all add: agg_max_skip_val_def non_null_def)
qed (simp add: non_null_def)

lemma agg_min_fold:
  "foldl (\<lambda>g v. agg_min_skip_val g v skip) skip vs = (if non_null skip vs = [] then skip else Min (set (non_null skip vs)))"
proof (induction vs)
  case (Cons v vs)
  then show ?case
    using agg_min_fold_from [of v skip vs] by (cases "v = skip") (simp_all add: agg_min_skip_val_def non_null_def)
qed (simp add: non_null_def)

section \<open>Division\<close>

lemma sdiv_nonneg: "0 \<le> a \<Longrightarrow> 0 < b \<Longrightarrow> a sdiv b = (a :: int) div b"
  by (cases "a = 0") (simp_all add: signed_divide_int_def)

lemma sdiv_neg: "a < 0 \<Longrightarrow> 0 < b \<Longrightarrow> a sdiv b = - ((- a) div (b :: int))"
  by (simp add: signed_divide_int_def)

lemma floor_as_sdiv:
  assumes "a < 0" and "0 < (b :: int)"
  shows "(a - (b - 1)) sdiv b = a div b"
proof -
  have "(a - (b - 1)) sdiv b = - ((b - 1 - a) div b)" using sdiv_neg [of "a - (b - 1)" b] assms by simp
  also have "(b - 1 - a) div b = - (a div b)"
  proof (rule int_div_pos_eq)
    have "b * (a div b) + a mod b = a" by simp
    then show "b - 1 - a = b * - (a div b) + (b - 1 - a mod b)" by (simp add: algebra_simps)
    show "0 \<le> b - 1 - a mod b" using pos_mod_bound [OF assms(2), of a] by simp
    show "b - 1 - a mod b < b" using pos_mod_sign [OF assms(2), of a] by simp
  qed
  finally show ?thesis by simp
qed

lemma div_self_bound: "0 \<le> a \<Longrightarrow> 0 < b \<Longrightarrow> 0 \<le> a div b \<and> a div b \<le> (a :: int)"
  using zdiv_mono2 [of a 1 b] by (simp add: pos_imp_zdiv_nonneg_iff)

lemma sdiv_bound:
  assumes "0 < (b :: int)" and "- (2 ^ 63) \<le> a" and "a < 2 ^ 63"
  shows "- (2 ^ 63) \<le> a sdiv b \<and> a sdiv b < 2 ^ 63"
proof (cases "0 \<le> a")
  case True
  then show ?thesis using div_self_bound [OF True assms(1)] sdiv_nonneg [OF True assms(1)] assms(3) by linarith
next
  case False
  then show ?thesis using div_self_bound [of "- a" b] sdiv_neg [of a b] False assms by linarith
qed

text \<open>Rounding half away from zero.\<close>

lemma round_half_up:
  assumes "0 \<le> a" and "0 < s" and "even (s :: int)"
  defines "r \<equiv> (a + s div 2) div s"
  shows "2 * \<bar>r * s - a\<bar> \<le> s" and "2 * \<bar>r * s - a\<bar> = s \<longrightarrow> a < r * s"
proof -
  have h: "2 * (s div 2) = s" using assms(3) by simp
  define m where "m = (a + s div 2) mod s"
  have m: "0 \<le> m" "m < s" using assms(2) by (simp_all add: m_def)
  have "r * s + m = a + s div 2" by (simp add: r_def m_def)
  then have d: "r * s - a = s div 2 - m" by simp
  show "2 * \<bar>r * s - a\<bar> \<le> s" using h m d by (simp add: abs_if)
  show "2 * \<bar>r * s - a\<bar> = s \<longrightarrow> a < r * s" using h assms(2) m d by (auto simp: abs_if split: if_splits)
qed

lemma scale_down_eq:
  assumes "0 < s" and "even s" and "int_range 64 (\<bar>a\<bar> + s div 2)"
  shows "scale_decimal_down_not_nullable a s = Some (sgn a * ((\<bar>a\<bar> + s div 2) div s))"
proof -
  define t where "t = (if 0 \<le> a then a + s div 2 else a - s div 2)"
  have t: "- (2 ^ 63) \<le> t" "t < 2 ^ 63" using assms by (auto simp: t_def int_range_def)
  have "t sdiv s = sgn a * ((\<bar>a\<bar> + s div 2) div s)"
  proof (cases "0 \<le> a")
    case True
    then have "t sdiv s = (a + s div 2) div s" using assms(1) by (simp add: t_def sdiv_nonneg)
    moreover have "(s div 2) div s = 0" using assms(1) by (intro div_pos_pos_trivial) auto
    ultimately show ?thesis using True by (cases "a = 0") auto
  next
    case False
    then have "t sdiv s = - ((- a + s div 2) div s)" using assms(1) sdiv_neg [of t s] by (simp add: t_def)
    then show ?thesis using False by simp
  qed
  moreover have "chk64 t = Some t" "chk64 (t sdiv s) = Some (t sdiv s)"
    using t sdiv_bound [OF assms(1) t] by (simp_all add: chk64_def)
  ultimately show ?thesis using assms(1) by (simp add: scale_decimal_down_not_nullable_def t_def [symmetric] Let_def)
qed

lemma scale_down_nearest:
  assumes "0 < s"
  shows "even s \<and> int_range 64 (\<bar>a\<bar> + s div 2) \<Longrightarrow>
    \<exists>r. scale_decimal_down_not_nullable a s = Some r \<and> 2 * \<bar>r * s - a\<bar> \<le> s \<and> (2 * \<bar>r * s - a\<bar> = s \<longrightarrow> \<bar>a\<bar> < \<bar>r * s\<bar>)"
proof -
  assume ev: "even s \<and> int_range 64 (\<bar>a\<bar> + s div 2)"
  define r where "r = (\<bar>a\<bar> + s div 2) div s"
  have near: "2 * \<bar>r * s - \<bar>a\<bar>\<bar> \<le> s" "2 * \<bar>r * s - \<bar>a\<bar>\<bar> = s \<longrightarrow> \<bar>a\<bar> < r * s"
    using round_half_up [of "\<bar>a\<bar>" s] assms ev by (simp_all add: r_def)
  have "0 \<le> r" using assms by (simp add: r_def pos_imp_zdiv_nonneg_iff)
  then have nonneg: "0 \<le> r * s" using assms by simp
  have "scale_decimal_down_not_nullable a s = Some (sgn a * r)" unfolding r_def using scale_down_eq [OF assms] ev by blast
  moreover consider "a = 0" "r = 0" | "0 < a" | "a < 0"
  proof -
    have "r = 0" if "a = 0" using that assms by (simp add: r_def div_pos_pos_trivial)
    then show thesis using that by linarith
  qed
  then have "2 * \<bar>sgn a * r * s - a\<bar> \<le> s \<and> (2 * \<bar>sgn a * r * s - a\<bar> = s \<longrightarrow> \<bar>a\<bar> < \<bar>sgn a * r * s\<bar>)"
    using near nonneg assms by cases (auto simp: abs_if split: if_splits)
  ultimately show ?thesis by blast
qed

lemma scale_up_down:
  assumes "0 < s"
  shows "even s \<and> a \<noteq> null \<and> int_range 64 (\<bar>a * s\<bar> + s div 2) \<Longrightarrow>
    scale_decimal_down_not_nullable (scale_decimal_up a s null null') s = Some a"
proof -
  assume ev: "even s \<and> a \<noteq> null \<and> int_range 64 (\<bar>a * s\<bar> + s div 2)"
  have half: "0 \<le> s div 2" "s div 2 < s" using assms by auto
  have "- (2 ^ 63) \<le> a * s" "a * s < 2 ^ 63" using ev half by (auto simp: int_range_def)
  then have up: "scale_decimal_up a s null null' = a * s"
    using ev by (simp add: scale_decimal_up_def signed_take_bit_int_eq_self)
  have "\<bar>a * s\<bar> = \<bar>a\<bar> * s" using assms by (simp add: abs_mult)
  moreover have "sgn (a * s) = sgn a" using assms by (simp add: sgn_mult)
  moreover have "(\<bar>a\<bar> * s + s div 2) div s = \<bar>a\<bar>" using assms half by (simp add: div_pos_pos_trivial)
  moreover have "scale_decimal_down_not_nullable (a * s) s = Some (sgn (a * s) * ((\<bar>a * s\<bar> + s div 2) div s))"
    using scale_down_eq [OF assms] ev by blast
  ultimately show ?thesis using up by (simp add: mult.commute abs_mult_sgn)
qed

lemma floor_div_lhs_eq:
  assumes "int_range 64 a" and "0 < b" and "int_range 64 b"
  shows "floor_div_lhs a b = (if a < 0 \<and> a - (b - 1) < - (2 ^ 63) then None else Some (a div b))"
proof (cases "a < 0")
  case True
  have b1: "chk64 (b - 1) = Some (b - 1)" using assms by (simp add: chk64_def int_range_def)
  show ?thesis
  proof (cases "a - (b - 1) < - (2 ^ 63)")
    case True
    then show ?thesis using \<open>a < 0\<close> b1 by (simp add: floor_div_lhs_def chk64_def)
  next
    case False
    then have r: "- (2 ^ 63) \<le> a - (b - 1)" "a - (b - 1) < 2 ^ 63" using True assms by simp_all
    then have "chk64 (a - (b - 1)) = Some (a - (b - 1))" by (simp add: chk64_def)
    moreover have "chk64 (a div b) = Some (a div b)"
      using sdiv_bound [OF assms(2) r] floor_as_sdiv [OF True assms(2)] by (simp add: chk64_def)
    ultimately show ?thesis using True False b1 assms(2) floor_as_sdiv [OF True assms(2)] by (simp add: floor_div_lhs_def)
  qed
next
  case False
  then have nn: "0 \<le> a" by simp
  have "chk64 (a div b) = Some (a div b)"
    using div_self_bound [OF nn assms(2)] assms(1) by (auto simp: chk64_def int_range_def)
  then show ?thesis using False assms(2) sdiv_nonneg [OF nn assms(2)] by (simp add: floor_div_lhs_def)
qed

section \<open>Count distinct\<close>

lemma bitmap_index:
  assumes "min_val \<le> v" and "v \<le> max_val" and "max_val - min_val < 2 ^ 63"
  shows "chk64 (v - min_val) = Some (v - min_val)" and "nat ((v - min_val) mod 2 ^ 64) = nat (v - min_val)"
  using assms by (simp_all add: chk64_def)

definition bitmap_bit :: "u8 list \<Rightarrow> nat \<Rightarrow> bool" where
  "bitmap_bit bm i \<longleftrightarrow> bit (bm ! (i div 8)) (i mod 8)"

lemma bitmap_bit_set:
  assumes "i div 8 < length bm" and "j div 8 < length bm"
  shows "bitmap_bit (bm[i div 8 := bm ! (i div 8) OR 2 ^ (i mod 8)]) j \<longleftrightarrow> j = i \<or> bitmap_bit bm j"
proof (cases "j div 8 = i div 8")
  case True
  have "j mod 8 = i mod 8 \<longleftrightarrow> j = i" using True by (metis div_mult_mod_eq)
  moreover have "bit (2 ^ (i mod 8) :: u8) (j mod 8) \<longleftrightarrow> j mod 8 = i mod 8" by (auto simp: bit_exp_iff)
  ultimately show ?thesis using assms True by (auto simp: bitmap_bit_def bit_or_iff)
next
  case False
  then show ?thesis by (auto simp: bitmap_bit_def)
qed

lemma and_power_nonzero: "(x :: u8) AND 2 ^ n \<noteq> 0 \<longleftrightarrow> bit x n"
proof -
  have "x AND 2 ^ n = (if bit x n then 2 ^ n else 0)"
    by (rule bit_word_eqI) (auto simp: bit_simps)
  moreover have "bit x n \<Longrightarrow> (2 ^ n :: u8) \<noteq> 0" by (auto dest: bit_imp_le_length)
  ultimately show ?thesis by simp
qed

lemma count_distinct_fold:
  assumes "max_val - min_val < 2 ^ 63"
  shows "\<forall>v \<in> set vs. min_val \<le> v \<and> v \<le> max_val \<Longrightarrow> nat (max_val - min_val) div 8 < length bm \<Longrightarrow>
    \<exists>bm'. agg_fold (\<lambda>b v. agg_count_distinct_bitmap b v min_val) vs bm = Some bm' \<and> length bm' = length bm \<and>
      (\<forall>i. i div 8 < length bm \<longrightarrow> (bitmap_bit bm' i \<longleftrightarrow> bitmap_bit bm i \<or> i \<in> (\<lambda>v. nat (v - min_val)) ` set vs))"
proof (induction vs arbitrary: bm)
  case (Cons v vs)
  let ?i = "nat (v - min_val)"
  have v: "min_val \<le> v" "v \<le> max_val" using Cons.prems by simp_all
  have "?i div 8 \<le> nat (max_val - min_val) div 8" using v by (intro div_le_mono) simp
  then have i: "?i div 8 < length bm" using Cons.prems(2) by simp
  define b1 where "b1 = bm[?i div 8 := bm ! (?i div 8) OR 2 ^ (?i mod 8)]"
  have step: "agg_count_distinct_bitmap bm v min_val = Some b1"
    using bitmap_index [OF v assms] i by (simp add: agg_count_distinct_bitmap_def Let_def b1_def)
  have len: "length b1 = length bm" by (simp add: b1_def)
  have bits: "bitmap_bit b1 j \<longleftrightarrow> j = ?i \<or> bitmap_bit bm j" if "j div 8 < length bm" for j
    unfolding b1_def by (rule bitmap_bit_set [OF i that])
  obtain b2 where "agg_fold (\<lambda>b v. agg_count_distinct_bitmap b v min_val) vs b1 = Some b2" "length b2 = length b1"
      "\<forall>i. i div 8 < length b1 \<longrightarrow> (bitmap_bit b2 i \<longleftrightarrow> bitmap_bit b1 i \<or> i \<in> (\<lambda>v. nat (v - min_val)) ` set vs)"
    using Cons.IH [of b1] Cons.prems len by auto
  then show ?case using step len bits by auto
qed simp

lemma bit_is_set_bitmap:
  assumes "min_val \<le> v" and "v \<le> max_val" and "max_val - min_val < 2 ^ 63" and "v \<noteq> null_val"
    and "nat (max_val - min_val) div 8 < length bm"
  shows "bit_is_set (Some bm) v min_val max_val null_val nb = Some (of_bool (bitmap_bit bm (nat (v - min_val))))"
proof -
  have "nat (v - min_val) div 8 \<le> nat (max_val - min_val) div 8" using assms by (intro div_le_mono) simp
  then have "nat (v - min_val) div 8 < length bm" using assms(5) by simp
  then show ?thesis using assms bitmap_index [OF assms(1-3)]
    by (simp add: bit_is_set_def Let_def bitmap_bit_def and_power_nonzero)
qed

section \<open>HyperLogLog\<close>

definition hll_hash :: "int \<Rightarrow> u64" where
  "hll_hash key = the (MurmurHash64A (le_bytes 8 key) 8 0)"

definition hll_rank :: "nat \<Rightarrow> int \<Rightarrow> nat" where
  "hll_rank b key = get_rank (push_bit b (hll_hash key)) (64 - b)"

definition hll_slot :: "nat \<Rightarrow> int \<Rightarrow> nat" where
  "hll_slot b key = hll_index (hll_hash key) b"

text \<open>The register \<open>i\<close> of a set of keys.\<close>

definition hll_reg :: "nat \<Rightarrow> int set \<Rightarrow> nat \<Rightarrow> nat" where
  "hll_reg b K i = Max (insert 0 (hll_rank b ` {k \<in> K. hll_slot b k = i}))"

definition hll_regs :: "nat \<Rightarrow> int set \<Rightarrow> nat list" where
  "hll_regs b K = map (hll_reg b K) [0..<2 ^ b]"

lemma murmur64_hash: "MurmurHash64A (le_bytes 8 key) 8 0 = Some (hll_hash key)"
proof -
  have loop: "murmur64_loop (Suc 0) data h = Some (drop 8 data, murmur64_block h (le_word (take 8 data)))" if "length data = 8" for data h
    using that by simp
  have "\<exists>h. MurmurHash64A data 8 0 = Some h" if "length data = 8" for data
    using loop [OF that] that by (simp add: MurmurHash64A_def Let_def del: murmur64_loop.simps)
  then show ?thesis using length_le_bytes [of 8 key] by (metis hll_hash_def option.sel)
qed

lemma hll_slot_less: "b \<le> 64 \<Longrightarrow> hll_slot b key < 2 ^ b"
proof -
  assume b: "b \<le> 64"
  have "take_bit 64 (unat (hll_hash key)) = unat (hll_hash key)"
    using unsigned_less [of "hll_hash key", where ?'a = nat] by (simp add: take_bit_nat_eq_self)
  then have "unat (drop_bit (64 - b) (hll_hash key)) = drop_bit (64 - b) (unat (hll_hash key))" by (simp add: unsigned_drop_bit_eq)
  also have "\<dots> = unat (hll_hash key) div 2 ^ (64 - b)" by (simp add: drop_bit_eq_div)
  also have "\<dots> < 2 ^ b"
  proof (rule less_mult_imp_div_less)
    have "unat (hll_hash key) < 2 ^ 64" using unsigned_less [of "hll_hash key", where ?'a = nat] by simp
    also have "(2 :: nat) ^ 64 = 2 ^ b * 2 ^ (64 - b)" using b by (simp flip: power_add)
    finally show "unat (hll_hash key) < 2 ^ b * 2 ^ (64 - b)" .
  qed
  finally show ?thesis by (simp add: hll_slot_def hll_index_def)
qed

lemma hll_reg_insert:
  assumes "finite K"
  shows "hll_reg b (insert k K) i = (if hll_slot b k = i then max (hll_reg b K i) (hll_rank b k) else hll_reg b K i)"
proof (cases "hll_slot b k = i")
  case True
  then have "{k' \<in> insert k K. hll_slot b k' = i} = insert k {k' \<in> K. hll_slot b k' = i}" by auto
  then have "insert 0 (hll_rank b ` {k' \<in> insert k K. hll_slot b k' = i}) = insert (hll_rank b k) (insert 0 (hll_rank b ` {k' \<in> K. hll_slot b k' = i}))"
    by auto
  then show ?thesis using True assms unfolding hll_reg_def by (simp add: max.commute)
next
  case False
  then have "{k' \<in> insert k K. hll_slot b k' = i} = {k' \<in> K. hll_slot b k' = i}" by auto
  then show ?thesis using False by (simp add: hll_reg_def)
qed

lemma hll_reg_union:
  assumes "finite A" and "finite B"
  shows "hll_reg b (A \<union> B) i = max (hll_reg b A i) (hll_reg b B i)"
  using assms(2,1)
proof (induction B)
  case empty
  then show ?case by (simp add: hll_reg_def)
next
  case (insert k B)
  then show ?case by (simp add: hll_reg_insert max.assoc)
qed

lemma hll_step:
  assumes "b \<le> 64" and "finite K"
  shows "agg_approximate_count_distinct (hll_regs b K) key b = Some (hll_regs b (insert key K))"
proof -
  have i: "hll_slot b key < 2 ^ b" by (rule hll_slot_less [OF assms(1)])
  have "(hll_regs b K)[hll_slot b key := max (hll_regs b K ! hll_slot b key) (hll_rank b key)] = hll_regs b (insert key K)"
    using i assms(2) by (intro nth_equalityI) (auto simp: hll_regs_def hll_reg_insert nth_list_update)
  then show ?thesis using i
    by (simp add: agg_approximate_count_distinct_def murmur64_hash Let_def hll_slot_def [symmetric] hll_rank_def [symmetric])
       (simp add: hll_regs_def)
qed

lemma hll_fold:
  assumes "b \<le> 64"
  shows "finite K \<Longrightarrow> agg_fold (\<lambda>M k. agg_approximate_count_distinct M k b) ks (hll_regs b K) = Some (hll_regs b (K \<union> set ks))"
proof (induction ks arbitrary: K)
  case (Cons k ks)
  then show ?case using hll_step [OF assms Cons.prems, of k] Cons.IH [of "insert k K"] by simp
qed simp

lemma hll_regs_empty: "hll_regs b {} = replicate (2 ^ b) 0"
  by (rule nth_equalityI) (simp_all add: hll_regs_def hll_reg_def)

lemma hll_unify_loop_eq:
  "length A = r + m \<Longrightarrow> length B = r + m \<Longrightarrow> take r A = take r B \<Longrightarrow>
     hll_unify_loop m r A B = Some (map2 max A B, map2 max A B)"
proof (induction m arbitrary: r A B)
  case 0
  then have "A = B" by simp
  then show ?case by (auto intro: nth_equalityI)
next
  case (Suc m)
  let ?v = "max (A ! r) (B ! r)"
  have "take (Suc r) (A[r := ?v]) = take (Suc r) (B[r := ?v])"
    using Suc.prems by (simp add: take_Suc_conv_app_nth)
  then have "hll_unify_loop m (Suc r) (A[r := ?v]) (B[r := ?v]) = Some (map2 max (A[r := ?v]) (B[r := ?v]), map2 max (A[r := ?v]) (B[r := ?v]))"
    using Suc.prems by (intro Suc.IH) simp_all
  moreover have "map2 max (A[r := ?v]) (B[r := ?v]) = map2 max A B"
    using Suc.prems by (intro nth_equalityI) (auto simp: nth_list_update)
  ultimately show ?case using Suc.prems by (simp add: Let_def)
qed

lemma hll_unify_regs:
  assumes "finite A" and "finite B"
  shows "hll_unify (hll_regs b A) (hll_regs b B) (2 ^ b) = Some (hll_regs b (A \<union> B), hll_regs b (A \<union> B))"
proof -
  have "map2 max (hll_regs b A) (hll_regs b B) = hll_regs b (A \<union> B)"
    using assms by (intro nth_equalityI) (auto simp: hll_regs_def hll_reg_union)
  then show ?thesis using hll_unify_loop_eq [of "hll_regs b A" 0 "2 ^ b" "hll_regs b B"]
    by (simp add: hll_unify_def hll_regs_def)
qed

end
