(* ===== verification/Group_Query.thy ===== *)
theory Group_Query
  imports Group_By_Tables Group_Init_Vec Agg_Props
begin

text \<open>
  A grouped aggregate from end to end: the rows of the input are processed one by one, each with
  a call of \<open>get_group_value\<close> and the update of an 8-byte aggregate slot of the entry it returns,
  starting from an initialised buffer.  At the end each group has one entry, and its slot is the
  aggregate of the values of the group.
\<close>

section \<open>Processing rows\<close>

datatype group_error = OutOfSlots | Undefined

text \<open>\<open>so\<close> is the offset of the slot from the pointer that \<open>get_group_value\<close> returns.\<close>

definition group_row :: "group_ctx \<Rightarrow> nat \<Rightarrow> (int \<Rightarrow> int \<Rightarrow> int option) \<Rightarrow> u8 list \<Rightarrow> int \<Rightarrow> u8 list \<Rightarrow> group_error + u8 list" where
  "group_row c so f k v b =
     (case get_group_value b (gc_entries c) k (gc_keys c) (gc_width c) (gc_row c) of
        None \<Rightarrow> Inl Undefined
      | Some (b1, None) \<Rightarrow> Inl OutOfSlots
      | Some (b1, Some p) \<Rightarrow>
          (case do { a \<leftarrow> read_signed b1 (p + so) 8; a' \<leftarrow> f a v; mem_write b1 (p + so) (le_bytes 8 a') } of
             None \<Rightarrow> Inl Undefined
           | Some b2 \<Rightarrow> Inr b2))"

primrec group_rows :: "group_ctx \<Rightarrow> nat \<Rightarrow> (int \<Rightarrow> int \<Rightarrow> int option) \<Rightarrow> (u8 list \<times> int) list \<Rightarrow> u8 list \<Rightarrow> group_error + u8 list" where
  "group_rows c so f [] b = Inr b"
| "group_rows c so f (r # rs) b =
     (case group_row c so f (fst r) (snd r) b of Inl e \<Rightarrow> Inl e | Inr b' \<Rightarrow> group_rows c so f rs b')"

text \<open>The values of a group, and the slot of an entry.\<close>

definition group_vals :: "u8 list \<Rightarrow> (u8 list \<times> int) list \<Rightarrow> int list" where
  "group_vals k rs = map snd (filter (\<lambda>r. fst r = k) rs)"

definition slot_val :: "group_ctx \<Rightarrow> nat \<Rightarrow> u8 list \<Rightarrow> nat \<Rightarrow> int option" where
  "slot_val c so b i = read_signed b (row_res c i + so) 8"

definition slot_fits :: "group_ctx \<Rightarrow> nat \<Rightarrow> bool" where
  "slot_fits c so \<longleftrightarrow> align_to_int64 (key_len c) + so + 8 \<le> row_bytes c"

section \<open>One row\<close>

lemma read_signed_mem:
  assumes "mem_read b off 8 = Some (le_bytes 8 v)" and "int_range 64 v"
  shows "read_signed b off 8 = Some v"
proof -
  have len: "off + 8 \<le> length b" and bytes: "take 8 (drop off b) = le_bytes 8 v"
    using assms(1) by (auto simp: mem_read_def split: if_splits)
  have "drop off b = le_bytes 8 v @ drop 8 (drop off b)" using bytes by (metis append_take_drop_id)
  then show ?thesis using len assms(2) by (intro read_signed_bytes) (auto simp: int_range_def)
qed

lemma read_signed_cong: "mem_read b off n = mem_read b' off n \<Longrightarrow> read_signed b off n = read_signed b' off n"
  by (auto simp: mem_read_def read_signed_def read_le_def split: if_splits)

lemma chain_inv_cong: "0 < n \<Longrightarrow> \<forall>i < n. keys i = keys' i \<Longrightarrow> chain_inv n home keys = chain_inv n home keys'"
  by (simp add: chain_inv_def)

lemma stored_cong: "\<forall>i < n. keys i = keys' i \<Longrightarrow> stored n keys = stored n keys'"
  by (auto simp: stored_def image_iff)

lemma stored_insert:
  assumes "i < n" and "\<forall>j < n. keys' j = (if j = i then Some k else keys j)"
    and "keys i = (if k \<in> stored n keys then Some k else None)"
  shows "stored n keys' = insert k (stored n keys)"
proof (intro set_eqI iffI)
  fix x assume "x \<in> stored n keys'"
  then obtain j where "j < n" "keys' j = Some x" by (auto simp: stored_def image_iff)
  then show "x \<in> insert k (stored n keys)" using assms(2) by (force simp: stored_def image_iff split: if_splits)
next
  fix x assume x: "x \<in> insert k (stored n keys)"
  show "x \<in> stored n keys'"
  proof (cases "x = k")
    case True
    then show ?thesis using assms(1,2) by (force simp: stored_def image_iff)
  next
    case False
    then obtain j where j: "j < n" "keys j = Some x" using x by (auto simp: stored_def image_iff)
    then have "j \<noteq> i" using assms(3) False by (auto split: if_splits)
    then show ?thesis using j assms(2) by (force simp: stored_def image_iff)
  qed
qed

text \<open>The search writes keys only.\<close>

lemma probe_keeps_slots:
  assumes wf: "row_wf c b" and k: "group_key_ok c k" and n: "0 < group_entries c" and so: "slot_fits c so"
    and find: "probe_find (row_attempt c k) (group_entries c) (group_home c k) b = Some (b1, r)" and j: "j < group_entries c"
  shows "slot_val c so b1 j = slot_val c so b j"
proof (cases "stop_slot (group_entries c) (group_home c k) (row_key_at c b) k")
  case None
  then show ?thesis using row_table.probe_find_stop [OF wf k n] find by simp
next
  case (Some i)
  then have att: "row_attempt c k b i = Some (b1, r)" using row_table.probe_find_stop [OF wf k n] find by simp
  have i: "i < group_entries c" using stop_slot_Some [OF Some n] by metis
  have len: "length k = key_len c" using k by (simp add: group_key_ok_def)
  obtain x where x: "mem_read b (i * row_bytes c) (key_len c) = Some x" using row_read_key [OF wf i] by blast
  have "b1 = b \<or> mem_write b (i * row_bytes c) k = Some b1"
    using att row_attempt_eq [OF wf i len x] by (auto split: if_splits)
  then show ?thesis
  proof
    assume w: "mem_write b (i * row_bytes c) k = Some b1"
    have "row_res c j + so + 8 \<le> i * row_bytes c \<or> i * row_bytes c + length k \<le> row_res c j + so"
    proof (cases "i = j")
      case True
      then show ?thesis using align_to_int64_le [of "key_len c"] len by (simp add: row_res_def)
    next
      case False
      have "key_len c \<le> row_bytes c" using wf by (simp add: row_wf_def)
      then show ?thesis
        using entries_disjoint [of j i "align_to_int64 (key_len c) + so" 8 "row_bytes c"] False so len
        by (auto simp: row_res_def slot_fits_def)
    qed
    then show ?thesis unfolding slot_val_def by (intro read_signed_cong mem_read_write_other [OF w])
  qed simp
qed

lemma slot_write:
  assumes wf: "row_wf c b" and so: "slot_fits c so" and i: "i < group_entries c" and a: "int_range 64 a"
  obtains b2 where "mem_write b (row_res c i + so) (le_bytes 8 a) = Some b2" and "row_wf c b2"
    and "\<forall>j < group_entries c. row_key_at c b2 j = row_key_at c b j"
    and "\<forall>j < group_entries c. slot_val c so b2 j = (if j = i then Some a else slot_val c so b j)"
proof -
  have "row_res c i + so + length (le_bytes 8 a) \<le> length b"
    using row_inside [OF wf i] so by (simp add: row_res_def slot_fits_def)
  then obtain b2 where w: "mem_write b (row_res c i + so) (le_bytes 8 a) = Some b2" using mem_write_some by blast
  have keys: "row_key_at c b2 j = row_key_at c b j" if j: "j < group_entries c" for j
  proof -
    have "j * row_bytes c + key_len c \<le> row_res c i + so \<or> row_res c i + so + 8 \<le> j * row_bytes c"
    proof (cases "i = j")
      case True
      then show ?thesis using align_to_int64_le [of "key_len c"] by (simp add: row_res_def)
    next
      case False
      have "key_len c \<le> row_bytes c" using wf by (simp add: row_wf_def)
      then show ?thesis
        using entries_disjoint [of i j "align_to_int64 (key_len c) + so" 8 "row_bytes c"] False so
        by (auto simp: row_res_def slot_fits_def)
    qed
    then have "mem_read b2 (j * row_bytes c) (key_len c) = mem_read b (j * row_bytes c) (key_len c)"
      by (intro mem_read_write_other [OF w]) simp
    then show ?thesis by (simp add: row_key_at_def)
  qed
  have slots: "slot_val c so b2 j = (if j = i then Some a else slot_val c so b j)" if j: "j < group_entries c" for j
  proof (cases "j = i")
    case True
    then show ?thesis using mem_read_write_same [OF w] read_signed_mem a by (simp add: slot_val_def)
  next
    case False
    have "row_res c j + so + 8 \<le> row_res c i + so \<or> row_res c i + so + 8 \<le> row_res c j + so"
      using entries_disjoint [of j i "align_to_int64 (key_len c) + so" 8 "row_bytes c"]
        entries_disjoint [of i j "align_to_int64 (key_len c) + so" 8 "row_bytes c"] False so
      by (auto simp: row_res_def slot_fits_def)
    then have "read_signed b2 (row_res c j + so) 8 = read_signed b (row_res c j + so) 8"
      by (intro read_signed_cong mem_read_write_other [OF w]) simp
    then show ?thesis using False by (simp add: slot_val_def)
  qed
  show ?thesis using that [OF w] keys slots wf mem_write_length [OF w] by (simp add: row_wf_def)
qed

section \<open>All rows\<close>

text \<open>
  The state after the rows \<open>P\<close>: the stored keys are those of \<open>P\<close>, the slot of an entry is the
  aggregate of the values of its key, and the slot of an empty entry is still the initial value.
\<close>

definition group_inv :: "group_ctx \<Rightarrow> nat \<Rightarrow> (int \<Rightarrow> int \<Rightarrow> int option) \<Rightarrow> int \<Rightarrow> (u8 list \<times> int) list \<Rightarrow> u8 list \<Rightarrow> bool" where
  "group_inv c so f init P b \<longleftrightarrow> row_wf c b \<and> chain_inv (group_entries c) (group_home c) (row_key_at c b) \<and>
     stored (group_entries c) (row_key_at c b) = fst ` set P \<and>
     (\<forall>i < group_entries c. slot_val c so b i =
        (case row_key_at c b i of None \<Rightarrow> Some init | Some k \<Rightarrow> agg_fold f (group_vals k P) init))"

lemma agg_fold_snoc: "agg_fold f (xs @ [x]) a = do { a' \<leftarrow> agg_fold f xs a; f a' x }"
  by (induction xs arbitrary: a) (auto split: option.splits)

lemma group_vals_snoc: "group_vals k (P @ [r]) = group_vals k P @ (if fst r = k then [snd r] else [])"
  by (simp add: group_vals_def)

lemma group_inv_vals:
  assumes inv: "group_inv c so f init P b" and i: "i < group_entries c"
    and at: "row_key_at c b i = (if k \<in> stored (group_entries c) (row_key_at c b) then Some k else None)"
  shows "slot_val c so b i = agg_fold f (group_vals k P) init"
proof (cases "k \<in> fst ` set P")
  case True
  then show ?thesis using inv i at by (simp add: group_inv_def)
next
  case False
  then have "group_vals k P = []" by (force simp: group_vals_def filter_empty_conv)
  then show ?thesis using inv i at False by (simp add: group_inv_def)
qed

lemma group_row_step:
  assumes inv: "group_inv c so f init P b" and so: "slot_fits c so" and k: "group_key_ok c k"
    and room: "card (insert k (fst ` set P)) \<le> group_entries c"
    and agg: "agg_fold f (group_vals k (P @ [(k, v)])) init = Some a" and range: "int_range 64 a"
  shows "\<exists>b'. group_row c so f k v b = Inr b' \<and> group_inv c so f init (P @ [(k, v)]) b'"
proof -
  let ?n = "group_entries c"
  have wf: "row_wf c b" and chain: "chain_inv ?n (group_home c) (row_key_at c b)"
    and st: "stored ?n (row_key_at c b) = fst ` set P" using inv by (simp_all add: group_inv_def)
  obtain i b1 where b1: "i < ?n" "probe_find (row_attempt c k) ?n (group_home c k) b = Some (b1, Some (row_res c i))"
    "row_wf c b1" "chain_inv ?n (group_home c) (row_key_at c b1)"
    "\<forall>j < ?n. row_key_at c b1 j = (if j = i then Some k else row_key_at c b j)"
    "row_key_at c b i = (if k \<in> stored ?n (row_key_at c b) then Some k else None)"
    by (rule row_table.probe_room [OF wf chain k]) (use room st in simp)
  have n: "0 < ?n" using b1(1) by simp
  have ctx: "ctx_ok c" "length k = key_len c" using wf k by (simp_all add: row_wf_def group_key_ok_def)
  have slots: "slot_val c so b1 j = slot_val c so b j" if "j < ?n" for j
    by (rule probe_keeps_slots [OF wf k n so b1(2) that])
  obtain a0 where a0: "agg_fold f (group_vals k P) init = Some a0" "f a0 v = Some a"
    using agg by (auto simp: group_vals_snoc agg_fold_snoc bind_eq_Some_conv)
  have old: "slot_val c so b1 i = Some a0" using group_inv_vals [OF inv b1(1,6)] slots [OF b1(1)] a0(1) by simp
  obtain b2 where b2: "mem_write b1 (row_res c i + so) (le_bytes 8 a) = Some b2" "row_wf c b2"
    "\<forall>j < ?n. row_key_at c b2 j = row_key_at c b1 j"
    "\<forall>j < ?n. slot_val c so b2 j = (if j = i then Some a else slot_val c so b1 j)"
    by (rule slot_write [OF b1(3) so b1(1) range])
  have "group_row c so f k v b = Inr b2"
    using b1(2) old a0(2) b2(1) by (simp add: group_row_def get_group_value_probe [OF ctx n] slot_val_def)
  moreover have "slot_val c so b2 j =
      (case row_key_at c b2 j of None \<Rightarrow> Some init | Some k' \<Rightarrow> agg_fold f (group_vals k' (P @ [(k, v)])) init)" if j: "j < ?n" for j
  proof (cases "j = i")
    case True
    then show ?thesis using b2(3,4) b1(1,5) agg by simp
  next
    case False
    have "row_key_at c b1 j \<noteq> Some k"
      using b1(1,4,5) j False unfolding chain_inv_def by (metis option.distinct(1))
    then have "row_key_at c b j \<noteq> Some k" using b1(5) j False by simp
    then show ?thesis using b2(3,4) b1(5) False slots [OF j] inv j
      by (auto simp: group_inv_def group_vals_snoc split: option.splits)
  qed
  moreover have "chain_inv ?n (group_home c) (row_key_at c b2)" using chain_inv_cong [OF n b2(3)] b1(4) by simp
  moreover have "stored ?n (row_key_at c b2) = fst ` set (P @ [(k, v)])"
    using stored_cong [OF b2(3)] stored_insert [OF b1(1,5,6)] st by simp
  ultimately show ?thesis using b2(2) by (auto simp: group_inv_def)
qed

text \<open>The aggregate of every group is defined and fits its slot after every prefix of the rows.\<close>

definition aggs_ok :: "(int \<Rightarrow> int \<Rightarrow> int option) \<Rightarrow> int \<Rightarrow> (u8 list \<times> int) list \<Rightarrow> bool" where
  "aggs_ok f init rs \<longleftrightarrow>
     (\<forall>m \<in> {0..length rs}. \<forall>k \<in> fst ` set rs.
        case agg_fold f (group_vals k (take m rs)) init of None \<Rightarrow> False | Some a \<Rightarrow> int_range 64 a)"

lemma group_rows_from:
  assumes so: "slot_fits c so"
  shows "group_inv c so f init P b \<Longrightarrow> \<forall>r \<in> set rs. group_key_ok c (fst r) \<Longrightarrow> card (fst ` set (P @ rs)) \<le> group_entries c \<Longrightarrow>
    aggs_ok f init (P @ rs) \<Longrightarrow> \<exists>b'. group_rows c so f rs b = Inr b' \<and> group_inv c so f init (P @ rs) b'"
proof (induction rs arbitrary: P b)
  case (Cons r rs)
  obtain k v where r: "r = (k, v)" by (cases r)
  have "insert k (fst ` set P) \<subseteq> fst ` set (P @ r # rs)" by (auto simp: r)
  then have room: "card (insert k (fst ` set P)) \<le> group_entries c"
    using Cons.prems(3) card_mono [of "fst ` set (P @ r # rs)" "insert k (fst ` set P)"] by simp
  have "take (Suc (length P)) (P @ r # rs) = P @ [(k, v)]" by (simp add: r)
  moreover have "Suc (length P) \<in> {0..length (P @ r # rs)}" "k \<in> fst ` set (P @ r # rs)" by (auto simp: r)
  ultimately obtain a where "agg_fold f (group_vals k (P @ [(k, v)])) init = Some a" "int_range 64 a"
    using Cons.prems(4) unfolding aggs_ok_def by (metis (no_types, lifting) option.case_eq_if option.collapse)
  from group_row_step [OF Cons.prems(1) so _ room this] Cons.prems(2)
  obtain b1 where b1: "group_row c so f k v b = Inr b1" "group_inv c so f init (P @ [r]) b1" by (auto simp: r)
  then show ?case using Cons.IH [OF b1(2)] Cons.prems(2-4) by (auto simp: r)
qed simp

section \<open>From the initialised buffer\<close>

definition ctx_for :: "QueryMemoryDescriptor \<Rightarrow> nat \<Rightarrow> group_ctx" where
  "ctx_for q n = \<lparr>gc_entries = of_nat n, gc_keys = of_nat (getGroupbyColCount q),
     gc_width = of_nat (getEffectiveKeyWidth q), gc_row = of_nat (row_size_of q div 8)\<rparr>"

text \<open>The sizes that the runtime functions keep in 32 bits.\<close>

definition sizes_ok :: "QueryMemoryDescriptor \<Rightarrow> nat \<Rightarrow> bool" where
  "sizes_ok q n \<longleftrightarrow> \<not> keyless_hash q \<and> 0 < n \<and> 0 < getGroupbyColCount q \<and>
     getGroupbyColCount q * getEffectiveKeyWidth q < 2 ^ 31 \<and> n * (row_size_of q div 8) < 2 ^ 32"

lemma ctx_for_sizes:
  assumes ok: "init_ok q f vals special" and sz: "sizes_ok q n"
  shows "group_entries (ctx_for q n) = n" and "key_w (ctx_for q n) = getEffectiveKeyWidth q"
    and "unat (gc_keys (ctx_for q n)) = getGroupbyColCount q"
    and "key_len (ctx_for q n) = getGroupbyColCount q * getEffectiveKeyWidth q" and "row_bytes (ctx_for q n) = row_size_of q"
proof -
  have kw: "getEffectiveKeyWidth q \<in> {4, 8}" using ok by (simp add: init_ok_def)
  have dvd: "8 dvd row_size_of q" by (rule init_ok_sizes(3) [OF ok])
  have b: "getGroupbyColCount q * getEffectiveKeyWidth q < 2 ^ 31" "n * (row_size_of q div 8) < 2 ^ 32" "0 < n"
    using sz by (simp_all add: sizes_ok_def)
  have kc: "getGroupbyColCount q < 2 ^ 32" using b(1) kw by auto
  have "0 < row_size_of q"
    using init_ok_sizes(4,5) [OF ok] sz kw by (auto simp: sizes_ok_def)
  then have r: "0 < row_size_of q div 8" using dvd by (auto elim!: dvdE)
  have "n * 1 \<le> n * (row_size_of q div 8)" using r by (intro mult_le_mono2) simp
  also note b(2)
  finally have n: "n < 2 ^ 32" by simp
  have "1 * (row_size_of q div 8) \<le> n * (row_size_of q div 8)" using b(3) by (intro mult_le_mono1) simp
  also note b(2)
  finally have rs: "row_size_of q div 8 < 2 ^ 32" by simp
  show "group_entries (ctx_for q n) = n" using unat_of_nat_less [where ?'a = 32, of n] n by (simp add: group_entries_def ctx_for_def)
  show w: "key_w (ctx_for q n) = getEffectiveKeyWidth q" using kw by (auto simp: key_w_def ctx_for_def)
  show k: "unat (gc_keys (ctx_for q n)) = getGroupbyColCount q"
    using unat_of_nat_less [where ?'a = 32, of "getGroupbyColCount q"] kc by (simp add: ctx_for_def)
  show "key_len (ctx_for q n) = getGroupbyColCount q * getEffectiveKeyWidth q" by (simp add: key_len_def k w)
  have "unat (gc_row (ctx_for q n)) = row_size_of q div 8"
    using unat_of_nat_less [where ?'a = 32, of "row_size_of q div 8"] rs by (simp add: ctx_for_def)
  then show "row_bytes (ctx_for q n) = row_size_of q" using dvd by (simp add: row_bytes_def)
qed

lemma ctx_for_wf:
  assumes ok: "init_ok q f vals special" and sz: "sizes_ok q n" and len: "n * row_size_of q \<le> length b"
  shows "row_wf (ctx_for q n) b"
proof -
  note c = ctx_for_sizes [OF ok sz]
  have kw: "getEffectiveKeyWidth q \<in> {4, 8}" using ok by (simp add: init_ok_def)
  have "gc_keys (ctx_for q n) \<noteq> 0" using c(3) sz by (auto simp: sizes_ok_def)
  then have "ctx_ok (ctx_for q n)" using kw c(4) sz by (auto simp: ctx_ok_def sizes_ok_def ctx_for_def word_gt_0)
  moreover have "key_len (ctx_for q n) \<le> row_bytes (ctx_for q n)"
    using c(4,5) init_ok_sizes(4,5) [OF ok] sz by (simp add: sizes_ok_def)
  moreover have "unat (gc_entries (ctx_for q n)) * unat (gc_row (ctx_for q n)) < 2 ^ 32"
  proof -
    have "unat (gc_row (ctx_for q n)) * 8 = row_size_of q" using c(5) by (simp add: row_bytes_def)
    then have "unat (gc_row (ctx_for q n)) = row_size_of q div 8" by (metis nonzero_mult_div_cancel_right zero_neq_numeral)
    then show ?thesis using c(1) sz by (simp add: group_entries_def sizes_ok_def)
  qed
  ultimately show ?thesis using c(1,5) len by (simp add: row_wf_def)
qed

text \<open>An initialised row is an empty entry whose slots hold their initial values.\<close>

lemma inited_row_empty:
  assumes ok: "init_ok q f vals special" and sz: "sizes_ok q n" and len: "n * row_size_of q \<le> length b"
    and i: "i < n" and row: "row_inited q f vals special (i * row_size_of q) b"
  shows "row_key_at (ctx_for q n) b i = None"
proof -
  note c = ctx_for_sizes [OF ok sz]
  have ne: "i < group_entries (ctx_for q n)" using i c(1) by simp
  obtain k where k: "mem_read b (i * row_bytes (ctx_for q n)) (key_len (ctx_for q n)) = Some k"
    using row_read_key [OF ctx_for_wf [OF ok sz len] ne] by blast
  have "ctx_ok (ctx_for q n)" using ctx_for_wf [OF ok sz len] by (simp add: row_wf_def)
  then have "mem_read b (i * row_bytes (ctx_for q n)) (key_w (ctx_for q n)) = Some (take (key_w (ctx_for q n)) k)"
    by (intro mem_read_prefix [OF k] key_w_le)
  moreover have "mem_read b (i * row_size_of q + 0 * getEffectiveKeyWidth q) (getEffectiveKeyWidth q) = Some (get_empty_key (getEffectiveKeyWidth q))"
    using row sz unfolding row_inited_def row_keys_def sizes_ok_def by blast
  ultimately have "take (key_w (ctx_for q n)) k = get_empty_key (key_w (ctx_for q n))" using c(2,5) by simp
  then show ?thesis using k by (simp add: row_key_at_def)
qed

lemma inited_slot:
  assumes ok: "init_ok q f vals special" and sz: "sizes_ok q n"
    and j: "j < getSlotCount q" "q_widths f ! j = 8" and range: "int_range 64 (slot_init (q_widths f) special vals j)"
    and row: "row_inited q f vals special (i * row_size_of q) b"
  shows "slot_val (ctx_for q n) (slot_off (q_widths q) j) b i = Some (slot_init (q_widths f) special vals j)"
    and "slot_fits (ctx_for q n) (slot_off (q_widths q) j)"
proof -
  note c = ctx_for_sizes [OF ok sz]
  note f = fixup_layout [OF ok]
  have jf: "j < length (q_widths f)" using j(1) f(3) by simp
  have kb: "align_to_int64 (key_len (ctx_for q n)) = key_bytes q"
    using sz c(4) by (simp add: key_bytes_def sizes_ok_def getGroupbyColCount_def)
  have "mem_read b (i * row_size_of q + key_bytes f + slot_off (q_widths f) j) 8 = Some (le_bytes 8 (slot_init (q_widths f) special vals j))"
    using row jf j(2) unfolding row_inited_def row_slots_def by (metis zero_neq_numeral)
  then show "slot_val (ctx_for q n) (slot_off (q_widths q) j) b i = Some (slot_init (q_widths f) special vals j)"
    using f(2,4) j(1) kb c(5) range unfolding slot_val_def row_res_def by (intro read_signed_mem) simp_all
  show "slot_fits (ctx_for q n) (slot_off (q_widths q) j)"
    using slot_off_inside [OF jf] f(2,4,5) j kb c(5) by (simp add: slot_fits_def)
qed

lemma group_query:
  assumes ok: "init_ok q fx vals special" and sz: "sizes_ok q n" and len: "n * row_size_of q \<le> length buf"
    and j: "j < getSlotCount q" "q_widths fx ! j = 8"
    and range: "int_range 64 (slot_init (q_widths fx) special vals j)"
    and keys: "\<forall>r \<in> set rs. group_key_ok (ctx_for q n) (fst r)" and room: "card (fst ` set rs) \<le> n"
    and aggs: "aggs_ok f (slot_init (q_widths fx) special vals j) rs"
  shows "\<exists>b0 b'. initRowGroups avx512 opt addr q vals special n 1 buf = Some b0 \<and>
      group_rows (ctx_for q n) (slot_off (q_widths q) j) f rs b0 = Inr b' \<and>
      group_inv (ctx_for q n) (slot_off (q_widths q) j) f (slot_init (q_widths fx) special vals j) rs b'"
proof -
  note c = ctx_for_sizes [OF ok sz]
  let ?c = "ctx_for q n" and ?so = "slot_off (q_widths q) j" and ?init = "slot_init (q_widths fx) special vals j"
  have "ctx_ok ?c" "key_len ?c \<le> row_bytes ?c" using ctx_for_wf [OF ok sz len] by (simp_all add: row_wf_def)
  then have pos: "0 < row_size_of q" using key_len_pos [of ?c] c(5) by linarith
  obtain b0 where b0: "initRowGroups avx512 opt addr q vals special n 1 buf = Some b0" "length b0 = length buf"
    "\<forall>r < n. row_inited q fx vals special (r * row_size_of q) b0"
    using initRowGroups_rows [OF ok pos, of 1 n buf avx512 opt addr] len by auto
  have len0: "n * row_size_of q \<le> length b0" using len b0(2) by simp
  have empty: "row_key_at ?c b0 i = None" if "i < n" for i
    using inited_row_empty [OF ok sz len0 that] b0(3) that by blast
  have slot: "slot_val ?c ?so b0 i = Some ?init" if "i < n" for i
    using inited_slot(1) [OF ok sz j range] b0(3) that by blast
  have "0 < n" using sz by (simp add: sizes_ok_def)
  then have fits: "slot_fits ?c ?so" using inited_slot(2) [OF ok sz j range] b0(3) by blast
  have "chain_inv n (group_home ?c) (row_key_at ?c b0)" using empty \<open>0 < n\<close> by (simp add: chain_inv_def)
  moreover have "stored n (row_key_at ?c b0) = {}" using empty by (auto simp: stored_def)
  ultimately have "group_inv ?c ?so f ?init [] b0"
    using ctx_for_wf [OF ok sz len0] c(1) empty slot by (simp add: group_inv_def)
  from group_rows_from [OF fits this keys] room aggs c(1) show ?thesis using b0(1) by auto
qed

end
