(* ===== verification/Group_By_Claims.thy ===== *)
theory Group_By_Claims
  imports Group_Query
begin

text \<open>
  The statements about the hashed and the perfect-hash group-by and about the initialisation of
  the output buffer, with a concrete table for each that has hypotheses.
\<close>

section \<open>Example tables\<close>

text \<open>A row-wise output of one 8-byte key and three slots, of which the second is a sum.\<close>

definition ex_ctx :: ColSlotContext where
  "ex_ctx = \<lparr>slot_sizes = [\<lparr>padded_size = 4, logical_size = 4\<rparr>, \<lparr>padded_size = 8, logical_size = 8\<rparr>,
                             \<lparr>padded_size = 4, logical_size = 4\<rparr>],
              col_to_slot_map = [[0], [1], [2]], varlen_output_slot_map = []\<rparr>"

definition ex_qmd :: QueryMemoryDescriptor where
  "ex_qmd = \<lparr>query_desc_type = GroupByBaselineHash, keyless_hash = False, interleaved_bins_on_gpu = False,
     warpSize = 1, group_col_widths = [8], group_col_compact_width = 8, qmd_entry_count = 5,
     output_columnar = False, sort_on_gpu = False, target_groupby_indices = [], col_slot_context = ex_ctx\<rparr>"

definition ex_fixed :: QueryMemoryDescriptor where
  "ex_fixed = ex_qmd\<lparr>col_slot_context := ex_ctx\<lparr>slot_sizes :=
     [\<lparr>padded_size = 8, logical_size = 4\<rparr>, \<lparr>padded_size = 8, logical_size = 8\<rparr>, \<lparr>padded_size = 8, logical_size = 4\<rparr>]\<rparr>\<rparr>"

definition ex_null :: int where "ex_null = - (2 ^ 63)"

definition ex_key :: "int \<Rightarrow> u8 list" where "ex_key v = le_bytes 8 v"

definition ex_rows :: "(u8 list \<times> int) list" where
  "ex_rows = [(ex_key 5, 10), (ex_key 9, ex_null), (ex_key 5, 30)]"

definition ex_sum :: "int \<Rightarrow> int \<Rightarrow> int option" where
  "ex_sum g v = map_option fst (agg_sum_skip_val g v ex_null)"

lemma ex_init_ok: "init_ok ex_qmd ex_fixed [0, ex_null, 0] [Plain, Plain, Plain]"
proof -
  have "slots_ready [8, 8, 8] [Plain, Plain, Plain] [0, ex_null, 0]"
    by (auto simp: slots_ready_def init_index_def takes_init_def less_Suc_eq numeral_3_eq_3)
  moreover have "q_widths ex_fixed = [8, 8, 8]" by code_simp
  moreover have "row_layout_ok ex_qmd \<and> 0 < getSlotCount ex_qmd \<and> fixupQueryMemoryDescriptor ex_qmd = Some ex_fixed \<and>
      getEffectiveKeyWidth ex_qmd \<in> {4, 8}" by code_simp
  ultimately show ?thesis by (simp add: init_ok_def)
qed

lemma ex_sizes [simp]: "row_size_of ex_qmd = 32" "getSlotCount ex_qmd = 3" "q_widths ex_fixed = [8, 8, 8]"
  "slot_off (q_widths ex_qmd) 1 = 8" "getGroupbyColCount ex_qmd = 1" "getEffectiveKeyWidth ex_qmd = 8" "keyless_hash ex_qmd = False"
  by code_simp+

lemma ex_sizes_ok: "sizes_ok ex_qmd 5"
  by (simp add: sizes_ok_def)

definition ex_group_ctx :: group_ctx where
  "ex_group_ctx = \<lparr>gc_entries = 5, gc_keys = 1, gc_width = 8, gc_row = 4\<rparr>"

lemma ex_ctx_for: "ctx_for ex_qmd 5 = ex_group_ctx"
  by (simp add: ctx_for_def ex_group_ctx_def)

lemma ex_keys: "\<forall>r \<in> set ex_rows. group_key_ok ex_group_ctx (fst r)" "card (fst ` set ex_rows) \<le> 5"
  by code_simp+

lemma ex_key_eq: "ex_key 5 \<noteq> ex_key 9"
  by code_simp

lemma ex_aggs: "aggs_ok ex_sum ex_null ex_rows"
proof -
  have "{0..length ex_rows} = {0, 1, 2, 3}" by (auto simp: ex_rows_def)
  then show ?thesis using ex_key_eq ex_key_eq [symmetric]
    by (simp add: aggs_ok_def ex_rows_def group_vals_def ex_sum_def agg_sum_skip_val_def agg_sum_def arith_result_def int_range_def ex_null_def)
qed

section \<open>Grouped aggregates\<close>

lemma group_inv_entries:
  assumes "group_inv c so f init rs b"
  shows "\<forall>k \<in> fst ` set rs. \<exists>!i. i < group_entries c \<and> row_key_at c b i = Some k"
    and "\<forall>i < group_entries c. \<forall>k. row_key_at c b i = Some k \<longrightarrow> k \<in> fst ` set rs \<and> slot_val c so b i = agg_fold f (group_vals k rs) init"
proof -
  have st: "stored (group_entries c) (row_key_at c b) = fst ` set rs" and chain: "chain_inv (group_entries c) (group_home c) (row_key_at c b)"
    using assms by (simp_all add: group_inv_def)
  show "\<forall>k \<in> fst ` set rs. \<exists>!i. i < group_entries c \<and> row_key_at c b i = Some k"
  proof
    fix k assume "k \<in> fst ` set rs"
    then have "k \<in> stored (group_entries c) (row_key_at c b)" by (simp only: st)
    then obtain i where i: "i < group_entries c" "row_key_at c b i = Some k" by (auto simp: stored_def image_iff)
    then show "\<exists>!i. i < group_entries c \<and> row_key_at c b i = Some k"
      using chain unfolding chain_inv_def by (metis option.distinct(1))
  qed
  show "\<forall>i < group_entries c. \<forall>k. row_key_at c b i = Some k \<longrightarrow> k \<in> fst ` set rs \<and> slot_val c so b i = agg_fold f (group_vals k rs) init"
  proof (intro allI impI conjI)
    fix i k assume i: "i < group_entries c" "row_key_at c b i = Some k"
    then have "k \<in> stored (group_entries c) (row_key_at c b)" by (force simp: stored_def image_iff)
    then show "k \<in> fst ` set rs" by (simp only: st)
    show "slot_val c so b i = agg_fold f (group_vals k rs) init" using assms i by (simp add: group_inv_def)
  qed
qed

text \<open>
  C3. A grouped aggregate from an uninitialised buffer: \<open>initRowGroups\<close>, on either of its paths,
  followed by one call of \<open>get_group_value\<close> and one update of an aggregate slot per input row.  If
  the rows have no more different keys than the buffer has entries and the aggregate of every
  prefix of a group fits its slot, all rows are processed, each key of the input is the key of
  exactly one entry and no entry has another key, and the slot of an entry holds the aggregate of
  the values of its group in the order of the rows.
\<close>

theorem grouped_aggregate:
  assumes "init_ok q fx vals special" and "sizes_ok q n" and "n * row_size_of q \<le> length buf"
    and "j < getSlotCount q" and "q_widths fx ! j = 8"
    and "int_range 64 (slot_init (q_widths fx) special vals j)"
    and "\<forall>r \<in> set rs. group_key_ok (ctx_for q n) (fst r)" and "card (fst ` set rs) \<le> n"
    and "aggs_ok f (slot_init (q_widths fx) special vals j) rs"
  shows "\<exists>b0 b'. initRowGroups avx512 opt addr q vals special n 1 buf = Some b0 \<and>
      group_rows (ctx_for q n) (slot_off (q_widths q) j) f rs b0 = Inr b' \<and>
      (\<forall>k \<in> fst ` set rs. \<exists>!i. i < n \<and> row_key_at (ctx_for q n) b' i = Some k) \<and>
      (\<forall>i < n. \<forall>k. row_key_at (ctx_for q n) b' i = Some k \<longrightarrow> k \<in> fst ` set rs \<and>
         slot_val (ctx_for q n) (slot_off (q_widths q) j) b' i =
           agg_fold f (group_vals k rs) (slot_init (q_widths fx) special vals j))"
proof -
  obtain b0 b' where b: "initRowGroups avx512 opt addr q vals special n 1 buf = Some b0"
      "group_rows (ctx_for q n) (slot_off (q_widths q) j) f rs b0 = Inr b'"
      "group_inv (ctx_for q n) (slot_off (q_widths q) j) f (slot_init (q_widths fx) special vals j) rs b'"
    using group_query [OF assms] by blast
  have "group_entries (ctx_for q n) = n" by (rule ctx_for_sizes(1) [OF assms(1,2)])
  then show ?thesis using b group_inv_entries [OF b(3)] by auto
qed

theorem grouped_aggregate_witness:
  "\<exists>b0 b' i. initRowGroups True True 8 ex_qmd [0, ex_null, 0] [Plain, Plain, Plain] 5 1 (replicate 160 7) = Some b0 \<and>
      group_rows ex_group_ctx 8 ex_sum ex_rows b0 = Inr b' \<and>
      i < 5 \<and> row_key_at ex_group_ctx b' i = Some (ex_key 5) \<and> slot_val ex_group_ctx 8 b' i = Some 40"
proof -
  have init: "slot_init [8, 8, 8] [Plain, Plain, Plain] [0, ex_null, 0] 1 = ex_null"
    by (simp add: slot_init_def init_index_def takes_init_def)
  have len: "5 * row_size_of ex_qmd \<le> length (replicate 160 (7 :: u8))" by simp
  have slot: "1 < getSlotCount ex_qmd" "q_widths ex_fixed ! 1 = 8" by simp_all
  have range: "int_range 64 (slot_init (q_widths ex_fixed) [Plain, Plain, Plain] [0, ex_null, 0] 1)"
    unfolding ex_sizes init by (simp add: int_range_def ex_null_def)
  have aggs: "aggs_ok ex_sum (slot_init (q_widths ex_fixed) [Plain, Plain, Plain] [0, ex_null, 0] 1) ex_rows"
    unfolding ex_sizes init by (rule ex_aggs)
  have k5: "ex_key 5 \<in> fst ` set ex_rows" by (simp add: ex_rows_def)
  have keys: "\<forall>r \<in> set ex_rows. group_key_ok (ctx_for ex_qmd 5) (fst r)" unfolding ex_ctx_for by (rule ex_keys)
  note res = grouped_aggregate [OF ex_init_ok ex_sizes_ok len slot range keys ex_keys(2) aggs, of True True 8]
  note res' = res [unfolded ex_sizes ex_ctx_for init]
  from res' obtain b0 b' where b: "initRowGroups True True 8 ex_qmd [0, ex_null, 0] [Plain, Plain, Plain] 5 1 (replicate 160 7) = Some b0"
      "group_rows ex_group_ctx 8 ex_sum ex_rows b0 = Inr b'"
      "\<forall>k \<in> fst ` set ex_rows. \<exists>!i. i < 5 \<and> row_key_at ex_group_ctx b' i = Some k"
      "\<forall>i < 5. \<forall>k. row_key_at ex_group_ctx b' i = Some k \<longrightarrow> k \<in> fst ` set ex_rows \<and>
         slot_val ex_group_ctx 8 b' i = agg_fold ex_sum (group_vals k ex_rows) ex_null"
    by (elim exE conjE)
  obtain i where i: "i < 5" "row_key_at ex_group_ctx b' i = Some (ex_key 5)" using bspec [OF b(3) k5] by (elim ex1E conjE)
  have "slot_val ex_group_ctx 8 b' i = agg_fold ex_sum (group_vals (ex_key 5) ex_rows) ex_null" using b(4) i by blast
  also have "\<dots> = Some 40" using ex_key_eq [symmetric]
    by (simp add: ex_rows_def group_vals_def ex_sum_def agg_sum_skip_val_def agg_sum_def int_range_def ex_null_def)
  finally show ?thesis using b(1,2) i by (intro exI conjI)
qed

section \<open>Looking up a group\<close>

text \<open>
  A row-wise table of five entries.  The home slots of 5 and 3 are the same, so 3 is in the slot
  after it, the last one, which is the home slot of 9.
\<close>

definition ex_table :: "u8 list" where
  "ex_table = concat (map (\<lambda>k. k @ replicate 24 1) [EMPTY_KEY_64, EMPTY_KEY_64, EMPTY_KEY_64, ex_key 5, ex_key 3])"

text \<open>The same keys in a columnar table, and a row-wise table of two entries that is full.\<close>

definition ex_columns :: "u8 list" where
  "ex_columns = concat [EMPTY_KEY_64, EMPTY_KEY_64, EMPTY_KEY_64, ex_key 5, ex_key 3]"

definition ex_full_ctx :: group_ctx where
  "ex_full_ctx = \<lparr>gc_entries = 2, gc_keys = 1, gc_width = 8, gc_row = 4\<rparr>"

definition ex_full :: "u8 list" where
  "ex_full = concat (map (\<lambda>k. k @ replicate 24 1) [ex_key 9, ex_key 5])"

lemma ex_homes:
  "group_home ex_group_ctx (ex_key 5) = 3" "group_home ex_group_ctx (ex_key 3) = 3" "group_home ex_group_ctx (ex_key 9) = 4"
  "group_home ex_full_ctx (ex_key 5) = 1" "group_home ex_full_ctx (ex_key 9) = 1"
  by code_simp+

lemma ex_ctx_sizes [simp]:
  "group_entries ex_group_ctx = 5" "key_w ex_group_ctx = 8" "key_len ex_group_ctx = 8" "row_bytes ex_group_ctx = 32"
  "group_entries ex_full_ctx = 2" "key_w ex_full_ctx = 8" "key_len ex_full_ctx = 8" "row_bytes ex_full_ctx = 32"
  by code_simp+

lemma length_ex_tables: "length ex_table = 160" "length ex_full = 64" "length ex_columns = 40"
  by code_simp+

lemma ex_table_wf: "row_wf ex_group_ctx ex_table" "row_wf ex_full_ctx ex_full" "col_wf ex_group_ctx ex_columns"
  by (simp_all add: row_wf_def col_wf_def ctx_ok_def length_ex_tables) (simp_all add: ex_group_ctx_def ex_full_ctx_def)

lemma ex_keys_ok: "group_key_ok ex_group_ctx (ex_key 9)" "group_key_ok ex_full_ctx (ex_key 7)"
  by code_simp+

lemma ex_table_keys: "map (row_key_at ex_group_ctx ex_table) [0..<5] = [None, None, None, Some (ex_key 5), Some (ex_key 3)]"
  "map (col_key_at ex_group_ctx ex_columns) [0..<5] = [None, None, None, Some (ex_key 5), Some (ex_key 3)]"
  "map (row_key_at ex_full_ctx ex_full) [0..<2] = [Some (ex_key 9), Some (ex_key 5)]"
  by code_simp+

lemma nth_of_map: "map f [0..<n] = xs \<Longrightarrow> i < n \<Longrightarrow> f i = xs ! i"
  by auto

lemma ex_full_chain: "chain_inv 2 (group_home ex_full_ctx) (row_key_at ex_full_ctx ex_full)"
proof -
  have k: "row_key_at ex_full_ctx ex_full 0 = Some (ex_key 9)" "row_key_at ex_full_ctx ex_full (Suc 0) = Some (ex_key 5)"
    using nth_of_map [OF ex_table_keys(3)] by simp_all
  have some: "row_key_at ex_full_ctx ex_full i \<noteq> None" if "i < 2" for i using that k by (auto simp: less_Suc_eq numeral_2_eq_2)
  have "row_key_at ex_full_ctx ex_full (m mod 2) \<noteq> None" for m by (rule some) simp
  moreover have "i = j" if "i < 2" "j < 2" "row_key_at ex_full_ctx ex_full i = row_key_at ex_full_ctx ex_full j" for i j
    using that k ex_key_eq by (auto simp: less_Suc_eq numeral_2_eq_2)
  ultimately show ?thesis unfolding chain_inv_def by blast
qed

text \<open>
  C5. \<open>get_group_value\<close> refines the lookup-or-insert on the keys of the slots alone: on a
  well-formed buffer whose slots hold the keys \<open>keys\<close> it returns the pointer behind the key of the slot
  that the specification gives, or \<open>NULL\<close> when the specification gives none, never accesses
  memory outside the buffer, and the slots of the new buffer hold the keys of the specification.
\<close>

theorem get_group_value_refines:
  assumes "row_wf c b" and "group_key_ok c k" and "0 < group_entries c"
    and "\<forall>i < group_entries c. row_key_at c b i = keys i"
  shows "\<exists>b'. get_group_value b (gc_entries c) k (gc_keys c) (gc_width c) (gc_row c) =
      Some (b', map_option (row_res c) (snd (find_or_insert (group_entries c) (group_home c k) keys k))) \<and>
    row_wf c b' \<and> (\<forall>i < group_entries c. row_key_at c b' i = fst (find_or_insert (group_entries c) (group_home c k) keys k) i)"
proof -
  have c: "ctx_ok c" "length k = key_len c" using assms(1,2) by (simp_all add: row_wf_def group_key_ok_def)
  show ?thesis unfolding get_group_value_probe [OF c assms(3)] by (rule row_table.probe_refines [OF assms]) blast
qed

theorem get_group_value_refines_witness:
  "\<exists>b'. get_group_value ex_table 5 (ex_key 9) 1 8 4 = Some (b', Some 8) \<and>
     map (row_key_at ex_group_ctx b') [0..<5] = [Some (ex_key 9), None, None, Some (ex_key 5), Some (ex_key 3)]"
proof -
  let ?keys = "\<lambda>i. [None, None, None, Some (ex_key 5), Some (ex_key 3)] ! i"
  have "\<forall>i < group_entries ex_group_ctx. row_key_at ex_group_ctx ex_table i = ?keys i"
    using nth_of_map [OF ex_table_keys(1)] by simp
  moreover have "find_or_insert 5 (group_home ex_group_ctx (ex_key 9)) ?keys (ex_key 9) = (?keys(0 := Some (ex_key 9)), Some 0)"
  proof -
    have "stop_slot 5 4 ?keys (ex_key 9) = Some 0" by code_simp
    then show ?thesis by (simp add: find_or_insert_def ex_homes)
  qed
  moreover have "row_res ex_group_ctx 0 = 8" by code_simp
  ultimately have "\<exists>b'. get_group_value ex_table 5 (ex_key 9) 1 8 4 = Some (b', Some 8) \<and>
      (\<forall>i < 5. row_key_at ex_group_ctx b' i = (?keys(0 := Some (ex_key 9))) i)"
    using get_group_value_refines [OF ex_table_wf(1) ex_keys_ok(1), of ?keys]
    by (simp del: fun_upd_apply) (auto simp: ex_group_ctx_def simp del: fun_upd_apply)
  then obtain b' where b': "get_group_value ex_table 5 (ex_key 9) 1 8 4 = Some (b', Some 8)"
    "\<And>i. i < 5 \<Longrightarrow> row_key_at ex_group_ctx b' i = (?keys(0 := Some (ex_key 9))) i" by blast
  have "map (row_key_at ex_group_ctx b') [0..<5] = map (?keys(0 := Some (ex_key 9))) [0..<5]"
    using b'(2) by (intro map_cong) simp_all
  then show ?thesis using b'(1) by (simp add: upt_rec)
qed

text \<open>
  C9. What \<open>get_group_value\<close> does at every state of a table: it always returns; the result is
  \<open>NULL\<close> exactly when no slot is empty and none has the key, and then the buffer is not changed;
  for a key that has an entry the result is the pointer of that entry and the buffer is not
  changed; otherwise the key is stored in an empty slot and no other slot changes.  The table stays
  one in which every stored key is found.
\<close>

theorem get_group_value_outcomes:
  assumes "row_wf c b" and "chain_inv (group_entries c) (group_home c) (row_key_at c b)" and "group_key_ok c k"
    and "0 < group_entries c"
  shows "\<exists>b' r. get_group_value b (gc_entries c) k (gc_keys c) (gc_width c) (gc_row c) = Some (b', r) \<and>
    row_wf c b' \<and> chain_inv (group_entries c) (group_home c) (row_key_at c b') \<and>
    (r = None \<longleftrightarrow> (\<forall>i < group_entries c. row_key_at c b i \<noteq> None \<and> row_key_at c b i \<noteq> Some k)) \<and>
    (r = None \<longrightarrow> b' = b) \<and>
    (\<forall>i < group_entries c. row_key_at c b i = Some k \<longrightarrow> r = Some (row_res c i) \<and> b' = b) \<and>
    (r \<noteq> None \<longrightarrow> (\<exists>i < group_entries c. r = Some (row_res c i) \<and>
        (\<forall>j < group_entries c. row_key_at c b' j = (if j = i then Some k else row_key_at c b j))))"
proof -
  let ?n = "group_entries c" and ?P = "probe_find (row_attempt c k) (group_entries c) (group_home c k) b"
  have c: "ctx_ok c" "length k = key_len c" using assms(1,3) by (simp_all add: row_wf_def group_key_ok_def)
  note eq = get_group_value_probe [OF c assms(4), of b]
  consider (present) i where "i < ?n" "row_key_at c b i = Some k"
    | (full) "\<forall>i < ?n. row_key_at c b i \<noteq> None \<and> row_key_at c b i \<noteq> Some k"
    | (free) i0 where "\<forall>i < ?n. row_key_at c b i \<noteq> Some k" "i0 < ?n" "row_key_at c b i0 = None" by blast
  then show ?thesis
  proof cases
    case present
    have "?P = Some (b, Some (row_res c i))" by (rule row_table.probe_present [OF assms(1-3) present])
    moreover have "j = i" if "j < ?n" "row_key_at c b j = Some k" for j
      using assms(2) present that unfolding chain_inv_def by (metis option.distinct(1))
    ultimately have P: "?P = Some (b, Some (row_res c i))" and uniq: "\<And>j. j < ?n \<Longrightarrow> row_key_at c b j = Some k \<Longrightarrow> j = i" by blast+
    have "\<not> (\<forall>i < ?n. row_key_at c b i \<noteq> None \<and> row_key_at c b i \<noteq> Some k)" using present by blast
    moreover have "\<forall>j < ?n. row_key_at c b j = (if j = i then Some k else row_key_at c b j)" using present(2) by simp
    ultimately show ?thesis unfolding eq P using assms(1,2) present(1) uniq
      by (intro exI [of _ b] exI [of _ "Some (row_res c i)"]) (metis option.distinct(1))
  next
    case full
    have P: "?P = Some (b, None)" by (rule row_table.probe_full [OF assms full])
    show ?thesis unfolding eq P using assms(1,2) full by (intro exI [of _ b] exI [of _ None]) simp
  next
    case free
    obtain i b' where b': "i < ?n" "?P = Some (b', Some (row_res c i))" "row_wf c b'"
      "chain_inv ?n (group_home c) (row_key_at c b')" "\<forall>j < ?n. row_key_at c b' j = (if j = i then Some k else row_key_at c b j)"
      by (rule row_table.probe_insert [OF assms(1-3) free])
    have "\<not> (\<forall>i < ?n. row_key_at c b i \<noteq> None \<and> row_key_at c b i \<noteq> Some k)" using free by blast
    then show ?thesis unfolding eq b'(2) using b'(1,3-5) free(1)
      by (intro exI [of _ b'] exI [of _ "Some (row_res c i)"]) (metis option.distinct(1))
  qed
qed

theorem get_group_value_outcomes_witness:
  "get_group_value ex_full 2 (ex_key 7) 1 8 4 = Some (ex_full, None) \<and>
   get_group_value ex_full 2 (ex_key 9) 1 8 4 = Some (ex_full, Some 8)"
proof -
  have k: "row_key_at ex_full_ctx ex_full 0 = Some (ex_key 9)" "row_key_at ex_full_ctx ex_full (Suc 0) = Some (ex_key 5)"
    using nth_of_map [OF ex_table_keys(3)] by simp_all
  have wf: "chain_inv (group_entries ex_full_ctx) (group_home ex_full_ctx) (row_key_at ex_full_ctx ex_full)"
    using ex_full_chain by simp
  have ne: "ex_key 7 \<noteq> ex_key 9" "ex_key 7 \<noteq> ex_key 5" "group_key_ok ex_full_ctx (ex_key 9)" "row_res ex_full_ctx 0 = 8" by code_simp+
  have full: "\<forall>i < group_entries ex_full_ctx. row_key_at ex_full_ctx ex_full i \<noteq> None \<and> row_key_at ex_full_ctx ex_full i \<noteq> Some (ex_key 7)"
    using k ne(1,2) by (auto simp: less_Suc_eq numeral_2_eq_2)
  have pos: "0 < group_entries ex_full_ctx" by simp
  obtain b1 r1 where 1: "get_group_value ex_full (gc_entries ex_full_ctx) (ex_key 7) (gc_keys ex_full_ctx) (gc_width ex_full_ctx) (gc_row ex_full_ctx) = Some (b1, r1)"
    "r1 = None \<longleftrightarrow> (\<forall>i < group_entries ex_full_ctx. row_key_at ex_full_ctx ex_full i \<noteq> None \<and> row_key_at ex_full_ctx ex_full i \<noteq> Some (ex_key 7))"
    "r1 = None \<longrightarrow> b1 = ex_full"
    using get_group_value_outcomes [OF ex_table_wf(2) wf ex_keys_ok(2) pos] by (elim exE conjE) (rule that)
  obtain b2 r2 where 2: "get_group_value ex_full (gc_entries ex_full_ctx) (ex_key 9) (gc_keys ex_full_ctx) (gc_width ex_full_ctx) (gc_row ex_full_ctx) = Some (b2, r2)"
    "\<forall>i < group_entries ex_full_ctx. row_key_at ex_full_ctx ex_full i = Some (ex_key 9) \<longrightarrow> r2 = Some (row_res ex_full_ctx i) \<and> b2 = ex_full"
    using get_group_value_outcomes [OF ex_table_wf(2) wf ne(3) pos] by (elim exE conjE) (rule that)
  have "r1 = None" using 1(2) full by blast
  moreover have "b1 = ex_full" using 1(3) \<open>r1 = None\<close> by blast
  moreover have "r2 = Some 8 \<and> b2 = ex_full" using 2(2) k(1) pos ne(4) by force
  ultimately show ?thesis using 1(1) 2(1) by (simp add: ex_full_ctx_def)
qed

end
