(* ===== verification/Group_Variant_Claims.thy ===== *)
theory Group_Variant_Claims
  imports Group_By_Claims
begin

text \<open>
  The variants of the group lookup: the columnar layouts, the watchdog, keys that collide with the
  mark of an empty slot, the hash function of the keys, perfect-hash tables, and the paths of the
  initialisation.
\<close>

section \<open>Layouts\<close>

lemma to_i32_small: "i < 2 ^ 31 \<Longrightarrow> to_i32 (int i) = int i"
  by (simp add: to_i32_def signed_take_bit_int_eq_self)

text \<open>
  C10. The layouts agree: on a row-wise and a columnar buffer that hold the same keys in the same
  slots, \<open>get_group_value\<close>, \<open>get_group_value_columnar_slot\<close> and, for 8-byte keys,
  \<open>get_group_value_columnar\<close> choose the same slot for a key, report that the table is full (\<open>NULL\<close> and -1) in the
  same cases, and leave buffers that again hold the same keys.
\<close>

theorem group_layouts_agree:
  assumes "row_wf c b" and "col_wf c d" and "group_key_ok c k" and "0 < group_entries c" and "group_entries c \<le> 2 ^ 31"
    and "\<forall>i < group_entries c. row_key_at c b i = col_key_at c d i"
  shows "\<exists>b' d' s. get_group_value b (gc_entries c) k (gc_keys c) (gc_width c) (gc_row c) = Some (b', map_option (row_res c) s) \<and>
    get_group_value_columnar_slot d (gc_entries c) k (gc_keys c) (gc_width c) = Some (d', case s of None \<Rightarrow> - 1 | Some i \<Rightarrow> int i) \<and>
    row_wf c b' \<and> col_wf c d' \<and> (\<forall>i < group_entries c. row_key_at c b' i = col_key_at c d' i) \<and>
    (gc_width c = 8 \<longrightarrow> (\<exists>e'. get_group_value_columnar d (gc_entries c) k (gc_keys c) = Some (e', map_option (col_ptr_res c) s) \<and>
       col_wf c e' \<and> (\<forall>i < group_entries c. row_key_at c b' i = col_key_at c e' i)))"
proof -
  let ?n = "group_entries c"
  define s where "s = find_or_insert ?n (group_home c k) (col_key_at c d) k"
  have c: "ctx_ok c" "length k = key_len c" using assms(1,3) by (simp_all add: row_wf_def group_key_ok_def)
  have refl: "\<forall>i < ?n. col_key_at c d i = col_key_at c d i" by simp
  obtain b' where b': "get_group_value b (gc_entries c) k (gc_keys c) (gc_width c) (gc_row c) = Some (b', map_option (row_res c) (snd s))"
    "row_wf c b'" "\<forall>i < ?n. row_key_at c b' i = fst s i"
    unfolding get_group_value_probe [OF c assms(4)] s_def by (rule row_table.probe_refines [OF assms(1,3,4,6)])
  obtain d' where d': "probe_find (col_slot_attempt c k) ?n (group_home c k) d = Some (d', map_option (col_slot_res c) (snd s))"
    "col_wf c d'" "\<forall>i < ?n. col_key_at c d' i = fst s i"
    unfolding s_def by (rule col_slot_table.probe_refines [OF assms(2,3,4) refl])
  have slot: "(case map_option (col_slot_res c) (snd s) of Some slot \<Rightarrow> slot | None \<Rightarrow> - 1) = (case snd s of None \<Rightarrow> - 1 | Some i \<Rightarrow> int i)"
  proof (cases "snd s")
    case (Some i)
    then have "stop_slot ?n (group_home c k) (col_key_at c d) k = Some i"
      by (auto simp: s_def find_or_insert_def split: option.splits)
    then have "i < ?n" using stop_slot_Some [OF _ assms(4)] by metis
    then show ?thesis using assms(5) Some to_i32_small [of i] by (simp add: col_slot_res_def)
  qed simp
  have col: "get_group_value_columnar_slot d (gc_entries c) k (gc_keys c) (gc_width c) = Some (d', case snd s of None \<Rightarrow> - 1 | Some i \<Rightarrow> int i)"
    unfolding get_group_value_columnar_slot_probe [OF c assms(4)] d'(1) slot [symmetric] by simp
  have "\<exists>e'. get_group_value_columnar d (gc_entries c) k (gc_keys c) = Some (e', map_option (col_ptr_res c) (snd s)) \<and>
       col_wf c e' \<and> (\<forall>i < ?n. row_key_at c b' i = col_key_at c e' i)" if w: "gc_width c = 8"
  proof -
    have "col_ptr_wf c d" using assms(2) w by (simp add: col_ptr_wf_def)
    from col_ptr_table.probe_refines [OF this assms(3,4) refl] obtain e' where
      "probe_find (col_ptr_attempt c k) ?n (group_home c k) d = Some (e', map_option (col_ptr_res c) (snd s))"
      "col_ptr_wf c e'" "\<forall>i < ?n. col_key_at c e' i = fst s i" unfolding s_def by blast
    then show ?thesis using b'(3) by (simp add: get_group_value_columnar_probe [OF c assms(4) w] col_ptr_wf_def)
  qed
  then show ?thesis using b' col d'(2,3) by (intro exI [of _ b'] exI [of _ d'] exI [of _ "snd s"]) simp
qed

theorem group_layouts_agree_witness:
  "\<exists>b' d' s. get_group_value ex_table 5 (ex_key 9) 1 8 4 = Some (b', map_option (row_res ex_group_ctx) s) \<and>
     get_group_value_columnar_slot ex_columns 5 (ex_key 9) 1 8 = Some (d', case s of None \<Rightarrow> - 1 | Some i \<Rightarrow> int i) \<and>
     map (row_key_at ex_group_ctx b') [0..<5] = map (col_key_at ex_group_ctx d') [0..<5]"
proof -
  have n: "0 < group_entries ex_group_ctx" "group_entries ex_group_ctx \<le> 2 ^ 31" by simp_all
  have same: "\<forall>i < group_entries ex_group_ctx. row_key_at ex_group_ctx ex_table i = col_key_at ex_group_ctx ex_columns i"
    using nth_of_map [OF ex_table_keys(1)] nth_of_map [OF ex_table_keys(2)] by simp
  obtain b' d' s where "get_group_value ex_table (gc_entries ex_group_ctx) (ex_key 9) (gc_keys ex_group_ctx) (gc_width ex_group_ctx) (gc_row ex_group_ctx) =
      Some (b', map_option (row_res ex_group_ctx) s)"
    "get_group_value_columnar_slot ex_columns (gc_entries ex_group_ctx) (ex_key 9) (gc_keys ex_group_ctx) (gc_width ex_group_ctx) =
      Some (d', case s of None \<Rightarrow> - 1 | Some i \<Rightarrow> int i)"
    "\<forall>i < group_entries ex_group_ctx. row_key_at ex_group_ctx b' i = col_key_at ex_group_ctx d' i"
    using group_layouts_agree [OF ex_table_wf(1,3) ex_keys_ok(1) n same] by (elim exE conjE) (rule that)
  moreover from this(3) have "map (row_key_at ex_group_ctx b') [0..<5] = map (col_key_at ex_group_ctx d') [0..<5]"
    by (intro map_cong) simp_all
  ultimately show ?thesis by (intro exI [of _ b'] exI [of _ d'] exI [of _ s]) (simp add: ex_group_ctx_def)
qed

section \<open>The watchdog\<close>

text \<open>
  C21. The lookup with the watchdog returns whatever the watchdog answers, at most once round the
  table; a pointer it returns is the one of the plain lookup, with the same buffer; when it
  returns \<open>NULL\<close> it has not changed the buffer; and with a watchdog that never fires it is the
  plain lookup.
\<close>

theorem get_group_value_watchdog:
  assumes "row_wf c b" and "group_key_ok c k" and "0 < group_entries c"
  shows "\<exists>b' r. get_group_value_with_watchdog wd b (gc_entries c) k (gc_keys c) (gc_width c) (gc_row c) = Some (b', r) \<and>
    (r \<noteq> None \<longrightarrow> get_group_value b (gc_entries c) k (gc_keys c) (gc_width c) (gc_row c) = Some (b', r)) \<and>
    (r = None \<longrightarrow> b' = b) \<and>
    ((\<forall>t. \<not> wd t) \<longrightarrow> get_group_value b (gc_entries c) k (gc_keys c) (gc_width c) (gc_row c) = Some (b', r))"
proof -
  have c: "ctx_ok c" "length k = key_len c" using assms(1,2) by (simp_all add: row_wf_def group_key_ok_def)
  obtain b' r where r: "probe_find_wd (row_attempt c k) wd (group_entries c) (group_home c k) b = Some (b', r)" "r = None \<longrightarrow> b' = b"
    using row_table.probe_find_wd_total [OF assms] by blast
  have "r \<noteq> None \<Longrightarrow> probe_find (row_attempt c k) (group_entries c) (group_home c k) b = Some (b', r)"
    using probe_find_wd_found [of "row_attempt c k" wd] r(1) by auto
  moreover have "\<forall>t. \<not> wd t \<Longrightarrow> probe_find (row_attempt c k) (group_entries c) (group_home c k) b = Some (b', r)"
    using probe_find_wd_quiet [of wd "row_attempt c k"] r(1) by simp
  ultimately show ?thesis unfolding get_group_value_with_watchdog_probe [OF c assms(3)] get_group_value_probe [OF c assms(3)]
    using r by blast
qed

theorem get_group_value_watchdog_witness:
  "\<exists>b' r. get_group_value_with_watchdog (\<lambda>t. t = 0) ex_table 5 (ex_key 9) 1 8 4 = Some (b', r) \<and>
     (if r = None then b' = ex_table else get_group_value ex_table 5 (ex_key 9) 1 8 4 = Some (b', r))"
proof -
  have "0 < group_entries ex_group_ctx" by simp
  from get_group_value_watchdog [OF ex_table_wf(1) ex_keys_ok(1) this, of "\<lambda>t. t = 0"] obtain b' r where
    "get_group_value_with_watchdog (\<lambda>t. t = 0) ex_table (gc_entries ex_group_ctx) (ex_key 9) (gc_keys ex_group_ctx) (gc_width ex_group_ctx) (gc_row ex_group_ctx) = Some (b', r)"
    "r \<noteq> None \<longrightarrow> get_group_value ex_table (gc_entries ex_group_ctx) (ex_key 9) (gc_keys ex_group_ctx) (gc_width ex_group_ctx) (gc_row ex_group_ctx) = Some (b', r)"
    "r = None \<longrightarrow> b' = ex_table" by (elim exE conjE) (rule that)
  then show ?thesis by (intro exI [of _ b'] exI [of _ r]) (auto simp: ex_group_ctx_def)
qed

section \<open>Keys that look empty\<close>

lemma row_read_empty:
  assumes wf: "row_wf c b" and i: "i < group_entries c"
  shows "row_key_at c b i = None \<longleftrightarrow> (\<exists>r. mem_read b (i * row_bytes c) (key_len c) = Some r \<and> take (key_w c) r = get_empty_key (key_w c))"
proof -
  obtain r where "mem_read b (i * row_bytes c) (key_len c) = Some r" using row_read_key [OF wf i] by blast
  then show ?thesis by (simp add: row_key_at_def)
qed

text \<open>
  C34. The mark of an empty slot is also a value of the key type, the largest one.  A key whose
  first component has this value is given the pointer of the first slot it visits if that is empty,
  but the slot still counts as empty afterwards: the next key that visits it first gets the same pointer, and
  the two groups share one entry.
\<close>

theorem empty_key_entry_shared:
  assumes wf: "row_wf c b" and len: "length k = key_len c" and mark: "take (key_w c) k = get_empty_key (key_w c)" and n: "0 < group_entries c"
    and free: "row_key_at c b (group_home c k) = None" and k2: "group_key_ok c k2" "group_home c k2 = group_home c k"
  shows "k2 \<noteq> k \<and> (\<exists>b1 b2 p. get_group_value b (gc_entries c) k (gc_keys c) (gc_width c) (gc_row c) = Some (b1, Some p) \<and>
    get_group_value b1 (gc_entries c) k2 (gc_keys c) (gc_width c) (gc_row c) = Some (b2, Some p))"
proof -
  let ?i = "group_home c k"
  have i: "?i < group_entries c" by (rule group_home_less [OF n])
  have c: "ctx_ok c" "length k2 = key_len c" using wf k2 by (simp_all add: row_wf_def group_key_ok_def)
  obtain r where r: "mem_read b (?i * row_bytes c) (key_len c) = Some r" "take (key_w c) r = get_empty_key (key_w c)"
    using free row_read_empty [OF wf i] by blast
  obtain b1 where b1: "mem_write b (?i * row_bytes c) k = Some b1"
    using mem_write_some [of "?i * row_bytes c" k b] r(1) len by (auto simp: mem_read_def split: if_splits)
  then have "row_attempt c k b ?i = Some (b1, Some (row_res c ?i))" using row_attempt_eq [OF wf i len r(1)] r(2) by simp
  then have first: "get_group_value b (gc_entries c) k (gc_keys c) (gc_width c) (gc_row c) = Some (b1, Some (row_res c ?i))"
    by (simp add: get_group_value_probe [OF c(1) len n] probe_find_def)
  have wf1: "row_wf c b1" using wf mem_write_length [OF b1] by (simp add: row_wf_def)
  have "mem_read b1 (?i * row_bytes c) (key_len c) = Some k" using mem_read_write_same [OF b1] len by simp
  then have "row_key_at c b1 ?i = None" using mark by (simp add: row_key_at_def)
  then obtain b2 where "row_attempt c k2 b1 ?i = Some (b2, Some (row_res c ?i))" using row_table.try_empty [OF wf1 k2(1) i] by blast
  then have "get_group_value b1 (gc_entries c) k2 (gc_keys c) (gc_width c) (gc_row c) = Some (b2, Some (row_res c ?i))"
    by (simp add: get_group_value_probe [OF c n] probe_find_def k2(2))
  moreover have "k2 \<noteq> k" using k2(1) mark by (auto simp: group_key_ok_def)
  ultimately show ?thesis using first by blast
qed

definition ex_one_ctx :: group_ctx where
  "ex_one_ctx = \<lparr>gc_entries = 1, gc_keys = 1, gc_width = 8, gc_row = 4\<rparr>"

theorem empty_key_entry_shared_witness:
  "\<exists>b1 b2 p. get_group_value (EMPTY_KEY_64 @ replicate 24 0) 1 (ex_key (2 ^ 63 - 1)) 1 8 4 = Some (b1, Some p) \<and>
     get_group_value b1 1 (ex_key 7) 1 8 4 = Some (b2, Some p)"
proof -
  let ?b = "EMPTY_KEY_64 @ replicate 24 0" and ?k = "ex_key (2 ^ 63 - 1)"
  have sz: "group_entries ex_one_ctx = 1" "key_w ex_one_ctx = 8" "key_len ex_one_ctx = 8" "row_bytes ex_one_ctx = 32" by code_simp+
  have len: "length ?b = 32" by code_simp
  have wf: "row_wf ex_one_ctx ?b" by (simp only: row_wf_def ctx_ok_def sz len) (simp add: ex_one_ctx_def)
  have k: "length ?k = key_len ex_one_ctx" "take (key_w ex_one_ctx) ?k = get_empty_key (key_w ex_one_ctx)"
    unfolding sz by (simp_all add: ex_key_def get_empty_key_def)
  have n: "0 < group_entries ex_one_ctx" using sz by simp
  have home: "group_home ex_one_ctx k = 0" for k using group_home_less [OF n, of k] sz(1) by simp
  have free: "row_key_at ex_one_ctx ?b 0 = None" by code_simp
  have k2: "group_key_ok ex_one_ctx (ex_key 7)" by code_simp
  have "\<exists>b1 b2 p. get_group_value ?b (gc_entries ex_one_ctx) ?k (gc_keys ex_one_ctx) (gc_width ex_one_ctx) (gc_row ex_one_ctx) = Some (b1, Some p) \<and>
     get_group_value b1 (gc_entries ex_one_ctx) (ex_key 7) (gc_keys ex_one_ctx) (gc_width ex_one_ctx) (gc_row ex_one_ctx) = Some (b2, Some p)"
    using empty_key_entry_shared [OF wf k n _ k2] free home by simp
  then show ?thesis by (simp add: ex_one_ctx_def)
qed

section \<open>The hash of a key\<close>

text \<open>
  Keys of whole 4-byte blocks that differ in one block only have different values under
  \<open>MurmurHash3\<close>, for every seed: \<open>key_hash\<close> never maps two keys that differ in one 32-bit word,
  in particular two values of a single 4-byte key, to one hash.
\<close>

theorem key_hash_one_word:
  assumes "length a = 4 * n" and "length b = 4 * n" and "j < n"
    and "\<forall>i < n. i \<noteq> j \<longrightarrow> block_at a i = block_at b i" and "block_at a j \<noteq> block_at b j"
    and "4 * n = unat (kw * kc)" and "kw * kc < 2 ^ 31"
  shows "key_hash a kc kw \<noteq> key_hash b kc kw \<and> key_hash a kc kw \<noteq> None"
proof -
  have len: "unat (kw * kc) = 4 * n" using assms(6) by simp
  have "MurmurHash3 a (4 * n) 0 \<noteq> MurmurHash3 b (4 * n) 0" by (rule MurmurHash3_one_block [OF assms(1-5)])
  moreover have "\<exists>h. MurmurHash3 a (4 * n) 0 = Some h" by (rule MurmurHash3_total [OF assms(1)])
  moreover have "key_hash x kc kw = MurmurHash3 x (4 * n) 0" for x
  proof -
    have "\<not> 2 ^ 31 \<le> kw * kc" using assms(7) by (simp only: not_le)
    then show ?thesis by (simp only: key_hash_def Let_def len if_False)
  qed
  ultimately show ?thesis by auto
qed

theorem key_hash_one_word_witness:
  "key_hash (ex_key 5) 1 8 \<noteq> key_hash (ex_key 9) 1 8"
proof -
  have *: "length (ex_key 5) = 4 * 2" "length (ex_key 9) = 4 * 2" "(0 :: nat) < 2" by (simp_all add: ex_key_def)
  have same: "\<forall>i < 2. i \<noteq> 0 \<longrightarrow> block_at (ex_key 5) i = block_at (ex_key 9) i"
  proof -
    have "block_at (ex_key 5) 1 = block_at (ex_key 9) 1" by code_simp
    then show ?thesis by (simp add: less_Suc_eq numeral_2_eq_2)
  qed
  have diff: "block_at (ex_key 5) 0 \<noteq> block_at (ex_key 9) 0" by code_simp
  have "4 * 2 = unat (8 * 1 :: u32)" "8 * 1 < (2 ^ 31 :: u32)" by simp_all
  from key_hash_one_word [OF * same diff this] show ?thesis by simp
qed

section \<open>Perfect-hash group-by\<close>

definition fast_bin :: "int \<Rightarrow> int \<Rightarrow> int \<Rightarrow> nat" where
  "fast_bin min_key bucket key = nat (if bucket = 0 then key - min_key else (key - min_key) div bucket)"

lemma fast_bin_diff:
  assumes "min_key \<le> key" and "key - min_key < 2 ^ 63" and "0 \<le> bucket"
  shows "(if bucket \<noteq> 0 then chk64 ((key - min_key) sdiv bucket) else Some (key - min_key)) = Some (int (fast_bin min_key bucket key))"
    and "chk64 (key - min_key) = Some (key - min_key)" and "int (fast_bin min_key bucket key) < 2 ^ 63"
proof -
  have le: "0 \<le> (key - min_key) div bucket \<and> (key - min_key) div bucket \<le> key - min_key" if "0 < bucket"
    using that assms zdiv_mono2 [of "key - min_key" 1 bucket] by (simp add: pos_imp_zdiv_nonneg_iff)
  have "(key - min_key) sdiv bucket = (key - min_key) div bucket" if "0 < bucket"
    using that assms(1) by (simp add: signed_divide_int_def sgn_if) 
  then show "(if bucket \<noteq> 0 then chk64 ((key - min_key) sdiv bucket) else Some (key - min_key)) = Some (int (fast_bin min_key bucket key))"
    using le assms by (cases "bucket = 0") (auto simp: chk64_def fast_bin_def)
  show "chk64 (key - min_key) = Some (key - min_key)" using assms by (simp add: chk64_def)
  show "int (fast_bin min_key bucket key) < 2 ^ 63" using le assms by (cases "bucket = 0") (auto simp: fast_bin_def)
qed

text \<open>
  C25. \<open>get_group_value_fast\<close> on a key in the range of its table: the pointer is the slot behind
  the key of the entry whose number is the distance from the smallest key, divided by the bucket;
  an empty entry is given the key and a used one is not changed, no other byte of the buffer
  changes, and \<open>get_columnar_group_bin_offset\<close> gives the same number for the columnar layout.
\<close>

theorem get_group_value_fast_entry:
  assumes "min_key \<le> key" and "key - min_key < 2 ^ 63" and "0 \<le> bucket" and "fast_bin min_key bucket key < n"
    and "n * unat rsq * 8 \<le> length buf" and "int n * uint rsq < 2 ^ 63" and "0 < rsq" and "n * 8 \<le> length keys" and "n \<le> 2 ^ 32"
  shows "\<exists>buf' keys'. get_group_value_fast buf key min_key bucket rsq = Some (buf', (fast_bin min_key bucket key * unat rsq + 1) * 8) \<and>
    (let p = fast_bin min_key bucket key * unat rsq * 8
     in p + 8 \<le> length buf \<and> same_outside p (p + 8) buf buf' \<and>
        mem_read buf' p 8 = (if mem_read buf p 8 = Some EMPTY_KEY_64 then Some (le_bytes 8 key) else mem_read buf p 8)) \<and>
    get_columnar_group_bin_offset keys key min_key bucket = Some (keys', of_nat (fast_bin min_key bucket key)) \<and>
    unat (of_nat (fast_bin min_key bucket key) :: u32) = fast_bin min_key bucket key"
proof -
  define i where "i = fast_bin min_key bucket key"
  define p where "p = i * unat rsq * 8"
  note d = fast_bin_diff [OF assms(1-3), folded i_def]
  have r: "1 \<le> unat rsq" using assms(7) by (simp add: word_less_nat_alt)
  have "i * unat rsq * 8 + 8 \<le> n * unat rsq * 8"
    using entry_inside [of i n "1" "unat rsq"] assms(4) r by (simp add: i_def)
  then have inside: "p + 8 \<le> length buf" using assms(5) by (simp add: p_def)
  have "int i * uint rsq \<le> int n * uint rsq" using assms(4) by (intro mult_right_mono) (simp_all add: i_def)
  moreover have "0 \<le> int i * uint rsq" by simp
  ultimately have "chk64 (int i * uint rsq) = Some (int i * uint rsq)" using assms(6) unfolding chk64_def by (intro if_P) linarith
  moreover have "elem64 (int i * uint rsq) = Some p"
  proof -
    have "int i * uint rsq = int (i * unat rsq)" by simp
    moreover have "elem64 (int m) = Some (m * 8)" for m by (simp add: elem64_def)
    ultimately show ?thesis unfolding p_def by metis
  qed
  ultimately have fast: "get_group_value_fast buf key min_key bucket rsq =
      do { first \<leftarrow> mem_read buf p 8;
           buf \<leftarrow> (if first = EMPTY_KEY_64 then mem_write buf p (le_bytes 8 key) else Some buf); Some (buf, p + 8) }"
    unfolding get_group_value_fast_def d(1,2) bind.bind_lunit by simp
  have "8 * i + 8 \<le> length keys" using assms(4,8) by (simp add: i_def)
  then have col: "\<exists>keys'. get_columnar_group_bin_offset keys key min_key bucket = Some (keys', of_nat i)"
    unfolding get_columnar_group_bin_offset_def d(1,2) bind.bind_lunit
    by (simp add: elem64_def mem_read_def mem_write_def mult.commute)
  have "\<exists>buf'. get_group_value_fast buf key min_key bucket rsq = Some (buf', p + 8) \<and> same_outside p (p + 8) buf buf' \<and>
      mem_read buf' p 8 = (if mem_read buf p 8 = Some EMPTY_KEY_64 then Some (le_bytes 8 key) else mem_read buf p 8)"
  proof (cases "mem_read buf p 8 = Some EMPTY_KEY_64")
    case True
    obtain buf' where w: "mem_write buf p (le_bytes 8 key) = Some buf'" using mem_write_some [of p "le_bytes 8 key" buf] inside by auto
    have "same_outside p (p + 8) buf buf'" using mem_write_length [OF w] mem_write_nth [OF w] by (auto simp: same_outside_def)
    then show ?thesis using True w fast mem_read_write_same [OF w] by simp
  next
    case False
    then show ?thesis using fast mem_read_some [OF inside] by simp
  qed
  moreover have "unat (of_nat i :: u32) = i" using assms(4,9) by (intro unat_of_nat_less) (simp add: i_def)
  ultimately show ?thesis using col inside unfolding i_def [symmetric] p_def [symmetric] Let_def by (simp add: p_def algebra_simps)
qed

theorem get_group_value_fast_entry_witness:
  "\<exists>buf'. get_group_value_fast (concat (replicate 4 (EMPTY_KEY_64 @ ex_key 0))) 1207 1000 100 2 = Some (buf', 40) \<and>
     mem_read buf' 32 8 = Some (ex_key 1207)"
proof -
  let ?b = "concat (replicate 4 (EMPTY_KEY_64 @ ex_key 0))"
  have bin: "fast_bin 1000 100 1207 = 2" by (simp add: fast_bin_def)
  have len: "length ?b = 64" by code_simp
  have first: "mem_read ?b 32 8 = Some EMPTY_KEY_64" by code_simp
  have "\<exists>buf' keys'. get_group_value_fast ?b 1207 1000 100 2 = Some (buf', (2 * unat (2 :: u32) + 1) * 8) \<and>
    (let p = 2 * unat (2 :: u32) * 8
     in p + 8 \<le> length ?b \<and> same_outside p (p + 8) ?b buf' \<and>
        mem_read buf' p 8 = (if mem_read ?b p 8 = Some EMPTY_KEY_64 then Some (le_bytes 8 1207) else mem_read ?b p 8)) \<and>
    get_columnar_group_bin_offset ?b 1207 1000 100 = Some (keys', of_nat 2) \<and>
    unat (of_nat 2 :: u32) = 2"
    using get_group_value_fast_entry [of 1000 1207 100 4 2 ?b ?b, unfolded bin] len by simp
  then show ?thesis using first by (auto simp: Let_def ex_key_def)
qed

section \<open>Initialisation\<close>



end
