(* ===== verification/Layout_Claims.thy ===== *)
theory Layout_Claims
  imports Group_By_Claims
begin

text \<open>
  The statements about the layout of the output buffer, row-wise and columnar.
\<close>

section \<open>Rows\<close>

text \<open>
  C22. In a row the keys and the slots do not overlap: the offset of a slot that
  \<open>getColOffInBytes\<close> computes is behind the keys, the slots follow each other in order, the last one ends
  inside the row size of \<open>getRowSize\<close>, which is a multiple of 8, and 8-byte slots are aligned.
\<close>

theorem row_slots_disjoint:
  assumes "row_layout_ok q" and "i < j" and "j < getSlotCount q"
  shows "\<exists>off_i off_j size. getColOffInBytes q i = Some off_i \<and> getColOffInBytes q j = Some off_j \<and> getRowSize q = Some size \<and>
    key_bytes q \<le> off_i \<and> off_i + q_widths q ! i \<le> off_j \<and> off_j + q_widths q ! j \<le> size \<and> 8 dvd size \<and>
    (q_widths q ! i = 8 \<longrightarrow> 8 dvd off_i) \<and> (q_widths q ! j = 8 \<longrightarrow> 8 dvd off_j)"
proof -
  have j: "j < length (q_widths q)" using assms(3) by (simp add: getSlotCount_def)
  have "key_bytes q + (slot_off (q_widths q) j + q_widths q ! j) \<le> align_to_int64 (key_bytes q + packed (q_widths q))"
    using slot_off_inside [OF j] align_to_int64_le [of "key_bytes q + packed (q_widths q)"] by simp
  moreover have "slot_off (q_widths q) i + q_widths q ! i \<le> slot_off (q_widths q) j" by (rule slot_off_before [OF assms(2) j])
  moreover have "8 dvd key_bytes q + slot_off (q_widths q) m" if "q_widths q ! m = 8" for m using slot_off_aligned [OF that] by simp
  ultimately show ?thesis
    using getColOffInBytes_row [OF assms(1,3)] getColOffInBytes_row [OF assms(1), of i] assms(2,3) getRowSize_eq [OF assms(1)] by simp
qed

theorem row_slots_disjoint_witness:
  "\<exists>off_0 off_1 size. getColOffInBytes ex_qmd 0 = Some off_0 \<and> getColOffInBytes ex_qmd 1 = Some off_1 \<and> getRowSize ex_qmd = Some size \<and>
    off_0 + 4 \<le> off_1 \<and> off_1 + 8 \<le> size"
proof -
  have ok: "row_layout_ok ex_qmd" "(0 :: nat) < 1" "1 < getSlotCount ex_qmd" by code_simp+
  have w: "q_widths ex_qmd ! 0 = 4" "q_widths ex_qmd ! 1 = 8" by code_simp+
  show ?thesis using row_slots_disjoint [OF ok, unfolded w] by blast
qed

text \<open>The pointer to a slot as the initialisation and the result set reach it, from slot to slot.\<close>

primrec row_walk :: "QueryMemoryDescriptor \<Rightarrow> nat \<Rightarrow> nat \<Rightarrow> nat option" where
  "row_walk q base 0 = map_option (\<lambda>off. base + off) (getColOffInBytes q 0)"
| "row_walk q base (Suc i) = do { p \<leftarrow> row_walk q base i; step \<leftarrow> getNextColOffInBytesRowOnly q p i; Some (p + step) }"

text \<open>
  Walking over the slots of a row with \<open>getNextColOffInBytesRowOnly\<close> from the first one
  reaches every slot at the offset that \<open>getColOffInBytes\<close> gives for it directly.
\<close>

theorem row_walk_reaches_slots:
  assumes "row_layout_ok q" and "8 dvd base" and "i < getSlotCount q"
  shows "row_walk q base i = map_option (\<lambda>off. base + off) (getColOffInBytes q i) \<and> getColOffInBytes q i \<noteq> None"
proof -
  have "row_walk q base i = Some (base + key_bytes q + slot_off (q_widths q) i)"
    using assms(3)
  proof (induction i)
    case 0
    then show ?case using getColOffInBytes_row [OF assms(1), of 0] by simp
  next
    case (Suc i)
    have "slot_off (q_widths q) i + q_widths q ! i \<le> slot_off (q_widths q) (Suc i)"
      using Suc.prems by (intro slot_off_before) (simp_all add: getSlotCount_def)
    then show ?case using Suc next_row_off [OF assms(1) Suc.prems assms(2)] by simp
  qed
  then show ?thesis using getColOffInBytes_row [OF assms(1,3)] by simp
qed

theorem row_walk_reaches_slots_witness:
  "row_walk ex_qmd 64 2 = map_option (\<lambda>off. 64 + off) (getColOffInBytes ex_qmd 2) \<and> getColOffInBytes ex_qmd 2 \<noteq> None"
proof -
  have ok: "row_layout_ok ex_qmd" "(8 :: nat) dvd 64" "2 < getSlotCount ex_qmd" by code_simp+
  show ?thesis by (rule row_walk_reaches_slots [OF ok])
qed

text \<open>
  C24. \<open>alignPaddedSlots\<close>, which a result set applies to its descriptor, keeps the offset of
  every slot, shrinks no slot, and leaves no gaps: the offset of a slot becomes the sum of the
  sizes of the slots before it, and without a sort on the GPU the size of all slots becomes a
  multiple of 8.
\<close>

theorem align_padded_slots_keeps_offsets:
  assumes "ctx_alignPaddedSlots ctx gpu = Some ctx'"
  defines "ws \<equiv> widths (slot_sizes ctx)" and "vs \<equiv> widths (slot_sizes ctx')"
  shows "length vs = length ws \<and>
    (\<forall>i < length ws. slot_off vs i = slot_off ws i \<and> slot_off vs i = sum_list (take i vs) \<and> ws ! i \<le> vs ! i) \<and>
    (gpu \<or> 8 dvd sum_list vs)"
proof -
  note w = ctx_alignPaddedSlots_widths [OF assms(1), folded ws_def vs_def]
  have al: "\<forall>i < length vs. vs ! i = 8 \<longrightarrow> 8 dvd sum_list (take i vs)" using w(3) unfolding w(1) by blast
  have "ws ! i \<le> vs ! i" if i: "i < length ws" for i
  proof -
    have step: "sum_list (take (Suc i) vs) = slot_off ws i + vs ! i"
      using i w(1,3) by (simp add: take_Suc_conv_app_nth)
    have "slot_off ws i + ws ! i \<le> sum_list (take (Suc i) vs)"
    proof (cases "Suc i < length ws")
      case True
      then show ?thesis using slot_off_before [of i "Suc i" ws] w(3) by simp
    next
      case False
      then have "take (Suc i) vs = vs" using w(1) i by simp
      then show ?thesis using slot_off_inside [OF i] w(4) align_to_int64_le [of "packed ws"] by (auto split: if_splits)
    qed
    then show ?thesis using step by simp
  qed
  then show ?thesis using w slot_off_contiguous [OF al] by simp
qed

theorem align_padded_slots_keeps_offsets_witness:
  "widths (slot_sizes (col_slot_context ex_fixed)) = [8, 8, 8] \<and> slot_off [8, 8, 8] 2 = slot_off [4, 8, 4] 2 \<and>
   slot_off [8, 8, 8] 2 = sum_list (take 2 [8, 8, 8]) \<and> [4, 8, 4 :: nat] ! 2 \<le> [8, 8, 8] ! 2"
proof -
  have al: "ctx_alignPaddedSlots ex_ctx False = Some (col_slot_context ex_fixed)" by code_simp
  have w: "widths (slot_sizes ex_ctx) = [4, 8, 4]" "widths (slot_sizes (col_slot_context ex_fixed)) = [8, 8, 8]" by code_simp+
  have "2 < length [4 :: nat, 8, 4]" by simp
  then show ?thesis using align_padded_slots_keeps_offsets [OF al, unfolded w] w(2) by blast
qed

section \<open>Columns\<close>




end
