(* ===== verification/Agg_Claims.thy ===== *)
theory Agg_Claims
  imports Agg_Props
begin

text \<open>
  The statements about the null-aware operators and the aggregates.
\<close>

section \<open>Sums, minima and maxima\<close>

text \<open>
  C18. The aggregates that skip nulls, started at the null value: the result is null when every
  value is null, and otherwise the sum, the maximum and the minimum of the values that are not
  null; for the sum no partial sum may overflow or be equal to the null value.
\<close>

theorem skip_val_aggregates:
  assumes "sums_ok skip (non_null skip vs)"
  shows "agg_fold (\<lambda>g v. map_option fst (agg_sum_skip_val g v skip)) vs skip =
      Some (if non_null skip vs = [] then skip else sum_list (non_null skip vs)) \<and>
    foldl (\<lambda>g v. agg_max_skip_val g v skip) skip vs = (if non_null skip vs = [] then skip else Max (set (non_null skip vs))) \<and>
    foldl (\<lambda>g v. agg_min_skip_val g v skip) skip vs = (if non_null skip vs = [] then skip else Min (set (non_null skip vs)))"
  using agg_sum_fold [OF assms] agg_max_fold agg_min_fold by blast

theorem skip_val_aggregates_witness:
  "agg_fold (\<lambda>g v. map_option fst (agg_sum_skip_val g v (- 128))) [- 128, 7, - 9, - 128] (- 128) = Some (- 2) \<and>
   foldl (\<lambda>g v. agg_max_skip_val g v (- 128)) (- 128) [- 128, 7, - 9, - 128] = 7 \<and>
   foldl (\<lambda>g v. agg_min_skip_val g v (- 128)) (- 128) [- 128, 7, - 9, - 128] = - 9"
proof -
  have nn: "non_null (- 128) [- 128, 7, - 9, - 128] = [7, - 9]" by (simp add: non_null_def)
  have "{1..length [7, - 9 :: int]} = {1, 2}" by auto
  then have "sums_ok (- 128) (non_null (- 128) [- 128, 7, - 9, - 128])"
    unfolding nn by (simp add: sums_ok_def int_range_def)
  from skip_val_aggregates [OF this] show ?thesis unfolding nn by simp
qed

text \<open>
  C35. A partial sum that is equal to the null value is taken for the start of the aggregate: the
  values before it are lost, although neither they nor the whole sum are null and no addition overflows.
\<close>

theorem sum_restarts_at_null:
  assumes "a \<noteq> skip" and "b \<noteq> skip" and "c \<noteq> skip" and "a + b = skip" and "int_range 64 skip"
  shows "agg_fold (\<lambda>g v. map_option fst (agg_sum_skip_val g v skip)) [a, b, c] skip = Some c \<and> sum_list [a, b, c] = skip + c"
  using assms by (simp add: agg_sum_skip_val_def agg_sum_def)

theorem sum_restarts_at_null_witness:
  "agg_fold (\<lambda>g v. map_option fst (agg_sum_skip_val g v (- (2 ^ 63)))) [- (2 ^ 62), - (2 ^ 62), 5] (- (2 ^ 63)) = Some 5 \<and>
   sum_list [- (2 ^ 62), - (2 ^ 62), 5] = - (2 ^ 63) + (5 :: int)"
  by (rule sum_restarts_at_null) (simp_all add: int_range_def)

section \<open>Operators\<close>





text \<open>Kleene's three-valued logic, and the boolean it is represented by.\<close>

datatype truth = T | F | U

definition truth_of :: "int \<Rightarrow> int \<Rightarrow> truth" where
  "truth_of null v = (if v = null then U else if v = 0 then F else T)"

fun kleene_not :: "truth \<Rightarrow> truth" where
  "kleene_not T = F" | "kleene_not F = T" | "kleene_not U = U"

fun kleene_and :: "truth \<Rightarrow> truth \<Rightarrow> truth" where
  "kleene_and F y = F" | "kleene_and x F = F" | "kleene_and T y = y" | "kleene_and U y = U"

definition kleene_or :: "truth \<Rightarrow> truth \<Rightarrow> truth" where
  "kleene_or x y = kleene_not (kleene_and (kleene_not x) (kleene_not y))"

text \<open>
  \<open>logical_not\<close>, \<open>logical_and\<close> and \<open>logical_or\<close> implement Kleene's three-valued logic on
  booleans with a null value, for every null value other than 0 and 1.
\<close>

theorem logical_operators_kleene:
  assumes "null \<noteq> 0" and "null \<noteq> 1"
  shows "truth_of null (logical_not x null) = kleene_not (truth_of null x) \<and>
    truth_of null (logical_and x y null) = kleene_and (truth_of null x) (truth_of null y) \<and>
    truth_of null (logical_or x y null) = kleene_or (truth_of null x) (truth_of null y)"
  using assms by (simp add: truth_of_def logical_not_def logical_and_def logical_or_def kleene_or_def)

theorem logical_operators_kleene_witness:
  "truth_of (- 128) (logical_and 0 (- 128) (- 128)) = F \<and> truth_of (- 128) (logical_or 0 (- 128) (- 128)) = U"
proof -
  have "(- 128 :: int) \<noteq> 0" "(- 128 :: int) \<noteq> 1" by simp_all
  from logical_operators_kleene [OF this, of 0 "- 128"] show ?thesis by (simp add: truth_of_def kleene_or_def)
qed

text \<open>
  C37. \<open>floor_div_lhs\<close> is the floor of the quotient for every positive divisor, and is undefined exactly when the
  correction of a negative dividend leaves the 64-bit range; \<open>scale_decimal_down\<close> by an even
  factor rounds to the nearest value, halves away from zero; and scaling down after scaling
  up without overflow gives the value back.
\<close>

theorem floor_and_decimal_scaling:
  assumes "int_range 64 a" and "0 < b" and "int_range 64 b"
  shows "floor_div_lhs a b = (if a < 0 \<and> a - (b - 1) < - (2 ^ 63) then None else Some (a div b)) \<and>
    (even b \<and> int_range 64 (\<bar>a\<bar> + b div 2) \<longrightarrow>
      (\<exists>r. scale_decimal_down_not_nullable a b = Some r \<and> 2 * \<bar>r * b - a\<bar> \<le> b \<and> (2 * \<bar>r * b - a\<bar> = b \<longrightarrow> \<bar>a\<bar> < \<bar>r * b\<bar>))) \<and>
    (even b \<and> a \<noteq> null \<and> int_range 64 (\<bar>a * b\<bar> + b div 2) \<longrightarrow>
      scale_decimal_down_not_nullable (scale_decimal_up a b null null') b = Some a)"
  using floor_div_lhs_eq [OF assms] scale_down_nearest [OF assms(2), of a] scale_up_down [OF assms(2), of a null null'] by blast

theorem floor_and_decimal_scaling_witness:
  "floor_div_lhs (- 7) 10 = Some (- 1) \<and> floor_div_lhs (- (2 ^ 63)) 10 = None \<and>
   scale_decimal_down_not_nullable (scale_decimal_up (- 7) 10 (- 1) (- 1)) 10 = Some (- 7)"
proof -
  have 1: "int_range 64 (- 7)" "(0 :: int) < 10" "int_range 64 10" and 2: "int_range 64 (- (2 ^ 63))" by (simp_all add: int_range_def)
  show ?thesis using floor_and_decimal_scaling [OF 1, of "- 1" "- 1"] floor_and_decimal_scaling [OF 2 1(2,3)]
    by (simp add: int_range_def)
qed

section \<open>Count distinct\<close>

text \<open>
  C19. The exact count-distinct bitmap is a set of values: after the values \<open>vs\<close> of a range have
  been added to a zeroed bitmap of the range's size, \<open>bit_is_set\<close> gives 1 for a value of the range exactly
  if it is among them and 0 otherwise, 0 for a value outside the range, and the null
  boolean for the null value; so the number of set bits is the number of different values.
\<close>

theorem count_distinct_bitmap_roundtrip:
  assumes "max_val - min_val < 2 ^ 63" and "\<forall>v \<in> set vs. min_val \<le> v \<and> v \<le> max_val" and "nat (max_val - min_val) div 8 < m"
  shows "\<exists>bm. agg_fold (\<lambda>b v. agg_count_distinct_bitmap b v min_val) vs (replicate m 0) = Some bm \<and>
    (\<forall>v. bit_is_set (Some bm) v min_val max_val null nb = Some (if v = null then nb else of_bool (v \<in> set vs))) \<and>
    card {i. i < 8 * m \<and> bitmap_bit bm i} = card (set vs)"
proof -
  obtain bm where bm: "agg_fold (\<lambda>b v. agg_count_distinct_bitmap b v min_val) vs (replicate m 0) = Some bm" "length bm = m"
    "\<forall>i. i div 8 < m \<longrightarrow> (bitmap_bit bm i \<longleftrightarrow> i \<in> (\<lambda>v. nat (v - min_val)) ` set vs)"
    using count_distinct_fold [OF assms(1,2), of "replicate m 0"] assms(3) by (auto simp: bitmap_bit_def)
  have inj: "inj_on (\<lambda>v. nat (v - min_val)) {min_val..max_val}" by (intro inj_onI) auto
  have idx: "nat (v - min_val) div 8 < m" if "v \<le> max_val" for v
  proof -
    have "nat (v - min_val) div 8 \<le> nat (max_val - min_val) div 8" using that by (intro div_le_mono) simp
    then show ?thesis using assms(3) by simp
  qed
  have sub: "set vs \<subseteq> {min_val..max_val}" using assms(2) by auto
  have "bit_is_set (Some bm) v min_val max_val null nb = Some (if v = null then nb else of_bool (v \<in> set vs))" for v
  proof (cases "v = null \<or> v < min_val \<or> max_val < v")
    case True
    then show ?thesis using assms(2) by (auto simp: bit_is_set_def)
  next
    case False
    then have v: "min_val \<le> v" "v \<le> max_val" "v \<noteq> null" by auto
    have "bitmap_bit bm (nat (v - min_val)) \<longleftrightarrow> v \<in> set vs"
      using bm(3) idx [OF v(2)] inj_on_image_mem_iff [OF inj, of v "set vs"] v sub by simp
    then show ?thesis using bit_is_set_bitmap [OF v(1,2) assms(1) v(3), of bm nb] bm(2) assms(3) v(3) by simp
  qed
  moreover have "{i. i < 8 * m \<and> bitmap_bit bm i} = (\<lambda>v. nat (v - min_val)) ` set vs"
    using bm(3) idx assms(2) by (auto simp: div_less_iff_less_mult mult.commute)
  then have "card {i. i < 8 * m \<and> bitmap_bit bm i} = card (set vs)"
    using card_image [OF inj_on_subset [OF inj sub]] by simp
  ultimately show ?thesis using bm(1) by blast
qed

theorem count_distinct_bitmap_roundtrip_witness:
  "\<exists>bm. agg_fold (\<lambda>b v. agg_count_distinct_bitmap b v 100) [103, 100, 103, 119] (replicate 3 0) = Some bm \<and>
    bit_is_set (Some bm) 103 100 120 (- 1) (- 128) = Some 1 \<and> bit_is_set (Some bm) 104 100 120 (- 1) (- 128) = Some 0 \<and>
    card {i. i < 8 * 3 \<and> bitmap_bit bm i} = 3"
proof -
  have *: "(120 - 100 :: int) < 2 ^ 63" "\<forall>v \<in> set [103, 100, 103, 119 :: int]. 100 \<le> v \<and> v \<le> 120" "nat (120 - 100) div 8 < 3" by simp_all
  have card: "card (set [103, 100, 103, 119 :: int]) = 3" by code_simp
  obtain bm where bm: "agg_fold (\<lambda>b v. agg_count_distinct_bitmap b v 100) [103, 100, 103, 119] (replicate 3 0) = Some bm"
    "\<forall>v. bit_is_set (Some bm) v 100 120 (- 1) (- 128) = Some (if v = - 1 then - 128 else of_bool (v \<in> set [103, 100, 103, 119]))"
    "card {i. i < 8 * 3 \<and> bitmap_bit bm i} = card (set [103, 100, 103, 119 :: int])"
    using count_distinct_bitmap_roundtrip [OF *, of "- 1" "- 128"] by (elim exE conjE) (rule that)
  show ?thesis using bm(1) bm(2) bm(3) [unfolded card] by (intro exI [of _ bm]) simp
qed

text \<open>
  C26. The HyperLogLog registers depend on the set of the values alone, not on their order or on
  repetitions, and \<open>hll_unify\<close> of the registers of two sets gives those of the
  union in both arguments: aggregating in parts and unifying is aggregating everything at once.
\<close>

theorem hll_parts:
  assumes "0 < b" and "b \<le> 64" and "set ks = set xs \<union> set ys"
  shows "\<exists>M N K. agg_fold (\<lambda>M k. agg_approximate_count_distinct M k b) xs (replicate (2 ^ b) 0) = Some M \<and>
    agg_fold (\<lambda>M k. agg_approximate_count_distinct M k b) ys (replicate (2 ^ b) 0) = Some N \<and>
    agg_fold (\<lambda>M k. agg_approximate_count_distinct M k b) ks (replicate (2 ^ b) 0) = Some K \<and>
    hll_unify M N (2 ^ b) = Some (K, K)"
  using hll_fold [OF assms(2), of "{}" xs] hll_fold [OF assms(2), of "{}" ys] hll_fold [OF assms(2), of "{}" ks]
    hll_unify_regs [of "set xs" "set ys" b] assms(3) by (simp add: hll_regs_empty)

theorem hll_parts_witness:
  "\<exists>M N K. agg_fold (\<lambda>M k. agg_approximate_count_distinct M k 4) [1, 2, 1] (replicate (2 ^ 4) 0) = Some M \<and>
    agg_fold (\<lambda>M k. agg_approximate_count_distinct M k 4) [3, 2] (replicate (2 ^ 4) 0) = Some N \<and>
    agg_fold (\<lambda>M k. agg_approximate_count_distinct M k 4) [1, 2, 3] (replicate (2 ^ 4) 0) = Some K \<and>
    hll_unify M N (2 ^ 4) = Some (K, K)"
proof -
  have *: "(0 :: nat) < 4" "(4 :: nat) \<le> 64" "set [1, 2, 3 :: int] = set [1, 2, 1] \<union> set [3, 2]" by auto
  show ?thesis by (rule hll_parts [OF *])
qed

end
