(* ===== verification/Date_Time.thy ===== *)
theory Date_Time
  imports Agg_Props
begin

text \<open>
  Dates and times: the functions of \<open>QueryEngine/ExtractFromTime\<close>, \<open>DateTruncate.cpp\<close> and
  \<open>DateAdd.cpp\<close> on seconds since 1970, with their fast paths on 32-bit integers, and the scaling
  between units of \<open>DateTimeUtils.h\<close>.  \<open>None\<close> is a signed overflow, a division by zero, an
  exception or \<open>abort\<close>.  A day number has at most 47 bits, so sums and products of it with the
  constants of the calendar do not overflow; values of type \<open>unsigned\<close> are taken modulo \<open>2^32\<close>.
\<close>

section \<open>Constants and division\<close>

abbreviation kSecsPerMin :: int where "kSecsPerMin \<equiv> 60"
abbreviation kSecsPerHour :: int where "kSecsPerHour \<equiv> 3600"
abbreviation kSecsPerQuarterDay :: int where "kSecsPerQuarterDay \<equiv> 21600"
abbreviation kSecsPerDay :: int where "kSecsPerDay \<equiv> 86400"
abbreviation kMilliSecsPerSec :: int where "kMilliSecsPerSec \<equiv> 1000"
abbreviation kMicroSecsPerSec :: int where "kMicroSecsPerSec \<equiv> 1000000"
abbreviation kNanoSecsPerSec :: int where "kNanoSecsPerSec \<equiv> 1000000000"
abbreviation kEpochAdjustedDays :: int where "kEpochAdjustedDays \<equiv> 11017"
abbreviation kDaysPer400Years :: int where "kDaysPer400Years \<equiv> 146097"
abbreviation kSecondsPerNonLeapYear :: int where "kSecondsPerNonLeapYear \<equiv> 31536000"
abbreviation kSecondsPer4YearCycle :: int where "kSecondsPer4YearCycle \<equiv> 126230400"
abbreviation kEpochOffsetYear1900 :: int where "kEpochOffsetYear1900 \<equiv> 2208988800"
abbreviation kSecsJanToMar1900 :: int where "kSecsJanToMar1900 \<equiv> 5097600"
abbreviation MARJAN :: int where "MARJAN \<equiv> 306"
abbreviation JANMAR :: int where "JANMAR \<equiv> 59"

definition to_u32 :: "int \<Rightarrow> int" where "to_u32 v = v mod 2 ^ 32"

definition floor_div :: "int \<Rightarrow> int \<Rightarrow> int option" where
  "floor_div dividend divisor =
     do {
       d \<leftarrow> (if dividend < 0 then chk64 (dividend - (divisor - 1)) else Some dividend);
       if divisor = 0 then None else chk64 (d sdiv divisor)
     }"

definition unsigned_mod :: "int \<Rightarrow> int \<Rightarrow> int" where
  "unsigned_mod dividend divisor =
     (let m = dividend smod divisor in if m < 0 then m + divisor else m)"

section \<open>Fields of a date\<close>

text \<open>
  The expressions that the functions share: the era of 400 years that begins on 1 March 2000, the
  day of the era, the year of the era (which begins in March), the day of that year, its month
  (March is 0) and the day of the month.
\<close>

definition day_of_era :: "int \<Rightarrow> int" where
  "day_of_era day = to_u32 (unsigned_mod (day - kEpochAdjustedDays) kDaysPer400Years)"

definition year_of_era :: "int \<Rightarrow> int" where
  "year_of_era doe = to_u32 (doe - doe div 1460 + doe div 36524 - of_bool (doe = 146096)) div 365"

definition day_of_year :: "int \<Rightarrow> int \<Rightarrow> int" where
  "day_of_year doe yoe = to_u32 (doe - (365 * yoe + yoe div 4 - yoe div 100))"

definition month_of_year :: "int \<Rightarrow> int" where
  "month_of_year doy = to_u32 (5 * doy + 2) div 153"

definition day_of_month :: "int \<Rightarrow> int \<Rightarrow> int" where
  "day_of_month doy moy = to_u32 (doy - to_u32 (153 * moy + 2) div 5)"

definition leap_of_era :: "int \<Rightarrow> bool" where
  "leap_of_era yoe \<longleftrightarrow> yoe mod 4 = 0 \<and> (yoe mod 100 \<noteq> 0 \<or> yoe = 0)"

definition extract_hour :: "int \<Rightarrow> int" where
  "extract_hour lcltime = unsigned_mod lcltime kSecsPerDay sdiv kSecsPerHour"

definition extract_minute :: "int \<Rightarrow> int" where
  "extract_minute lcltime = unsigned_mod lcltime kSecsPerHour sdiv kSecsPerMin"

definition extract_second :: "int \<Rightarrow> int" where
  "extract_second lcltime = unsigned_mod lcltime kSecsPerMin"

definition extract_millisecond :: "int \<Rightarrow> int" where
  "extract_millisecond lcltime = unsigned_mod lcltime (kSecsPerMin * kMilliSecsPerSec)"

definition extract_microsecond :: "int \<Rightarrow> int" where
  "extract_microsecond lcltime = unsigned_mod lcltime (kSecsPerMin * kMicroSecsPerSec)"

definition extract_nanosecond :: "int \<Rightarrow> int" where
  "extract_nanosecond lcltime = unsigned_mod lcltime (kSecsPerMin * kNanoSecsPerSec)"

definition extract_dow :: "int \<Rightarrow> int option" where
  "extract_dow lcltime = do { days_past_epoch \<leftarrow> floor_div lcltime kSecsPerDay; Some (unsigned_mod (days_past_epoch + 4) 7) }"

definition extract_quarterday :: "int \<Rightarrow> int" where
  "extract_quarterday lcltime = unsigned_mod lcltime kSecsPerDay sdiv kSecsPerQuarterDay + 1"

definition cumulative_month_epoch_starts :: "int list" where
  "cumulative_month_epoch_starts =
     [0, 2678400, 5270400, 7948800, 10540800, 13219200, 15897600, 18489600, 21168000, 23760000, 26438400, 29116800]"

definition cumulative_quarter_epoch_starts :: "int list" where
  "cumulative_quarter_epoch_starts = [0, 7776000, 15638400, 23587200]"

definition cumulative_quarter_epoch_starts_leap_year :: "int list" where
  "cumulative_quarter_epoch_starts_leap_year = [0, 7862400, 15724800, 23673600]"

text \<open>
  The fast paths count from March 1900 in cycles of four years that end with a leap day: the
  seconds before the current year of the cycle, and the entry of a table of cumulative starts,
  which is found from a guess that is at most one too large.
\<close>

definition adjust_index :: "int list \<Rightarrow> int \<Rightarrow> int \<Rightarrow> int" where
  "adjust_index starts i secs = (if secs < starts ! nat i then to_u32 (i - 1) else i)"

definition cycle_year_secs :: "int \<Rightarrow> int" where
  "cycle_year_secs seconds_past_4year_period =
     (let y = to_u32 (seconds_past_4year_period div kSecondsPerNonLeapYear * kSecondsPerNonLeapYear)
      in if kSecondsPer4YearCycle - 86400 \<le> seconds_past_4year_period then to_u32 (y - kSecondsPerNonLeapYear) else y)"

definition march_month :: "int \<Rightarrow> int" where
  "march_month seconds_past_march =
     (let month = seconds_past_march div (30 * 86400);
          month = (if month \<le> 11 then month else 11)
      in adjust_index cumulative_month_epoch_starts month seconds_past_march)"

definition extract_month_fast :: "int \<Rightarrow> int" where
  "extract_month_fast lcltime =
     (let seconds_march_1900 = to_u32 (lcltime + kEpochOffsetYear1900 - kSecsJanToMar1900);
          seconds_past_4year_period = seconds_march_1900 mod kSecondsPer4YearCycle;
          seconds_past_march = to_u32 (seconds_past_4year_period - cycle_year_secs seconds_past_4year_period);
          month = march_month seconds_past_march
      in to_i32 (to_u32 (month + 2) mod 12 + 1))"

text \<open>The year since 1900, and the seconds of its first day; \<open>secs\<close> are counted from 1900.\<close>

definition year_since_1900 :: "int \<Rightarrow> int" where
  "year_since_1900 secs =
     (let leap_years = to_u32 (secs - kSecsJanToMar1900) div kSecondsPer4YearCycle
      in to_u32 (secs - to_u32 (leap_years * 86400)) div kSecondsPerNonLeapYear)"

definition year_start_1900 :: "int \<Rightarrow> int" where
  "year_start_1900 year =
     (let base_year_leap_years = to_u32 (year - 1) div 4
      in to_u32 (to_u32 (year * kSecondsPerNonLeapYear) + to_u32 (base_year_leap_years * 86400)))"

definition quarter_offsets :: "int \<Rightarrow> int list" where
  "quarter_offsets year =
     (if year mod 4 = 0 \<and> year \<noteq> 0 then cumulative_quarter_epoch_starts_leap_year else cumulative_quarter_epoch_starts)"

definition quarter_index :: "int list \<Rightarrow> int \<Rightarrow> int" where
  "quarter_index offsets partial_year_seconds =
     (let quarter = partial_year_seconds div (90 * 86400);
          quarter = (if quarter \<le> 3 then quarter else 3)
      in adjust_index offsets quarter partial_year_seconds)"

definition extract_quarter_fast :: "int \<Rightarrow> int" where
  "extract_quarter_fast lcltime =
     (let seconds_1900 = to_u32 (lcltime + kEpochOffsetYear1900);
          leap_years = to_u32 (seconds_1900 - kSecsJanToMar1900) div kSecondsPer4YearCycle;
          year = to_u32 ((seconds_1900 - leap_years * kSecsPerDay) sdiv kSecondsPerNonLeapYear);
          partial_year_seconds = seconds_1900 mod year_start_1900 year
      in to_i32 (to_u32 (quarter_index (quarter_offsets year) partial_year_seconds + 1)))"

definition extract_year_fast :: "int \<Rightarrow> int" where
  "extract_year_fast lcltime =
     (let seconds_1900 = to_u32 (lcltime + kEpochOffsetYear1900) in to_i32 (to_u32 (year_since_1900 seconds_1900 + 1900)))"

definition fast_path :: "int \<Rightarrow> bool" where
  "fast_path timeval \<longleftrightarrow> 0 \<le> timeval \<and> timeval \<le> 2 ^ 32 - 1 - kEpochOffsetYear1900"

definition extract_dateepoch :: "int \<Rightarrow> int option" where
  "extract_dateepoch timeval = chk64 (timeval - unsigned_mod timeval kSecsPerDay)"

definition extract_isodow :: "int \<Rightarrow> int option" where
  "extract_isodow timeval = do { days_past_epoch \<leftarrow> floor_div timeval kSecsPerDay; Some (unsigned_mod (days_past_epoch + 3) 7 + 1) }"

definition extract_day :: "int \<Rightarrow> int option" where
  "extract_day timeval =
     do {
       day \<leftarrow> floor_div timeval kSecsPerDay;
       let doe = day_of_era day;
       let yoe = year_of_era doe;
       let doy = day_of_year doe yoe;
       let moy = month_of_year doy;
       Some (to_u32 (day_of_month doy moy + 1))
     }"

definition extract_day_of_year :: "int \<Rightarrow> int option" where
  "extract_day_of_year timeval =
     do {
       day \<leftarrow> floor_div timeval kSecsPerDay;
       let doe = day_of_era day;
       let yoe = year_of_era doe;
       let doy = day_of_year doe yoe;
       Some (to_u32 (doy + (if doy < MARJAN then 1 + JANMAR + of_bool (leap_of_era yoe) else 1 - MARJAN)))
     }"

definition week_start_from_yoe :: "int \<Rightarrow> int \<Rightarrow> int" where
  "week_start_from_yoe OFFSET yoe =
     (let march1 = to_u32 (yoe * 365 + yoe div 4 - yoe div 100);
          jan4 = to_u32 (march1 + (MARJAN + 3));
          jan4dow = to_u32 (jan4 + OFFSET) mod 7
      in to_u32 (jan4 - jan4dow))"

definition extract_week :: "int \<Rightarrow> int \<Rightarrow> int option" where
  "extract_week OFFSET timeval =
     do {
       day \<leftarrow> floor_div timeval kSecsPerDay;
       let doe = day_of_era day;
       let yoe = year_of_era doe;
       let week_start = week_start_from_yoe OFFSET yoe;
       if doe < week_start \<and> yoe = 0 then Some (to_u32 (to_u32 (doe + OFFSET) div 7 + 9))
       else
         let week_start = (if doe < week_start then week_start_from_yoe OFFSET (to_u32 (yoe - 1)) else week_start)
         in Some (to_u32 (to_u32 (doe - week_start) div 7 + 1))
     }"

definition extract_month :: "int \<Rightarrow> int option" where
  "extract_month timeval =
     (if fast_path timeval then Some (extract_month_fast timeval)
      else do {
        day \<leftarrow> floor_div timeval kSecsPerDay;
        let doe = day_of_era day;
        let yoe = year_of_era doe;
        let doy = day_of_year doe yoe;
        let moy = month_of_year doy;
        Some (to_u32 (moy + (if moy < 10 then 3 else - 9)))
      })"

definition extract_quarter :: "int \<Rightarrow> int option" where
  "extract_quarter timeval =
     (if fast_path timeval then Some (extract_quarter_fast timeval)
      else do {
        day \<leftarrow> floor_div timeval kSecsPerDay;
        let doe = day_of_era day;
        let yoe = year_of_era doe;
        let doy = day_of_year doe yoe;
        let moy = month_of_year doy;
        if moy < 12 then Some ([1, 2, 2, 2, 3, 3, 3, 4, 4, 4, 1, 1] ! nat moy) else None
      })"

definition extract_year :: "int \<Rightarrow> int option" where
  "extract_year timeval =
     (if fast_path timeval then Some (extract_year_fast timeval)
      else do {
        day \<leftarrow> floor_div timeval kSecsPerDay;
        era \<leftarrow> floor_div (day - kEpochAdjustedDays) kDaysPer400Years;
        let doe = to_u32 (day - kEpochAdjustedDays - era * kDaysPer400Years);
        let yoe = year_of_era doe;
        let doy = day_of_year doe yoe;
        Some (2000 + era * 400 + yoe + of_bool (MARJAN \<le> doy))
      })"

datatype DateExtractField =
    kYear | kQuarter | kMonth | kDay | kHour | kMinute | kSecond | kMilli | kMicro | kNano
  | kDayOfWeek | kIsoDayOfWeek | kDayOfYear | kEpoch | kQuarterDay | kWeek | kWeekSunday | kWeekSaturday | kDateEpoch

fun ExtractFromTime :: "DateExtractField \<Rightarrow> int \<Rightarrow> int option" where
  "ExtractFromTime kEpoch timeval = Some timeval"
| "ExtractFromTime kDateEpoch timeval = extract_dateepoch timeval"
| "ExtractFromTime kQuarterDay timeval = Some (extract_quarterday timeval)"
| "ExtractFromTime kHour timeval = Some (extract_hour timeval)"
| "ExtractFromTime kMinute timeval = Some (extract_minute timeval)"
| "ExtractFromTime kSecond timeval = Some (extract_second timeval)"
| "ExtractFromTime kMilli timeval = Some (extract_millisecond timeval)"
| "ExtractFromTime kMicro timeval = Some (extract_microsecond timeval)"
| "ExtractFromTime kNano timeval = Some (extract_nanosecond timeval)"
| "ExtractFromTime kDayOfWeek timeval = extract_dow timeval"
| "ExtractFromTime kIsoDayOfWeek timeval = extract_isodow timeval"
| "ExtractFromTime kDay timeval = extract_day timeval"
| "ExtractFromTime kWeek timeval = extract_week 2 timeval"
| "ExtractFromTime kWeekSunday timeval = extract_week 3 timeval"
| "ExtractFromTime kWeekSaturday timeval = extract_week 4 timeval"
| "ExtractFromTime kDayOfYear timeval = extract_day_of_year timeval"
| "ExtractFromTime kMonth timeval = extract_month timeval"
| "ExtractFromTime kQuarter timeval = extract_quarter timeval"
| "ExtractFromTime kYear timeval = extract_year timeval"

end
