(* ===== verification/Date_Trunc.thy ===== *)
theory Date_Trunc
  imports Date_Time
begin

text \<open>
  Truncation and difference of times (\<open>QueryEngine/DateTruncate.cpp\<close>).  As in the theory of the
  fields of a date, \<open>None\<close> is a signed overflow, a division by zero, an index out of an array or
  \<open>abort\<close>.
\<close>

section \<open>Truncation\<close>

definition datetrunc_minute_impl :: "int \<Rightarrow> int option" where
  "datetrunc_minute_impl timeval = chk64 (timeval - unsigned_mod timeval kSecsPerMin)"

definition datetrunc_hour_impl :: "int \<Rightarrow> int option" where
  "datetrunc_hour_impl timeval = chk64 (timeval - unsigned_mod timeval kSecsPerHour)"

definition datetrunc_quarterday_impl :: "int \<Rightarrow> int option" where
  "datetrunc_quarterday_impl timeval = chk64 (timeval - unsigned_mod timeval kSecsPerQuarterDay)"

definition datetrunc_day_impl :: "int \<Rightarrow> int option" where
  "datetrunc_day_impl timeval = chk64 (timeval - unsigned_mod timeval kSecsPerDay)"

definition datetrunc_week :: "int \<Rightarrow> int \<Rightarrow> int option" where
  "datetrunc_week OFFSET timeval =
     do {
       t \<leftarrow> chk64 (timeval + OFFSET * kSecsPerDay);
       chk64 (timeval - unsigned_mod t (7 * kSecsPerDay))
     }"

definition datetrunc_month_impl :: "int \<Rightarrow> int option" where
  "datetrunc_month_impl timeval =
     (if fast_path timeval then
        let seconds_march_1900 = to_u32 (timeval + kEpochOffsetYear1900 - kSecsJanToMar1900);
            seconds_past_4year_period = seconds_march_1900 mod kSecondsPer4YearCycle;
            four_year_period_seconds = to_u32 (seconds_march_1900 div kSecondsPer4YearCycle * kSecondsPer4YearCycle);
            year_seconds_past_4year_period = cycle_year_secs seconds_past_4year_period;
            seconds_past_march = to_u32 (seconds_past_4year_period - year_seconds_past_4year_period);
            month = march_month seconds_past_march
        in Some (four_year_period_seconds + year_seconds_past_4year_period
                 + cumulative_month_epoch_starts ! nat month - kEpochOffsetYear1900 + kSecsJanToMar1900)
      else do {
        day \<leftarrow> floor_div timeval kSecsPerDay;
        let doe = day_of_era day;
        let yoe = year_of_era doe;
        let doy = day_of_year doe yoe;
        let moy = month_of_year doy;
        chk64 ((day - day_of_month doy moy) * kSecsPerDay)
      })"

definition datetrunc_quarter_impl :: "int \<Rightarrow> int option" where
  "datetrunc_quarter_impl timeval =
     (if fast_path timeval then
        let seconds_1900 = to_u32 (timeval + kEpochOffsetYear1900);
            year = year_since_1900 seconds_1900;
            base_year_seconds = year_start_1900 year;
            partial_year_seconds = seconds_1900 mod base_year_seconds;
            quarter = quarter_index (quarter_offsets year) partial_year_seconds
        in Some (base_year_seconds + quarter_offsets year ! nat quarter - kEpochOffsetYear1900)
      else do {
        day \<leftarrow> floor_div timeval kSecsPerDay;
        let doe = day_of_era day;
        let yoe = year_of_era doe;
        let doy = day_of_year doe yoe;
        let apr1 = 31;
        let doq =
          (if doy < apr1 then to_u32 (JANMAR + of_bool (leap_of_era yoe) + doy)
           else let q = to_u32 (3 * (doy - apr1) + 2) div 275
                in to_u32 (doy - (apr1 + q * 92 - of_bool (q \<noteq> 0))));
        chk64 ((day - doq) * kSecsPerDay)
      })"

definition datetrunc_year_impl :: "int \<Rightarrow> int option" where
  "datetrunc_year_impl timeval =
     (if fast_path timeval then
        let seconds_1900 = to_u32 (to_u32 timeval + kEpochOffsetYear1900);
            year = year_since_1900 seconds_1900;
            base_year_leap_years = to_u32 (year - 1) div 4
        in Some (year * kSecondsPerNonLeapYear + to_u32 (base_year_leap_years * 86400) - kEpochOffsetYear1900)
      else do {
        day \<leftarrow> floor_div timeval kSecsPerDay;
        let doe = day_of_era day;
        let yoe = year_of_era doe;
        let doy = day_of_year doe yoe;
        let docy =
          (if doy < MARJAN then to_u32 (JANMAR + of_bool (leap_of_era yoe) + doy) else to_u32 (doy - MARJAN));
        chk64 ((day - docy) * kSecsPerDay)
      })"

definition datetrunc_decade_impl :: "int \<Rightarrow> int option" where
  "datetrunc_decade_impl timeval =
     do {
       let decmarjan = MARJAN + 9 * 365 + 2;
       day \<leftarrow> floor_div timeval kSecsPerDay;
       let doe = day_of_era day;
       let yoe = year_of_era doe;
       let decoe = to_u32 (yoe - yoe mod 10);
       let days_after_decade = to_u32 (doe - (365 * decoe + decoe div 4 - decoe div 100));
       let days_after_decade =
         (if days_after_decade < decmarjan
          then to_u32 (days_after_decade + JANMAR + of_bool (leap_of_era decoe))
          else to_u32 (days_after_decade - decmarjan));
       chk64 ((day - days_after_decade) * kSecsPerDay)
     }"

definition datetrunc_century_impl :: "int \<Rightarrow> int option" where
  "datetrunc_century_impl timeval =
     do {
       day \<leftarrow> floor_div timeval kSecsPerDay;
       let doe = day_of_era day;
       let doc = (if doe < MARJAN then to_u32 (doe + (36525 - MARJAN)) else to_u32 (doe - MARJAN) mod 36524);
       chk64 ((day - doc) * kSecsPerDay)
     }"

definition datetrunc_millennium_impl :: "int \<Rightarrow> int option" where
  "datetrunc_millennium_impl timeval =
     do {
       let millennium2001 = 365242;
       day \<leftarrow> floor_div timeval kSecsPerDay;
       let dom = to_u32 (unsigned_mod (day - kEpochAdjustedDays) (5 * kDaysPer400Years));
       let dom =
         (if dom < MARJAN then to_u32 (dom + millennium2001 + 1 - MARJAN)
          else if dom < MARJAN + millennium2001 then to_u32 (dom - MARJAN)
          else to_u32 (dom - (MARJAN + millennium2001)));
       chk64 ((day - dom) * kSecsPerDay)
     }"

datatype DateTruncField =
    kYear | kQuarter | kMonth | kDay | kHour | kMinute | kSecond | kMilli | kMicro | kNano
  | kMillennium | kCentury | kDecade | kWeek | kWeekSunday | kWeekSaturday | kQuarterDay | kInvalid

fun DateTruncate :: "DateTruncField \<Rightarrow> int \<Rightarrow> int option" where
  "DateTruncate kNano timeval = Some timeval"
| "DateTruncate kMicro timeval = Some timeval"
| "DateTruncate kMilli timeval = Some timeval"
| "DateTruncate kSecond timeval = Some timeval"
| "DateTruncate kMinute timeval = datetrunc_minute_impl timeval"
| "DateTruncate kHour timeval = datetrunc_hour_impl timeval"
| "DateTruncate kQuarterDay timeval = datetrunc_quarterday_impl timeval"
| "DateTruncate kDay timeval = datetrunc_day_impl timeval"
| "DateTruncate kWeek timeval = datetrunc_week 3 timeval"
| "DateTruncate kWeekSunday timeval = datetrunc_week 4 timeval"
| "DateTruncate kWeekSaturday timeval = datetrunc_week 5 timeval"
| "DateTruncate kMonth timeval = datetrunc_month_impl timeval"
| "DateTruncate kQuarter timeval = datetrunc_quarter_impl timeval"
| "DateTruncate kYear timeval = datetrunc_year_impl timeval"
| "DateTruncate kDecade timeval = datetrunc_decade_impl timeval"
| "DateTruncate kCentury timeval = datetrunc_century_impl timeval"
| "DateTruncate kMillennium timeval = datetrunc_millennium_impl timeval"
| "DateTruncate kInvalid timeval = None"

definition truncate_high_precision_timestamp_to_date :: "int \<Rightarrow> int \<Rightarrow> int option" where
  "truncate_high_precision_timestamp_to_date timeval scale =
     do {
       s \<leftarrow> chk64 (scale * kSecsPerDay);
       d \<leftarrow> floor_div timeval s;
       chk64 (d * kSecsPerDay)
     }"

definition DateTruncateHighPrecisionToDateNullable :: "int \<Rightarrow> int \<Rightarrow> int \<Rightarrow> int option" where
  "DateTruncateHighPrecisionToDateNullable timeval scale null_val =
     (if timeval = null_val then Some null_val else truncate_high_precision_timestamp_to_date timeval scale)"

section \<open>Difference\<close>

record EraTime =
  et_era :: int
  et_yoe :: int
  et_moy :: int
  et_dom :: int
  et_sod :: int

definition EraTime_make :: "int \<Rightarrow> EraTime option" where
  "EraTime_make time =
     do {
       day \<leftarrow> floor_div time kSecsPerDay;
       e \<leftarrow> floor_div (day - kEpochAdjustedDays) kDaysPer400Years;
       let s = to_i32 (time - day * kSecsPerDay);
       let doe = to_i32 (day - kEpochAdjustedDays - e * kDaysPer400Years);
       let y = (doe - doe sdiv 1460 + doe sdiv 36524 - doe sdiv 146096) sdiv 365;
       let doy = doe - (365 * y + y sdiv 4 - y sdiv 100);
       let m = (5 * doy + 2) sdiv 153;
       let d = doy - (153 * m + 2) sdiv 5;
       Some \<lparr>et_era = e, et_yoe = y, et_moy = m, et_dom = d, et_sod = s\<rparr>
     }"

definition EraTime_neg :: "EraTime \<Rightarrow> EraTime" where
  "EraTime_neg t = \<lparr>et_era = - et_era t, et_yoe = - et_yoe t, et_moy = - et_moy t, et_dom = - et_dom t, et_sod = - et_sod t\<rparr>"

definition EraTime_minus :: "EraTime \<Rightarrow> EraTime \<Rightarrow> EraTime" where
  "EraTime_minus t rhs =
     \<lparr>et_era = et_era t - et_era rhs, et_yoe = et_yoe t - et_yoe rhs, et_moy = et_moy t - et_moy rhs, et_dom = et_dom t - et_dom rhs, et_sod = et_sod t - et_sod rhs\<rparr>"

datatype EraTime_Field = ERA | YOE | MOY | DOM | SOD

definition sgn1 :: "int \<Rightarrow> int" where "sgn1 v = (if v < 0 then - 1 else 1)"

fun first_sign :: "int list \<Rightarrow> int" where
  "first_sign [] = 0"
| "first_sign (v # vs) = (if v \<noteq> 0 then sgn1 v else first_sign vs)"

definition EraTime_sign :: "EraTime_Field \<Rightarrow> EraTime \<Rightarrow> int" where
  "EraTime_sign field t =
     (case field of
        ERA \<Rightarrow> first_sign [et_era t, et_yoe t, et_moy t, et_dom t, et_sod t]
      | YOE \<Rightarrow> first_sign [et_yoe t, et_moy t, et_dom t, et_sod t]
      | MOY \<Rightarrow> first_sign [et_moy t, et_dom t, et_sod t]
      | DOM \<Rightarrow> first_sign [et_dom t, et_sod t]
      | SOD \<Rightarrow> first_sign [et_sod t])"

definition count_units :: "int \<Rightarrow> int \<Rightarrow> int \<Rightarrow> EraTime \<Rightarrow> int" where
  "count_units n sg years ut =
     (let units = years sdiv n mod 2 ^ 64;
          rem = to_u32 (years smod n)
      in to_i64 (sg * (units - of_bool (rem = 0 \<and> EraTime_sign MOY ut = - 1))))"

definition EraTime_count :: "DateTruncField \<Rightarrow> EraTime \<Rightarrow> int option" where
  "EraTime_count field t =
     (let sg = EraTime_sign ERA t;
          ut = (if sg = - 1 then EraTime_neg t else t);
          years = 400 * et_era ut + et_yoe ut
      in case field of
           kMonth \<Rightarrow> Some (sg * (12 * years + et_moy ut - of_bool (EraTime_sign DOM ut = - 1)))
         | kQuarter \<Rightarrow>
             (let quarters = et_moy ut sdiv 3;
                  rem = et_moy ut smod 3
              in Some (sg * (4 * years + quarters - of_bool (rem < 0 \<or> (rem = 0 \<and> EraTime_sign DOM ut = - 1)))))
         | kYear \<Rightarrow> Some (sg * (years - of_bool (EraTime_sign MOY ut = - 1)))
         | kDecade \<Rightarrow> Some (count_units 10 sg years ut)
         | kCentury \<Rightarrow> Some (count_units 100 sg years ut)
         | kMillennium \<Rightarrow> Some (count_units 1000 sg years ut)
         | _ \<Rightarrow> None)"

definition DateDiff :: "DateTruncField \<Rightarrow> int \<Rightarrow> int \<Rightarrow> int option" where
  "DateDiff datepart startdate enddate =
     (case datepart of
        kNano \<Rightarrow> do { d \<leftarrow> chk64 (enddate - startdate); chk64 (d * kNanoSecsPerSec) }
      | kMicro \<Rightarrow> do { d \<leftarrow> chk64 (enddate - startdate); chk64 (d * kMicroSecsPerSec) }
      | kMilli \<Rightarrow> do { d \<leftarrow> chk64 (enddate - startdate); chk64 (d * kMilliSecsPerSec) }
      | kSecond \<Rightarrow> chk64 (enddate - startdate)
      | kMinute \<Rightarrow> do { d \<leftarrow> chk64 (enddate - startdate); Some (d sdiv kSecsPerMin) }
      | kHour \<Rightarrow> do { d \<leftarrow> chk64 (enddate - startdate); Some (d sdiv kSecsPerHour) }
      | kQuarterDay \<Rightarrow> do { d \<leftarrow> chk64 (enddate - startdate); Some (d sdiv (kSecsPerDay div 4)) }
      | kDay \<Rightarrow> do { d \<leftarrow> chk64 (enddate - startdate); Some (d sdiv kSecsPerDay) }
      | kWeek \<Rightarrow> do { d \<leftarrow> chk64 (enddate - startdate); Some (d sdiv (7 * kSecsPerDay)) }
      | kWeekSunday \<Rightarrow> do { d \<leftarrow> chk64 (enddate - startdate); Some (d sdiv (7 * kSecsPerDay)) }
      | kWeekSaturday \<Rightarrow> do { d \<leftarrow> chk64 (enddate - startdate); Some (d sdiv (7 * kSecsPerDay)) }
      | _ \<Rightarrow> do {
          e \<leftarrow> EraTime_make enddate;
          s \<leftarrow> EraTime_make startdate;
          EraTime_count datepart (EraTime_minus e s)
        })"

definition pow10_at :: "int \<Rightarrow> int option" where
  "pow10_at i =
     (if 0 \<le> i \<and> i < 10 then Some ([1, 0, 0, 1000, 0, 0, 1000 * 1000, 0, 0, 1000 * 1000 * 1000] ! nat i) else None)"

definition DateDiffHighPrecision :: "DateTruncField \<Rightarrow> int \<Rightarrow> int \<Rightarrow> int \<Rightarrow> int \<Rightarrow> int option" where
  "DateDiffHighPrecision datepart startdate enddate start_dim end_dim =
     (if datepart = kNano \<or> datepart = kMicro \<or> datepart = kMilli then
        do {
          let target_dim = (if datepart = kMilli then 3 else if datepart = kMicro then 6 else 9);
          let delta_dim = end_dim - start_dim;
          let adj_dim = target_dim - (if delta_dim < 0 then start_dim else end_dim);
          numerator \<leftarrow>
            (if delta_dim < 0 then
               do { p \<leftarrow> pow10_at (- delta_dim); e \<leftarrow> chk64 (enddate * p); chk64 (e - startdate) }
             else
               do { p \<leftarrow> pow10_at delta_dim; s \<leftarrow> chk64 (startdate * p); chk64 (enddate - s) });
          if adj_dim < 0 then
            do { p \<leftarrow> pow10_at (- adj_dim); if p = 0 then None else Some (numerator sdiv p) }
          else
            do { p \<leftarrow> pow10_at adj_dim; chk64 (numerator * p) }
        }
      else
        do {
          pe \<leftarrow> pow10_at end_dim;
          end_seconds \<leftarrow> floor_div enddate pe;
          qe \<leftarrow> pow10_at (9 - end_dim);
          let delta_ns = to_i32 ((enddate - end_seconds * pe) * qe);
          ps \<leftarrow> pow10_at start_dim;
          start_seconds \<leftarrow> floor_div startdate ps;
          qs \<leftarrow> pow10_at (9 - start_dim);
          let delta_ns = to_i32 (delta_ns - (startdate - start_seconds * ps) * qs);
          delta_s \<leftarrow> chk64 (end_seconds - start_seconds);
          let adj_sec = (if 0 < delta_s \<and> delta_ns < 0 then - 1 else if delta_s < 0 \<and> 0 < delta_ns then 1 else 0);
          DateDiff datepart start_seconds (end_seconds + adj_sec)
        })"

definition DateDiffNullable :: "DateTruncField \<Rightarrow> int \<Rightarrow> int \<Rightarrow> int \<Rightarrow> int option" where
  "DateDiffNullable datepart startdate enddate null_val =
     (if startdate = null_val \<or> enddate = null_val then Some null_val else DateDiff datepart startdate enddate)"

definition DateDiffHighPrecisionNullable ::
  "DateTruncField \<Rightarrow> int \<Rightarrow> int \<Rightarrow> int \<Rightarrow> int \<Rightarrow> int \<Rightarrow> int option" where
  "DateDiffHighPrecisionNullable datepart startdate enddate start_dim end_dim null_val =
     (if startdate = null_val \<or> enddate = null_val then Some null_val
      else DateDiffHighPrecision datepart startdate enddate start_dim end_dim)"

end
