(* ===== verification/Date_Add.thy ===== *)
theory Date_Add
  imports Date_Trunc
begin

text \<open>
  Addition to a time (\<open>QueryEngine/DateAdd.cpp\<close>): months are added to a count of months since
  March 2000 with the day of the month and the second of the day kept apart, and the day is clamped
  to the length of the month that is reached.
\<close>

section \<open>Addition\<close>

record MonthDaySecond =
  md_months :: int
  md_dom :: int
  md_sod :: int

definition clampDom :: "int \<Rightarrow> int \<Rightarrow> int \<Rightarrow> int option" where
  "clampDom yoe moy d =
     (if d < 28 then Some d
      else do {
        max_day \<leftarrow>
          (if moy = 11 then
             let yoe = to_u32 (yoe + 1)
             in Some (27 + of_bool (yoe mod 4 = 0 \<and> (yoe mod 100 \<noteq> 0 \<or> yoe = 400)))
           else if moy < 11 then Some ([30, 29, 30, 29, 30, 30, 29, 30, 29, 30, 30] ! nat moy)
           else None);
        Some (if d < max_day then d else max_day)
      })"

definition MonthDaySecond_make :: "int \<Rightarrow> MonthDaySecond option" where
  "MonthDaySecond_make timeval =
     do {
       day \<leftarrow> floor_div timeval kSecsPerDay;
       era \<leftarrow> floor_div (day - kEpochAdjustedDays) kDaysPer400Years;
       let doe = to_u32 (day - kEpochAdjustedDays - era * kDaysPer400Years);
       let yoe = to_u32 (doe - doe div 1460 + doe div 36524 - doe div 146096) div 365;
       let doy = day_of_year doe yoe;
       let moy = month_of_year doy;
       Some \<lparr>md_months = (era * 400 + yoe) * 12 + moy,
             md_dom = day_of_month doy moy,
             md_sod = to_u32 (timeval - day * kSecsPerDay)\<rparr>
     }"

definition addMonths :: "int \<Rightarrow> MonthDaySecond \<Rightarrow> MonthDaySecond option" where
  "addMonths months t = do { m \<leftarrow> chk64 (md_months t + months); Some (t\<lparr>md_months := m\<rparr>) }"

definition unixtime :: "MonthDaySecond \<Rightarrow> int option" where
  "unixtime t =
     do {
       era \<leftarrow> floor_div (md_months t) (12 * 400);
       let moe = to_u32 (md_months t - era * (12 * 400));
       let yoe = moe div 12;
       let moy = moe mod 12;
       d \<leftarrow> clampDom yoe moy (md_dom t);
       let doy = to_u32 ((153 * moy + 2) div 5 + d);
       let doe = to_u32 (yoe * 365 + yoe div 4 - yoe div 100 + doy);
       e \<leftarrow> chk64 (era * kDaysPer400Years);
       f \<leftarrow> chk64 (kEpochAdjustedDays + e);
       g \<leftarrow> chk64 (f + doe);
       h \<leftarrow> chk64 (g * kSecsPerDay);
       chk64 (h + md_sod t)
     }"

datatype DateAddField =
    kYear | kQuarter | kMonth | kDay | kHour | kMinute | kSecond | kMillennium | kCentury | kDecade
  | kMilli | kMicro | kNano | kWeek | kQuarterDay | kWeekDay | kDayOfYear | kInvalid

definition add_scaled :: "int \<Rightarrow> int \<Rightarrow> int \<Rightarrow> int option" where
  "add_scaled timeval number secs = do { n \<leftarrow> chk64 (number * secs); chk64 (timeval + n) }"

definition add_months_scaled :: "int \<Rightarrow> int \<Rightarrow> int \<Rightarrow> int option" where
  "add_months_scaled timeval number months =
     do {
       t \<leftarrow> MonthDaySecond_make timeval;
       n \<leftarrow> chk64 (number * months);
       t \<leftarrow> addMonths n t;
       unixtime t
     }"

fun DateAdd :: "DateAddField \<Rightarrow> int \<Rightarrow> int \<Rightarrow> int option" where
  "DateAdd kSecond number timeval = chk64 (timeval + number)"
| "DateAdd kMinute number timeval = add_scaled timeval number kSecsPerMin"
| "DateAdd kHour number timeval = add_scaled timeval number kSecsPerHour"
| "DateAdd kWeekDay number timeval = add_scaled timeval number kSecsPerDay"
| "DateAdd kDayOfYear number timeval = add_scaled timeval number kSecsPerDay"
| "DateAdd kDay number timeval = add_scaled timeval number kSecsPerDay"
| "DateAdd kWeek number timeval = add_scaled timeval number (7 * kSecsPerDay)"
| "DateAdd kMonth number timeval = add_months_scaled timeval number 1"
| "DateAdd kQuarter number timeval = add_months_scaled timeval number 3"
| "DateAdd kYear number timeval = add_months_scaled timeval number 12"
| "DateAdd kDecade number timeval = add_months_scaled timeval number 120"
| "DateAdd kCentury number timeval = add_months_scaled timeval number 1200"
| "DateAdd kMillennium number timeval = add_months_scaled timeval number 12000"
| "DateAdd kMilli number timeval = None"
| "DateAdd kMicro number timeval = None"
| "DateAdd kNano number timeval = None"
| "DateAdd kQuarterDay number timeval = None"
| "DateAdd kInvalid number timeval = None"

definition DateAddHighPrecision :: "DateAddField \<Rightarrow> int \<Rightarrow> int \<Rightarrow> int \<Rightarrow> int option" where
  "DateAddHighPrecision field number timeval dim =
     (if field = kNano \<or> field = kMicro \<or> field = kMilli then
        do {
          let field_dim = (if field = kMilli then 3 else if field = kMicro then 6 else 9);
          let adj_dim = to_i32 (dim - field_dim);
          if adj_dim < 0 then
            do { p \<leftarrow> pow10_at (- adj_dim); n \<leftarrow> floor_div number p; chk64 (timeval + n) }
          else
            do { p \<leftarrow> pow10_at adj_dim; add_scaled timeval number p }
        }
      else
        do {
          scale \<leftarrow> pow10_at dim;
          s \<leftarrow> floor_div timeval scale;
          r \<leftarrow> DateAdd field number s;
          u \<leftarrow> chk64 (r * scale);
          chk64 (u + unsigned_mod timeval scale)
        })"

definition DateAddNullable :: "DateAddField \<Rightarrow> int \<Rightarrow> int \<Rightarrow> int \<Rightarrow> int option" where
  "DateAddNullable field number timeval null_val =
     (if timeval = null_val then Some null_val else DateAdd field number timeval)"

definition DateAddHighPrecisionNullable :: "DateAddField \<Rightarrow> int \<Rightarrow> int \<Rightarrow> int \<Rightarrow> int \<Rightarrow> int option" where
  "DateAddHighPrecisionNullable field number timeval dim null_val =
     (if timeval = null_val then Some null_val else DateAddHighPrecision field number timeval dim)"

end
