(* ===== verification/Date_Utils.thy ===== *)
theory Date_Utils
  imports Date_Add
begin

text \<open>
  The scaling between time units (\<open>QueryEngine/DateTimeUtils.h\<close>, \<open>IR/DateTime.h\<close>), the folding of
  constant \<open>EXTRACT\<close> and \<open>DATE_TRUNC\<close> expressions (\<open>QueryEngine/DateTimeTranslator.h\<close>) and the
  conversion of encoded dates (\<open>Shared/DateConverters.h\<close>).  The pair of an operator and a scale
  that the source leaves empty is \<open>NoScale\<close>.
\<close>

datatype TimeUnit = kMonth | kDay | kSecond | kMilli | kMicro | kNano

fun TimeUnit_ord :: "TimeUnit \<Rightarrow> nat" where
  "TimeUnit_ord kMonth = 0"
| "TimeUnit_ord kDay = 1"
| "TimeUnit_ord kSecond = 2"
| "TimeUnit_ord kMilli = 3"
| "TimeUnit_ord kMicro = 4"
| "TimeUnit_ord kNano = 5"

fun unitsPerSecond :: "TimeUnit \<Rightarrow> int option" where
  "unitsPerSecond kSecond = Some 1"
| "unitsPerSecond kMilli = Some 1000"
| "unitsPerSecond kMicro = Some 1000000"
| "unitsPerSecond kNano = Some 1000000000"
| "unitsPerSecond _ = None"

datatype scale_op = NoScale | MulBy int | DivBy int

definition get_timestamp_precision_scale :: "int \<Rightarrow> int option" where
  "get_timestamp_precision_scale dimen =
     (if dimen = 0 then Some 1
      else if dimen = 3 then Some kMilliSecsPerSec
      else if dimen = 6 then Some kMicroSecsPerSec
      else if dimen = 9 then Some kNanoSecsPerSec
      else None)"

fun get_dateadd_timestamp_precision_scale :: "DateAddField \<Rightarrow> int option" where
  "get_dateadd_timestamp_precision_scale DateAddField.kMilli = Some kMilliSecsPerSec"
| "get_dateadd_timestamp_precision_scale DateAddField.kMicro = Some kMicroSecsPerSec"
| "get_dateadd_timestamp_precision_scale DateAddField.kNano = Some kNanoSecsPerSec"
| "get_dateadd_timestamp_precision_scale _ = None"

fun get_extract_timestamp_precision_scale :: "DateExtractField \<Rightarrow> int option" where
  "get_extract_timestamp_precision_scale DateExtractField.kMilli = Some kMilliSecsPerSec"
| "get_extract_timestamp_precision_scale DateExtractField.kMicro = Some kMicroSecsPerSec"
| "get_extract_timestamp_precision_scale DateExtractField.kNano = Some kNanoSecsPerSec"
| "get_extract_timestamp_precision_scale _ = None"

definition is_subsecond_extract_field :: "DateExtractField \<Rightarrow> bool" where
  "is_subsecond_extract_field field \<longleftrightarrow>
     field = DateExtractField.kMilli \<or> field = DateExtractField.kMicro \<or> field = DateExtractField.kNano"

definition is_subsecond_dateadd_field :: "DateAddField \<Rightarrow> bool" where
  "is_subsecond_dateadd_field field \<longleftrightarrow>
     field = DateAddField.kMilli \<or> field = DateAddField.kMicro \<or> field = DateAddField.kNano"

definition is_subsecond_datetrunc_field :: "DateTruncField \<Rightarrow> bool" where
  "is_subsecond_datetrunc_field field \<longleftrightarrow>
     field = DateTruncField.kMilli \<or> field = DateTruncField.kMicro \<or> field = DateTruncField.kNano"

definition get_dateadd_high_precision_adjusted_scale :: "DateAddField \<Rightarrow> int \<Rightarrow> scale_op option" where
  "get_dateadd_high_precision_adjusted_scale field dimen =
     (case field of
        DateAddField.kNano \<Rightarrow>
          (if dimen = 9 then Some NoScale
           else if dimen = 6 then Some (DivBy kMilliSecsPerSec)
           else if dimen = 3 then Some (DivBy kMicroSecsPerSec)
           else None)
      | DateAddField.kMicro \<Rightarrow>
          (if dimen = 9 then Some (MulBy kMilliSecsPerSec)
           else if dimen = 6 then Some NoScale
           else if dimen = 3 then Some (DivBy kMilliSecsPerSec)
           else None)
      | DateAddField.kMilli \<Rightarrow>
          (if dimen = 9 then Some (MulBy kMicroSecsPerSec)
           else if dimen = 6 then Some (MulBy kMilliSecsPerSec)
           else if dimen = 3 then Some NoScale
           else None)
      | _ \<Rightarrow> None)"

fun get_extract_high_precision_adjusted_scale :: "DateExtractField \<Rightarrow> TimeUnit \<Rightarrow> scale_op" where
  "get_extract_high_precision_adjusted_scale DateExtractField.kMicro kMilli = MulBy kMilliSecsPerSec"
| "get_extract_high_precision_adjusted_scale DateExtractField.kNano kMilli = MulBy kMicroSecsPerSec"
| "get_extract_high_precision_adjusted_scale DateExtractField.kMilli kMicro = DivBy kMilliSecsPerSec"
| "get_extract_high_precision_adjusted_scale DateExtractField.kNano kMicro = MulBy kMilliSecsPerSec"
| "get_extract_high_precision_adjusted_scale DateExtractField.kMilli kNano = DivBy kMicroSecsPerSec"
| "get_extract_high_precision_adjusted_scale DateExtractField.kMicro kNano = DivBy kMilliSecsPerSec"
| "get_extract_high_precision_adjusted_scale _ _ = NoScale"

fun get_datetrunc_high_precision_scale :: "DateTruncField \<Rightarrow> TimeUnit \<Rightarrow> int" where
  "get_datetrunc_high_precision_scale DateTruncField.kMilli kMicro = kMilliSecsPerSec"
| "get_datetrunc_high_precision_scale DateTruncField.kMicro kNano = kMilliSecsPerSec"
| "get_datetrunc_high_precision_scale DateTruncField.kMilli kNano = kMicroSecsPerSec"
| "get_datetrunc_high_precision_scale _ _ = - 1"

datatype ScalingType = ScaleUp | ScaleDown

definition scale_epoch_up :: "int \<Rightarrow> int \<Rightarrow> int option" where
  "scale_epoch_up epoch scale =
     do {
       scaled_epoch \<leftarrow> chk64 (epoch * scale);
       if epoch \<noteq> 0 \<and> epoch \<noteq> scaled_epoch sdiv scale then None else Some scaled_epoch
     }"

definition get_datetime_scaled_epoch :: "ScalingType \<Rightarrow> int \<Rightarrow> int \<Rightarrow> int option" where
  "get_datetime_scaled_epoch direction epoch dimen =
     do {
       scale \<leftarrow> get_timestamp_precision_scale dimen;
       case direction of
         ScaleUp \<Rightarrow> scale_epoch_up epoch scale
       | ScaleDown \<Rightarrow> Some (epoch sdiv scale)
     }"

fun get_nanosecs_in_unit :: "TimeUnit \<Rightarrow> int option" where
  "get_nanosecs_in_unit kDay = Some 86400000000000"
| "get_nanosecs_in_unit kSecond = Some 1000000000"
| "get_nanosecs_in_unit kMilli = Some 1000000"
| "get_nanosecs_in_unit kMicro = Some 1000"
| "get_nanosecs_in_unit kNano = Some 1"
| "get_nanosecs_in_unit kMonth = None"

definition get_datetime_scaled_epoch_units :: "int \<Rightarrow> TimeUnit \<Rightarrow> TimeUnit \<Rightarrow> int option" where
  "get_datetime_scaled_epoch_units epoch old_unit new_unit =
     do {
       old_scale \<leftarrow> get_nanosecs_in_unit old_unit;
       new_scale \<leftarrow> get_nanosecs_in_unit new_unit;
       if old_scale > new_scale then scale_epoch_up epoch (old_scale sdiv new_scale)
       else Some (epoch sdiv (new_scale sdiv old_scale))
     }"

text \<open>
  A type is given by whether it is a timestamp and by its unit; the second function requires a
  date or time type.
\<close>

definition getExtractFromTimeConstantValue :: "int \<Rightarrow> DateExtractField \<Rightarrow> bool \<Rightarrow> TimeUnit \<Rightarrow> int option" where
  "getExtractFromTimeConstantValue timeval field isTimestamp type_unit =
     (let unit = (if isTimestamp then type_unit else kSecond)
      in if isTimestamp \<and> TimeUnit_ord unit > TimeUnit_ord kSecond then
           if is_subsecond_extract_field field then
             case get_extract_high_precision_adjusted_scale field unit of
               DivBy scale \<Rightarrow> do { t \<leftarrow> floor_div timeval scale; ExtractFromTime field t }
             | MulBy scale \<Rightarrow> do { t \<leftarrow> chk64 (timeval * scale); ExtractFromTime field t }
             | NoScale \<Rightarrow> ExtractFromTime field timeval
           else do { u \<leftarrow> unitsPerSecond unit; t \<leftarrow> floor_div timeval u; ExtractFromTime field t }
         else if is_subsecond_extract_field field then
           do { s \<leftarrow> get_extract_timestamp_precision_scale field; t \<leftarrow> chk64 (timeval * s); ExtractFromTime field t }
         else ExtractFromTime field timeval)"

definition getDateTruncConstantValue :: "int \<Rightarrow> DateTruncField \<Rightarrow> bool \<Rightarrow> TimeUnit \<Rightarrow> int option" where
  "getDateTruncConstantValue timeval field isTimestamp unit =
     (if isTimestamp \<and> TimeUnit_ord unit > TimeUnit_ord kSecond then
        if is_subsecond_datetrunc_field field then
          do {
            date_truncate \<leftarrow> DateTruncate field timeval;
            let result = get_datetrunc_high_precision_scale field unit;
            if result \<noteq> - 1 then chk64 (date_truncate - unsigned_mod date_truncate result) else Some date_truncate
          }
        else
          do {
            scale \<leftarrow> unitsPerSecond unit;
            t \<leftarrow> floor_div timeval scale;
            d \<leftarrow> DateTruncate field t;
            chk64 (d * scale)
          }
      else DateTruncate field timeval)"

definition get_epoch_days_from_seconds :: "int \<Rightarrow> int" where
  "get_epoch_days_from_seconds seconds =
     (if seconds < 0 \<and> seconds smod kSecsPerDay \<noteq> 0 then seconds sdiv kSecsPerDay - 1 else seconds sdiv kSecsPerDay)"

definition get_epoch_seconds_from_days :: "int \<Rightarrow> int option" where
  "get_epoch_seconds_from_days days = chk64 (days * kSecsPerDay)"

end
