(* ===== verification/Calendar.thy ===== *)
theory Calendar
  imports Main
begin

text \<open>
  The Gregorian calendar as a specification of the date functions: leap years, the lengths of the
  months and the number of a day, counted from 1 January 1970.  The second part counts the same
  days in years that begin in March, which is what the source computes with: a day is the first of
  March of one such year and a number of days after it, and the month follows from that number.
\<close>

section \<open>The calendar\<close>

definition leap_year :: "int \<Rightarrow> bool" where
  "leap_year y \<longleftrightarrow> y mod 4 = 0 \<and> y mod 100 \<noteq> 0 \<or> y mod 400 = 0"

definition days_in_month :: "int \<Rightarrow> int \<Rightarrow> int" where
  "days_in_month y m =
     (if m = 2 then (if leap_year y then 29 else 28) else if m \<in> {4, 6, 9, 11} then 30 else 31)"

definition leap_years_to :: "int \<Rightarrow> int" where
  "leap_years_to y = y div 4 - y div 100 + y div 400"

definition days_before_year :: "int \<Rightarrow> int" where
  "days_before_year y = 365 * (y - 1970) + leap_years_to (y - 1) - leap_years_to 1969"

definition days_before_month :: "int \<Rightarrow> int \<Rightarrow> int" where
  "days_before_month y m = sum_list (map (days_in_month y) [1..m - 1])"

definition day_number :: "int \<Rightarrow> int \<Rightarrow> int \<Rightarrow> int" where
  "day_number y m d = days_before_year y + days_before_month y m + (d - 1)"

definition valid_date :: "int \<Rightarrow> int \<Rightarrow> int \<Rightarrow> bool" where
  "valid_date y m d \<longleftrightarrow> 1 \<le> m \<and> m \<le> 12 \<and> 1 \<le> d \<and> d \<le> days_in_month y m"

text \<open>The closed form counts 365 or 366 days for each year, from 1970 on.\<close>

lemma days_before_1970: "days_before_year 1970 = 0"
  by (simp add: days_before_year_def)

lemma div_pred:
  assumes "0 < (k :: int)"
  shows "y div k = (y - 1) div k + of_bool (y mod k = 0)"
proof (cases "y mod k = 0")
  case True
  then obtain q where "y = k * q" by (auto simp: mod_eq_0_iff_dvd)
  moreover have "(k * q - 1) div k = q - 1" using assms by (intro int_div_pos_eq [of _ _ _ "k - 1"]) (simp_all add: algebra_simps)
  ultimately show ?thesis using assms by simp
next
  case False
  then have "(y - 1) div k = y div k"
  proof (intro int_div_pos_eq [of _ _ _ "y mod k - 1"])
    show "0 \<le> y mod k - 1" "y mod k - 1 < k" using False assms pos_mod_bound [of k y] pos_mod_sign [of k y] by linarith+
  qed simp
  then show ?thesis using False by simp
qed

lemma leap_years_to_pred: "leap_years_to y = leap_years_to (y - 1) + of_bool (leap_year y)"
proof -
  have m: "y mod 100 = 0" if "y mod 400 = 0" using that mod_mod_cancel [of 100 400 y] by simp
  have m': "y mod 4 = 0" if "y mod 100 = 0" using that mod_mod_cancel [of 4 100 y] by simp
  have sum: "a' - b' + c' = a - b + c + of_bool (p \<and> \<not> q \<or> r)"
    if "a' = (a :: int) + of_bool p" "b' = b + of_bool q" "c' = c + of_bool r" "r \<Longrightarrow> q" "q \<Longrightarrow> p" for a b c a' b' c' p q r
    using that by (cases p; cases q; cases r) simp_all
  show ?thesis
    unfolding leap_years_to_def leap_year_def by (rule sum [OF div_pred div_pred div_pred]) (simp_all add: m m')
qed

lemma days_before_year_step:
  "days_before_year (y + 1) = days_before_year y + 365 + of_bool (leap_year y)"
  using leap_years_to_pred [of y] by (simp add: days_before_year_def)

lemma month_cases:
  assumes "1 \<le> m" and "m \<le> (12 :: int)"
  obtains "m = 1" | "m = 2" | "m = 3" | "m = 4" | "m = 5" | "m = 6" | "m = 7" | "m = 8" | "m = 9" | "m = 10" | "m = 11" | "m = 12"
proof -
  have "m \<in> set [1..12]" using assms by simp
  then show ?thesis using that by (simp add: upto_rec1 del: set_upto) blast
qed

lemma days_before_month_eval:
  "days_before_month y 1 = 0" "days_before_month y 2 = 31"
  "days_before_month y 3 = 59 + of_bool (leap_year y)" "days_before_month y 4 = 90 + of_bool (leap_year y)"
  "days_before_month y 5 = 120 + of_bool (leap_year y)" "days_before_month y 6 = 151 + of_bool (leap_year y)"
  "days_before_month y 7 = 181 + of_bool (leap_year y)" "days_before_month y 8 = 212 + of_bool (leap_year y)"
  "days_before_month y 9 = 243 + of_bool (leap_year y)" "days_before_month y 10 = 273 + of_bool (leap_year y)"
  "days_before_month y 11 = 304 + of_bool (leap_year y)" "days_before_month y 12 = 334 + of_bool (leap_year y)"
  "days_before_month y 13 = 365 + of_bool (leap_year y)"
  by (simp_all add: days_before_month_def days_in_month_def upto_rec1)

lemma days_before_month_step:
  assumes "1 \<le> m" and "m \<le> 12"
  shows "days_before_month y (m + 1) = days_before_month y m + days_in_month y m"
  using upto_rec2 [of 1 m] assms by (simp add: days_before_month_def)

lemma days_in_month_bounds: "28 \<le> days_in_month y m" "days_in_month y m \<le> 31"
  by (simp_all add: days_in_month_def)

lemma days_before_month_mono:
  assumes "1 \<le> m" and "m < n" and "n \<le> 13"
  shows "days_before_month y m + days_in_month y m \<le> days_before_month y n"
proof -
  have "m < n \<Longrightarrow> n \<le> 13 \<Longrightarrow> days_before_month y m + days_in_month y m \<le> days_before_month y n" for n
  proof (induction n rule: int_gr_induct [where k = m])
    case base
    then show ?case using days_before_month_step [of m y] assms(1) by simp
  next
    case (step i)
    then show ?case using days_before_month_step [of i y] days_in_month_bounds(1) [of y i] assms(1) by linarith
  qed
  then show ?thesis using assms by blast
qed

lemma days_before_year_mono:
  assumes "y < z"
  shows "days_before_year (y + 1) \<le> days_before_year z"
  using assms
proof (induction z rule: int_gr_induct)
  case (step i)
  then show ?case using days_before_year_step [of i] by (simp add: of_bool_def split: if_splits)
qed simp

lemma day_number_in_year:
  assumes "valid_date y m d"
  shows "days_before_year y \<le> day_number y m d" and "day_number y m d < days_before_year (y + 1)"
proof -
  have m: "1 \<le> m" "m \<le> 12" and d: "1 \<le> d" "d \<le> days_in_month y m" using assms by (simp_all add: valid_date_def)
  have "0 \<le> days_before_month y m" using m by (cases m rule: month_cases) (simp_all add: days_before_month_eval)
  then show "days_before_year y \<le> day_number y m d" using d by (simp add: day_number_def)
  show "day_number y m d < days_before_year (y + 1)"
    using days_before_month_mono [of m 13 y] m d days_before_year_step [of y] days_before_month_eval(13) [of y]
    by (simp add: day_number_def)
qed

text \<open>A day has one date.\<close>

lemma day_number_inj:
  assumes v: "valid_date y m d" and v': "valid_date y' m' d'" and eq: "day_number y m d = day_number y' m' d'"
  shows "y = y'" and "m = m'" and "d = d'"
proof -
  show y: "y = y'"
    using day_number_in_year [OF v] day_number_in_year [OF v'] days_before_year_mono [of y y'] days_before_year_mono [of y' y] eq
    by linarith
  have b: "1 \<le> m" "m \<le> 12" "1 \<le> d" "d \<le> days_in_month y m" "1 \<le> m'" "m' \<le> 12" "1 \<le> d'" "d' \<le> days_in_month y m'"
    using v v' by (simp_all add: valid_date_def y)
  have "days_before_month y m + d = days_before_month y m' + d'" using eq by (simp add: day_number_def y)
  then show m: "m = m'"
    using b days_before_month_mono [of m m' y] days_before_month_mono [of m' m y] by linarith
  show "d = d'" using eq by (simp add: day_number_def y m)
qed

section \<open>Years that begin in March\<close>

definition march1 :: "int \<Rightarrow> int" where "march1 y = day_number y 3 1"

definition year_length :: "int \<Rightarrow> int" where "year_length y = 365 + of_bool (leap_year (y + 1))"

definition in_march_year :: "int \<Rightarrow> int \<Rightarrow> int \<Rightarrow> bool" where
  "in_march_year day y doy \<longleftrightarrow> day = march1 y + doy \<and> 0 \<le> doy \<and> doy < year_length y"

lemma march1_step: "march1 (y + 1) = march1 y + year_length y"
  by (simp add: march1_def day_number_def days_before_month_eval days_before_year_step year_length_def)

lemma march1_mono:
  assumes "y < z"
  shows "march1 y + year_length y \<le> march1 z"
  using assms
proof (induction z rule: int_gr_induct)
  case base
  then show ?case using march1_step [of y] by simp
next
  case (step i)
  then show ?case using march1_step [of i] by (simp add: year_length_def of_bool_def split: if_splits)
qed

lemma in_march_year_inj:
  assumes "in_march_year day y doy" and "in_march_year day y' doy'"
  shows "y = y'" and "doy = doy'"
proof -
  show "y = y'" using assms march1_mono [of y y'] march1_mono [of y' y] unfolding in_march_year_def by linarith
  then show "doy = doy'" using assms by (simp add: in_march_year_def)
qed

definition march_month_start :: "int \<Rightarrow> int" where "march_month_start moy = (153 * moy + 2) div 5"

definition date_of_march :: "int \<Rightarrow> int \<Rightarrow> int \<times> int" where
  "date_of_march y moy = (if moy < 10 then (y, moy + 3) else (y + 1, moy - 9))"

lemma moy_cases:
  assumes "0 \<le> m" and "m < (12 :: int)"
  obtains "m = 0" | "m = 1" | "m = 2" | "m = 3" | "m = 4" | "m = 5" | "m = 6" | "m = 7" | "m = 8" | "m = 9" | "m = 10" | "m = 11"
proof -
  have "m \<in> set [0..11]" using assms by simp
  then show ?thesis using that by (simp add: upto_rec1 del: set_upto) blast
qed

lemma march_month_number:
  assumes "0 \<le> moy" and "moy < 12" and "date_of_march y moy = (y', m)"
  shows "day_number y' m d = march1 y + march_month_start moy + (d - 1)"
  using assms
  by (cases moy rule: moy_cases)
    (auto simp: date_of_march_def day_number_def march1_def march_month_start_def days_before_month_eval days_before_year_step)

lemma march_month_of_day:
  assumes "0 \<le> doy" and "doy < 366"
  defines "moy \<equiv> (5 * doy + 2) div 153"
  shows "0 \<le> moy" "moy < 12" "march_month_start moy \<le> doy" "doy < march_month_start (moy + 1)"
proof -
  show "0 \<le> moy" "moy < 12" using assms(1,2) unfolding moy_def by linarith+
  have "153 * moy \<le> 5 * doy + 2" and "5 * doy + 2 < 153 * moy + 153" unfolding moy_def by linarith+
  then show "march_month_start moy \<le> doy" "doy < march_month_start (moy + 1)"
    unfolding march_month_start_def by (simp_all add: less_eq_div_iff_mult_less_eq div_less_iff_less_mult flip: add1_zle_eq)
qed

lemma march_date:
  assumes "in_march_year day y doy"
  defines "moy \<equiv> (5 * doy + 2) div 153"
  assumes "date_of_march y moy = (y', m)"
  shows "valid_date y' m (doy - march_month_start moy + 1)"
    and "day_number y' m (doy - march_month_start moy + 1) = day"
proof -
  have b: "0 \<le> doy" "doy < year_length y" "day = march1 y + doy" using assms(1) by (simp_all add: in_march_year_def)
  then have "doy < 366" by (simp add: year_length_def of_bool_def split: if_splits)
  note moy = march_month_of_day [OF b(1) this, folded moy_def]
  show "day_number y' m (doy - march_month_start moy + 1) = day"
    using march_month_number [OF moy(1,2) assms(3)] b(3) by simp
  show "valid_date y' m (doy - march_month_start moy + 1)"
    using moy b assms(3)
    by (cases moy rule: moy_cases)
      (auto simp: valid_date_def date_of_march_def days_in_month_def march_month_start_def year_length_def)
qed

text \<open>Every date is a day of one such year; with \<open>march_date\<close> this gives the converse.\<close>

definition march_index :: "int \<Rightarrow> int" where "march_index m = (if m < 3 then m + 9 else m - 3)"

lemma date_in_march_year:
  assumes "valid_date y m d"
  defines "moy \<equiv> march_index m"
  shows "in_march_year (day_number y m d) (y - of_bool (m < 3)) (march_month_start moy + (d - 1))"
    and "0 \<le> moy" and "moy < 12" and "(5 * (march_month_start moy + (d - 1)) + 2) div 153 = moy"
proof -
  have v: "1 \<le> m" "m \<le> 12" "1 \<le> d" "d \<le> days_in_month y m" using assms(1) by (simp_all add: valid_date_def)
  show moy: "0 \<le> moy" "moy < 12" using v by (simp_all add: moy_def march_index_def)
  have dm: "date_of_march (y - of_bool (m < 3)) moy = (y, m)" using v by (simp add: date_of_march_def moy_def march_index_def)
  have "0 \<le> march_month_start moy + (d - 1) \<and> march_month_start moy + (d - 1) < year_length (y - of_bool (m < 3))
      \<and> (5 * (march_month_start moy + (d - 1)) + 2) div 153 = moy"
    using v
    by (cases m rule: month_cases)
      (auto simp: moy_def march_index_def march_month_start_def year_length_def days_in_month_def of_bool_def split: if_splits)
  then show "in_march_year (day_number y m d) (y - of_bool (m < 3)) (march_month_start moy + (d - 1))"
    and "(5 * (march_month_start moy + (d - 1)) + 2) div 153 = moy"
    using march_month_number [OF moy dm, of d] by (simp_all add: in_march_year_def)
qed

end
