(* ===== verification/Date_Props.thy ===== *)
theory Date_Props
  imports Date_Utils Calendar
begin

text \<open>
  The expressions that the date functions share compute the calendar: division towards minus
  infinity, the year and the day of an era of 400 years, the month and the day of the month.
\<close>

section \<open>Division\<close>

lemma chk64_Some: "- (2 ^ 63) \<le> v \<Longrightarrow> v < 2 ^ 63 \<Longrightarrow> chk64 v = Some v"
  by (simp add: chk64_def)

lemma to_u32_id [simp]: "0 \<le> v \<Longrightarrow> v < 2 ^ 32 \<Longrightarrow> to_u32 v = v"
  by (simp add: to_u32_def)

lemma unsigned_mod_eq:
  assumes "0 < k"
  shows "unsigned_mod a k = a mod k"
proof (cases "0 \<le> a")
  case True
  then have "a smod k = a mod k" using assms by (cases "a = 0") (simp_all add: signed_modulo_int_def)
  then show ?thesis using pos_mod_sign [OF assms, of a] by (simp add: unsigned_mod_def Let_def)
next
  case False
  define r where "r = (- a) mod k"
  have s: "a smod k = - r" using False assms by (simp add: signed_modulo_int_def r_def)
  have r: "0 \<le> r" "r < k" using assms by (simp_all add: r_def)
  have "a mod k = (if r = 0 then 0 else k - r)"
    using zmod_zminus1_eq_if [of "- a" k] by (simp add: r_def)
  then show ?thesis using s r by (simp add: unsigned_mod_def Let_def)
qed

lemma floor_div_eq:
  assumes "0 < k" and "- (2 ^ 63) + (k - 1) \<le> a" and "a < 2 ^ 63"
  shows "floor_div a k = Some (a div k)"
proof (cases "a < 0")
  case True
  have b: "- (2 ^ 63) \<le> a - (k - 1)" "a - (k - 1) < 2 ^ 63" using assms True by linarith+
  show ?thesis
    using True assms(1) b sdiv_bound [OF assms(1) b] by (simp add: floor_div_def chk64_Some floor_as_sdiv)
next
  case False
  then show ?thesis
    using assms sdiv_bound [of k a] by (simp add: floor_div_def chk64_Some sdiv_nonneg)
qed

lemma floor_div_None:
  assumes "a < 0" and "a < - (2 ^ 63) + (k - 1)"
  shows "floor_div a k = None"
  using assms by (simp add: floor_div_def chk64_def)

section \<open>Eras\<close>

definition era_start :: "int \<Rightarrow> int" where "era_start y = 365 * y + y div 4 - y div 100"

lemma leap_year_era: "leap_year (2000 + 400 * e + y) \<longleftrightarrow> leap_year y"
proof -
  have "(2000 + 400 * e + y) mod k = y mod k" if "k dvd 400" for k
  proof -
    have "k dvd 2000 + 400 * e" using that by (intro dvd_add dvd_mult2) (auto intro: dvd_trans [of _ 400])
    then obtain q where "2000 + 400 * e = k * q" by (rule dvdE)
    then show ?thesis by (simp only: mod_mult_self4)
  qed
  then show ?thesis by (simp add: leap_year_def)
qed

lemma march1_era:
  assumes "0 \<le> y" and "y < 400"
  shows "march1 (2000 + 400 * e + y) = 11017 + 146097 * e + era_start y"
proof -
  have "march1 (2000 + 400 * e + y) = 11017 + 146097 * e + (365 * y + leap_years_to y)"
    if "0 \<le> y" for y
    using that
  proof (induction y rule: int_ge_induct)
    case base
    have "march1 (2000 + 400 * e) = 11017 + 146097 * e"
    proof -
      have "(2000 + 400 * e - 1) div 4 = 100 * e + 499" by (rule int_div_pos_eq [of _ _ _ "3"]) simp_all
      moreover have "(2000 + 400 * e - 1) div 100 = 4 * e + 19" by (rule int_div_pos_eq [of _ _ _ "99"]) simp_all
      moreover have "(2000 + 400 * e - 1) div 400 = e + 4" by (rule int_div_pos_eq [of _ _ _ "399"]) simp_all
      moreover have "leap_year (2000 + 400 * e)" using leap_year_era [of e 0] by (simp add: leap_year_def)
      ultimately show ?thesis
        by (simp add: march1_def day_number_def days_before_month_eval days_before_year_def leap_years_to_def)
    qed
    then show ?case by (simp add: leap_years_to_def)
  next
    case (step i)
    have "year_length (2000 + 400 * e + i) = 365 + of_bool (leap_year (i + 1))"
      using leap_year_era [of e "i + 1"] by (simp add: year_length_def add.assoc)
    moreover have "leap_years_to (i + 1) = leap_years_to i + of_bool (leap_year (i + 1))"
      using leap_years_to_pred [of "i + 1"] by simp
    ultimately show ?case using step.IH march1_step [of "2000 + 400 * e + i"] by (simp add: add.assoc)
  qed
  then show ?thesis using assms by (simp add: era_start_def leap_years_to_def)
qed

definition yoe_numerator :: "int \<Rightarrow> int" where
  "yoe_numerator doe = doe - doe div 1460 + doe div 36524 - of_bool (doe = 146096)"

lemma yoe_numerator_bounds:
  assumes "0 \<le> doe" and "doe < 146097"
  shows "0 \<le> yoe_numerator doe" and "yoe_numerator doe < 146000"
  using assms unfolding yoe_numerator_def of_bool_def by (simp_all split: if_splits) linarith+

lemma yoe_numerator_step:
  assumes "0 \<le> doe" and "doe < 146096"
  shows "yoe_numerator doe \<le> yoe_numerator (doe + 1)"
proof (cases "doe = 146095")
  case False
  have "(doe + 1) div 1460 \<le> doe div 1460 + 1" by linarith
  moreover have "doe div 36524 \<le> (doe + 1) div 36524" by (simp add: zdiv_mono1)
  ultimately show ?thesis using False assms by (simp add: yoe_numerator_def)
qed (simp add: yoe_numerator_def)

lemma yoe_numerator_mono:
  assumes "0 \<le> a" and "a \<le> b" and "b < 146097"
  shows "yoe_numerator a \<le> yoe_numerator b"
proof -
  have "b < 146097 \<longrightarrow> yoe_numerator a \<le> yoe_numerator b" using assms(2)
  proof (induction b rule: int_ge_induct)
    case (step i)
    then show ?case using yoe_numerator_step [of i] assms(1) by (auto intro: order_trans)
  qed simp
  then show ?thesis using assms(3) by simp
qed

lemma yoe_table:
  "\<forall>y \<in> set [0..399]. yoe_numerator (era_start y) div 365 = y
     \<and> yoe_numerator (era_start y + 364 + of_bool (leap_year (y + 1))) div 365 = y"
  by code_simp

lemma era_start_step:
  assumes "0 \<le> y" and "y < 399"
  shows "era_start (y + 1) = era_start y + year_length y"
proof -
  have "year_length (2000 + y) = year_length y" using leap_year_era [of 0 "y + 1"] by (simp add: year_length_def add.assoc)
  then show ?thesis using march1_era [of y 0] march1_era [of "y + 1" 0] march1_step [of "2000 + y"] assms by (simp add: add.assoc)
qed

lemma year_of_era_exists:
  assumes "0 \<le> doe" and "doe < 146097"
  obtains y where "0 \<le> y" "y < 400" "era_start y \<le> doe" "doe < era_start y + year_length y"
proof -
  have "doe < 146097 \<longrightarrow> (\<exists>y. 0 \<le> y \<and> y < 400 \<and> era_start y \<le> doe \<and> doe < era_start y + year_length y)"
    using assms(1)
  proof (induction doe rule: int_ge_induct)
    case base
    show ?case by (rule impI, rule exI [of _ 0]) (simp add: era_start_def year_length_def)
  next
    case (step i)
    show ?case
    proof
      assume i: "i + 1 < 146097"
      then obtain y where y: "0 \<le> y" "y < 400" "era_start y \<le> i" "i < era_start y + year_length y" using step.IH by auto
      show "\<exists>y. 0 \<le> y \<and> y < 400 \<and> era_start y \<le> i + 1 \<and> i + 1 < era_start y + year_length y"
      proof (cases "i + 1 < era_start y + year_length y")
        case False
        have "y \<noteq> 399"
        proof
          assume "y = 399"
          then have "era_start y + year_length y = 146097" by (simp add: era_start_def year_length_def leap_year_def)
          then show False using False i by simp
        qed
        then have "era_start (y + 1) = i + 1" using era_start_step [of y] y False by simp
        moreover have "0 < year_length (y + 1)" by (simp add: year_length_def)
        ultimately show ?thesis using y \<open>y \<noteq> 399\<close> by (intro exI [of _ "y + 1"]) simp
      qed (use y in auto)
    qed
  qed
  then show thesis using that assms(2) by blast
qed

lemma year_of_era_eq:
  assumes "0 \<le> doe" and "doe < 146097"
  shows "0 \<le> year_of_era doe" and "year_of_era doe < 400"
    and "era_start (year_of_era doe) \<le> doe" and "doe < era_start (year_of_era doe) + year_length (year_of_era doe)"
proof -
  obtain y where y: "0 \<le> y" "y < 400" "era_start y \<le> doe" "doe < era_start y + year_length y"
    using year_of_era_exists [OF assms] .
  have t: "yoe_numerator (era_start y) div 365 = y" "yoe_numerator (era_start y + 364 + of_bool (leap_year (y + 1))) div 365 = y"
    using yoe_table y(1,2) by (simp_all del: of_bool_eq_1_iff)
  have e: "0 \<le> era_start y" using y(1) unfolding era_start_def by linarith
  have "era_start y + year_length y \<le> 146097"
  proof (cases "y = 399")
    case False
    then have "y < 399" using y(2) by simp
    then have "era_start (y + 1) \<le> 146097"
      using zdiv_mono1 [of "y + 1" 399 4] pos_imp_zdiv_nonneg_iff [of 100 "y + 1"] y(1) by (simp add: era_start_def)
    then show ?thesis using era_start_step [of y] y False by simp
  qed (simp add: era_start_def year_length_def leap_year_def)
  then have "era_start y + 364 + of_bool (leap_year (y + 1)) < 146097" by (simp add: year_length_def)
  then have "yoe_numerator (era_start y) \<le> yoe_numerator doe" "yoe_numerator doe \<le> yoe_numerator (era_start y + 364 + of_bool (leap_year (y + 1)))"
    using y e assms by (auto intro!: yoe_numerator_mono simp: year_length_def)
  then have "yoe_numerator doe div 365 = y" using t zdiv_mono1 [of _ _ 365] by (metis order_antisym zero_less_numeral)
  then have "year_of_era doe = y"
    using yoe_numerator_bounds [OF assms] by (simp add: year_of_era_def flip: yoe_numerator_def)
  then show "0 \<le> year_of_era doe" "year_of_era doe < 400" "era_start (year_of_era doe) \<le> doe"
    "doe < era_start (year_of_era doe) + year_length (year_of_era doe)" using y by simp_all
qed

section \<open>The fields of a day\<close>

text \<open>
  For a day number, the quotient and the remainder by the length of an era, and the expressions of
  the source on them.
\<close>

abbreviation era_of :: "int \<Rightarrow> int" where "era_of day \<equiv> (day - kEpochAdjustedDays) div kDaysPer400Years"

abbreviation yoe_of :: "int \<Rightarrow> int" where "yoe_of day \<equiv> year_of_era (day_of_era day)"

abbreviation doy_of :: "int \<Rightarrow> int" where "doy_of day \<equiv> day_of_year (day_of_era day) (yoe_of day)"

lemma day_of_era_eq: "day_of_era day = (day - kEpochAdjustedDays) mod kDaysPer400Years"
proof -
  have "0 \<le> (day - 11017) mod 146097" "(day - 11017) mod 146097 < 146097" by simp_all
  then show ?thesis by (simp add: day_of_era_def unsigned_mod_eq)
qed

lemma day_of_era_bounds: "0 \<le> day_of_era day" "day_of_era day < 146097"
  by (simp_all add: day_of_era_eq)

lemmas yoe_of_bounds = year_of_era_eq [OF day_of_era_bounds]

lemma year_length_le: "year_length y \<le> 366" "365 \<le> year_length y"
  by (simp_all add: year_length_def)

lemma doy_of_eq: "doy_of day = day_of_era day - era_start (yoe_of day)"
  using yoe_of_bounds [of day] year_length_le(1) [of "yoe_of day"] by (simp add: day_of_year_def flip: era_start_def)

lemma era_split: "day = kEpochAdjustedDays + kDaysPer400Years * era_of day + day_of_era day"
  using mult_div_mod_eq [of 146097 "day - 11017"] by (simp add: day_of_era_eq)

lemma march_year_of_day: "in_march_year day (2000 + 400 * era_of day + yoe_of day) (doy_of day)"
proof -
  have "year_length (2000 + 400 * era_of day + yoe_of day) = year_length (yoe_of day)"
    using leap_year_era [of "era_of day" "yoe_of day + 1"] by (simp add: year_length_def add.assoc)
  then show ?thesis
    using yoe_of_bounds [of day] march1_era [of "yoe_of day" "era_of day"] era_split [of day] doy_of_eq [of day]
    unfolding in_march_year_def by linarith
qed

lemma fields_of_march_year:
  assumes "in_march_year day (2000 + 400 * e + y) doy" and "0 \<le> y" and "y < 400"
  shows "era_of day = e" and "yoe_of day = y" and "doy_of day = doy"
proof -
  note eq = in_march_year_inj [OF march_year_of_day assms(1)]
  show "doy_of day = doy" using eq(2) .
  have u: "(400 * a + b) div 400 = a" if "0 \<le> b" "b < 400" for a b :: int
    using that by (intro int_div_pos_eq [of _ _ _ b]) simp_all
  have s: "400 * era_of day + yoe_of day = 400 * e + y" using eq(1) by simp
  show "era_of day = e" using u [OF assms(2,3), of e] u [OF yoe_of_bounds(1,2), of "era_of day" day] s by simp
  then show "yoe_of day = y" using s by simp
qed

lemma doy_of_bounds: "0 \<le> doy_of day" "doy_of day < 366"
  using march_year_of_day [of day] year_length_le(1) [of "2000 + 400 * era_of day + yoe_of day"]
  unfolding in_march_year_def by linarith+

lemma month_of_year_eq:
  assumes "0 \<le> doy" and "doy < 366"
  shows "month_of_year doy = (5 * doy + 2) div 153"
  using assms by (simp add: month_of_year_def)

lemma day_of_month_eq:
  assumes "0 \<le> doy" and "doy < 366"
  shows "day_of_month doy (month_of_year doy) = doy - march_month_start (month_of_year doy)"
proof -
  note m = march_month_of_day [OF assms, folded month_of_year_eq [OF assms]]
  have "0 \<le> march_month_start (month_of_year doy)" using m(1) by (simp add: march_month_start_def)
  then show ?thesis using m assms by (simp add: day_of_month_def march_month_start_def)
qed

lemma leap_of_era_eq: "0 \<le> y \<Longrightarrow> y < 400 \<Longrightarrow> leap_of_era y \<longleftrightarrow> leap_year y"
  by (auto simp: leap_of_era_def leap_year_def)

end
