(* ===== verification/Date_Fast.thy ===== *)
theory Date_Fast
  imports Date_Props
begin

text \<open>
  The fast paths, which count 32-bit seconds from 1900 in cycles of four years, find the same year
  and month as the calendar: between 1901 and 2099 every fourth year is a leap year.
\<close>

section \<open>The fields of a date\<close>

lemma date_fields:
  assumes "valid_date y m d"
  defines "day \<equiv> day_number y m d"
  shows "2000 + 400 * era_of day + yoe_of day = y - of_bool (m < 3)"
    and "doy_of day = march_month_start (march_index m) + (d - 1)"
    and "month_of_year (doy_of day) = march_index m"
    and "day_of_month (doy_of day) (march_index m) = d - 1"
proof -
  note dm = date_in_march_year [OF assms(1), folded day_def]
  note eq = in_march_year_inj [OF march_year_of_day dm(1)]
  show "2000 + 400 * era_of day + yoe_of day = y - of_bool (m < 3)" using eq(1) .
  show doy: "doy_of day = march_month_start (march_index m) + (d - 1)" using eq(2) .
  show moy: "month_of_year (doy_of day) = march_index m"
    using dm(4) doy month_of_year_eq [OF doy_of_bounds, of day] by simp
  show "day_of_month (doy_of day) (march_index m) = d - 1"
    using day_of_month_eq [OF doy_of_bounds, of day] doy moy by simp
qed

section \<open>Seconds and days\<close>

lemma secs_div: "0 \<le> s \<Longrightarrow> s < k \<Longrightarrow> 0 < n \<Longrightarrow> (k * D + s) div (k * n) = D div (n :: int)"
  by (simp add: zdiv_zmult2_eq)

lemma secs_mod: "0 \<le> s \<Longrightarrow> s < k \<Longrightarrow> 0 < n \<Longrightarrow> (k * D + s) mod (k * n) = k * (D mod n) + (s :: int)"
  by (simp add: zmod_zmult2_eq)

lemma secs_less: "0 \<le> s \<Longrightarrow> s < k \<Longrightarrow> k * D + s < k * n \<longleftrightarrow> D < (n :: int)"
proof
  assume s: "0 \<le> s" "s < k" and "k * D + s < k * n"
  then have "k * D < k * n" by linarith
  then show "D < n" using s by simp
next
  assume s: "0 \<le> s" "s < k" and "D < n"
  then have "k * (D + 1) \<le> k * n" by (intro mult_left_mono) simp_all
  then show "k * D + s < k * n" using s by (simp add: distrib_left)
qed

section \<open>Cycles of four years\<close>

lemma leap_table: "\<forall>n \<in> set [1..199]. leap_year (1900 + n) \<longleftrightarrow> n mod 4 = 0"
  by code_simp

lemma leap_year_1900: "0 < n \<Longrightarrow> n < 200 \<Longrightarrow> leap_year (1900 + n) \<longleftrightarrow> n mod 4 = 0"
  using leap_table by simp

lemma march1_1900:
  assumes "0 \<le> n" and "n < 200"
  shows "march1 (1900 + n) = 365 * n + n div 4 - 25508"
proof -
  have "n < 200 \<longrightarrow> march1 (1900 + n) = 365 * n + n div 4 - 25508" using assms(1)
  proof (induction n rule: int_ge_induct)
    case base
    show ?case by (simp add: march1_def day_number_def days_before_month_eval days_before_year_def leap_years_to_def leap_year_def)
  next
    case (step i)
    have "year_length (1900 + i) = 365 + of_bool ((i + 1) mod 4 = 0)" if "i + 1 < 200"
      using leap_year_1900 [of "i + 1"] step.hyps that by (simp add: year_length_def add.assoc)
    then show ?case using step march1_step [of "1900 + i"] div_pred [of 4 "i + 1"] by (simp add: add.assoc)
  qed
  then show ?thesis using assms(2) by simp
qed

lemma cycle_in_march_year:
  assumes "0 \<le> D" and "D < 50000"
  defines "r \<equiv> D mod 1461"
  defines "k \<equiv> min 3 (r div 365)"
  shows "in_march_year (D - 25508) (1900 + 4 * (D div 1461) + k) (r - 365 * k)"
    and "0 \<le> k" and "k \<le> 3" and "0 \<le> r - 365 * k" and "r - 365 * k < 366"
proof -
  have r: "0 \<le> r" "r < 1461" by (simp_all add: r_def)
  then show k: "0 \<le> k" "k \<le> 3" by (simp_all add: k_def)
  show b: "0 \<le> r - 365 * k" "r - 365 * k < 366" using r unfolding k_def min_def by (simp_all split: if_splits) linarith+
  define n where "n = 4 * (D div 1461) + k"
  have n: "0 \<le> n" "n + 1 < 200" "n div 4 = D div 1461"
    using assms(1,2) k unfolding n_def by (simp_all add: pos_imp_zdiv_nonneg_iff)
  have "D = 1461 * (D div 1461) + r" by (simp add: r_def)
  then have "D - 25508 = march1 (1900 + n) + (r - 365 * k)" using march1_1900 [of n] n by (simp add: n_def)
  moreover have "r - 365 * k < year_length (1900 + n)"
  proof (cases "k = 3")
    case True
    then have "(n + 1) mod 4 = 0" by (simp add: n_def)
    then have "leap_year (1900 + n + 1)" using leap_year_1900 [of "n + 1"] n by (simp add: add.assoc)
    then show ?thesis using b(2) by (simp add: year_length_def)
  next
    case False
    then have "r - 365 * k < 365" using r unfolding k_def min_def by (simp split: if_splits)
    then show ?thesis by (simp add: year_length_def)
  qed
  ultimately show "in_march_year (D - 25508) (1900 + 4 * (D div 1461) + k) (r - 365 * k)"
    using b(1) by (simp add: in_march_year_def n_def add.assoc)
qed

lemma cycle_year_secs_eq:
  assumes "0 \<le> r" and "r < 1461" and "0 \<le> s" and "s < 86400"
  shows "cycle_year_secs (86400 * r + s) = 86400 * (365 * min 3 (r div 365))"
proof -
  have d: "(86400 * r + s) div 31536000 = r div 365" using secs_div [of s 86400 365 r] assms by simp
  have l: "126230400 - 86400 \<le> 86400 * r + s \<longleftrightarrow> 1460 \<le> r" using assms by linarith
  have q: "0 \<le> r div 365" "r div 365 \<le> 4" "1460 \<le> r \<Longrightarrow> r div 365 = 4" "r < 1460 \<Longrightarrow> r div 365 \<le> 3" using assms by linarith+
  show ?thesis
  proof (cases "1460 \<le> r")
    case True
    then show ?thesis using d l q by (simp add: cycle_year_secs_def Let_def)
  next
    case False
    then have "r div 365 \<le> 3" using q by simp
    then show ?thesis using d l q False by (simp add: cycle_year_secs_def Let_def min_def)
  qed
qed

definition month_guess :: "int \<Rightarrow> int" where
  "month_guess doy = (let g = min (doy div 30) 11 in if doy < march_month_start g then g - 1 else g)"

lemma month_guess_table: "\<forall>doy \<in> set [0..365]. month_guess doy = (5 * doy + 2) div 153"
  by code_simp

lemma month_starts_table: "\<forall>i \<in> set [0..11]. cumulative_month_epoch_starts ! nat i = 86400 * march_month_start i"
  by code_simp

lemma march_month_eq:
  assumes "0 \<le> doy" and "doy < 366" and "0 \<le> s" and "s < 86400"
  shows "march_month (86400 * doy + s) = month_of_year doy"
proof -
  define g where "g = min (doy div 30) 11"
  have d: "(86400 * doy + s) div 2592000 = doy div 30" using secs_div [of s 86400 30 doy] assms by simp
  have g: "0 \<le> g" "g \<le> 11" using assms by (simp_all add: g_def)
  have "cumulative_month_epoch_starts ! nat g = 86400 * march_month_start g" using month_starts_table g by simp
  then have "march_month (86400 * doy + s) = (if doy < march_month_start g then to_u32 (g - 1) else g)"
    using secs_less [OF assms(3,4)] by (simp add: march_month_def adjust_index_def d Let_def g_def min_def)
  moreover have "doy < march_month_start g \<Longrightarrow> g \<noteq> 0" using assms(1) by (auto simp: march_month_start_def)
  ultimately have "march_month (86400 * doy + s) = month_guess doy"
    using g by (auto simp: month_guess_def g_def [symmetric] Let_def)
  then show ?thesis using month_guess_table assms month_of_year_eq by simp
qed

section \<open>Months\<close>

text \<open>A time of the fast path is a day between 1970 and 2036 and a second of that day.\<close>

lemma fast_path_day:
  assumes "fast_path (86400 * day + s)" and "0 \<le> s" and "s < 86400"
  shows "0 \<le> day" and "day < 24145"
  using assms unfolding fast_path_def by simp_all

lemma fast_cycle:
  assumes "fast_path (86400 * day + s)" and "0 \<le> s" and "s < 86400"
  defines "S \<equiv> to_u32 (86400 * day + s + kEpochOffsetYear1900 - kSecsJanToMar1900)"
  defines "D \<equiv> day + 25508"
  shows "S mod kSecondsPer4YearCycle = 86400 * (D mod 1461) + s"
    and "S div kSecondsPer4YearCycle = D div 1461"
    and "0 \<le> D" and "D < 50000"
proof -
  note day = fast_path_day [OF assms(1-3)]
  show "0 \<le> D" "D < 50000" using day by (simp_all add: D_def)
  have "S = 86400 * D + s" using day assms(2,3) by (simp add: S_def D_def algebra_simps)
  then show "S mod kSecondsPer4YearCycle = 86400 * (D mod 1461) + s" "S div kSecondsPer4YearCycle = D div 1461"
    using secs_mod [of s 86400 1461 D] secs_div [of s 86400 1461 D] assms(2,3) by simp_all
qed

text \<open>
  The seconds that the fast path finds since the first of March, and those of that day.
\<close>

lemma fast_march:
  assumes "fast_path (86400 * day + s)" and "0 \<le> s" and "s < 86400"
  defines "p \<equiv> to_u32 (86400 * day + s + kEpochOffsetYear1900 - kSecsJanToMar1900) mod kSecondsPer4YearCycle"
  shows "to_u32 (p - cycle_year_secs p) = 86400 * doy_of day + s"
    and "(day + 25508) div 1461 * kSecondsPer4YearCycle + cycle_year_secs p = 86400 * (day - doy_of day + 25508)"
    and "0 \<le> cycle_year_secs p" and "cycle_year_secs p < 94608001"
proof -
  define D where "D = day + 25508"
  note fc = fast_cycle [OF assms(1-3), folded D_def]
  define r where "r = D mod 1461"
  define k where "k = min 3 (r div 365)"
  note cy = cycle_in_march_year [OF fc(3,4), folded r_def, folded k_def]
  have r: "0 \<le> r" "r < 1461" by (simp_all add: r_def)
  have p: "p = 86400 * r + s" using fc(1) by (simp add: p_def r_def)
  have c: "cycle_year_secs p = 86400 * (365 * k)" using cycle_year_secs_eq [OF r assms(2,3)] by (simp add: p k_def)
  have doy: "doy_of day = r - 365 * k" using in_march_year_inj(2) [OF march_year_of_day, of day] cy(1) by (simp add: D_def)
  have e: "p - cycle_year_secs p = 86400 * doy_of day + s" unfolding c by (simp add: p doy algebra_simps)
  show "to_u32 (p - cycle_year_secs p) = 86400 * doy_of day + s"
    using doy_of_bounds [of day] assms(2,3) by (simp add: e)
  have "D = 1461 * (D div 1461) + r" by (simp add: r_def)
  then show "(day + 25508) div 1461 * kSecondsPer4YearCycle + cycle_year_secs p = 86400 * (day - doy_of day + 25508)"
    by (simp add: c doy D_def [symmetric] algebra_simps) (simp add: D_def)
  show "0 \<le> cycle_year_secs p" "cycle_year_secs p < 94608001" using cy(2,3) by (simp_all add: c)
qed

lemma to_i32_same [simp]: "- (2 ^ 31) \<le> v \<Longrightarrow> v < 2 ^ 31 \<Longrightarrow> to_i32 v = v"
  by (simp add: to_i32_def signed_take_bit_int_eq_self)

lemma extract_month_fast_eq:
  assumes "fast_path (86400 * day + s)" and "0 \<le> s" and "s < 86400"
  shows "extract_month_fast (86400 * day + s) = (month_of_year (doy_of day) + 2) mod 12 + 1"
proof -
  have m: "0 \<le> month_of_year (doy_of day)" "month_of_year (doy_of day) < 12"
    using march_month_of_day [OF doy_of_bounds, of day] month_of_year_eq [OF doy_of_bounds, of day] by simp_all
  have "0 \<le> (month_of_year (doy_of day) + 2) mod 12" "(month_of_year (doy_of day) + 2) mod 12 < 12" by simp_all
  then show ?thesis
    using fast_march(1) [OF assms] march_month_eq [OF doy_of_bounds assms(2,3), of day] m
    by (simp add: extract_month_fast_def Let_def)
qed

lemma datetrunc_month_fast_eq:
  assumes "fast_path (86400 * day + s)" and "0 \<le> s" and "s < 86400"
  shows "datetrunc_month_impl (86400 * day + s) = Some (86400 * (day - day_of_month (doy_of day) (month_of_year (doy_of day))))"
proof -
  define p where "p = to_u32 (86400 * day + s + kEpochOffsetYear1900 - kSecsJanToMar1900) mod kSecondsPer4YearCycle"
  note fm = fast_march [OF assms, folded p_def]
  note fc = fast_cycle [OF assms]
  define moy where "moy = month_of_year (doy_of day)"
  have m: "0 \<le> moy" "moy < 12"
    using march_month_of_day [OF doy_of_bounds, of day] month_of_year_eq [OF doy_of_bounds, of day] by (simp_all add: moy_def)
  have mm: "march_month (to_u32 (p - cycle_year_secs p)) = moy"
    using fm(1) march_month_eq [OF doy_of_bounds assms(2,3), of day] by (simp add: moy_def)
  have st: "cumulative_month_epoch_starts ! nat moy = 86400 * march_month_start moy" using month_starts_table m by simp
  have f: "to_u32 ((day + 25508) div 1461 * kSecondsPer4YearCycle) = (day + 25508) div 1461 * kSecondsPer4YearCycle"
  proof (intro to_u32_id)
    have "0 \<le> (day + 25508) div 1461" "(day + 25508) div 1461 \<le> 34" using fc(3,4) by (simp_all add: pos_imp_zdiv_nonneg_iff)
    then show "0 \<le> (day + 25508) div 1461 * kSecondsPer4YearCycle" "(day + 25508) div 1461 * kSecondsPer4YearCycle < 2 ^ 32"
      by simp_all
  qed
  show ?thesis
    unfolding datetrunc_month_impl_def Let_def fc(2) p_def [symmetric] mm f
    using assms(1) fm(2) day_of_month_eq [OF doy_of_bounds, of day] by (simp add: st moy_def [symmetric] algebra_simps)
qed

section \<open>Years and quarters\<close>

lemma days_before_year_1900:
  assumes "1 \<le> n" and "n < 200"
  shows "days_before_year (1900 + n) = 365 * n + (n - 1) div 4 - 25567"
  using march1_1900 [of n] leap_year_1900 [of n] div_pred [of 4 n] assms
  by (simp add: march1_def day_number_def days_before_month_eval)

lemma year_by_days:
  assumes "valid_date y m d" and "days_before_year z \<le> day_number y m d" and "day_number y m d < days_before_year (z + 1)"
  shows "y = z"
  using day_number_in_year [OF assms(1)] assms(2,3) days_before_year_mono [of y z] days_before_year_mono [of z y] by linarith

lemma fast_year_days:
  assumes "0 \<le> day" and "day < 24145"
  defines "c \<equiv> (day + 25508) div 1461"
  defines "n \<equiv> (day + 25567 - c) div 365"
  shows "70 \<le> n" and "n < 137" and "days_before_year (1900 + n) \<le> day" and "day < days_before_year (1900 + n + 1)"
proof -
  define r where "r = (day + 25508) mod 1461"
  define q where "q = (r + 59) div 365"
  have r: "0 \<le> r" "r < 1461" by (simp_all add: r_def)
  have D: "day + 25508 = 1461 * c + r" by (simp add: c_def r_def)
  have q: "0 \<le> q" "q \<le> 4" "365 * q \<le> r + 59" "r + 59 < 365 * q + 365" using r unfolding q_def by linarith+
  have "day + 25567 - c = r + 59 + 365 * (4 * c)" using D by simp
  then have n: "n = 4 * c + q" unfolding n_def q_def by (simp only: div_mult_self2)
  have c: "17 \<le> c" "c \<le> 33" using assms(1,2) unfolding c_def by linarith+
  then show n70: "70 \<le> n" and n137: "n < 137" using q n D r assms(1,2) by linarith+
  have p: "(n - 1) div 4 \<le> c" "c \<le> n div 4" using q n by linarith+
  have "365 * n + (n - 1) div 4 \<le> day + 25567" using p(1) q D n by linarith
  then show "days_before_year (1900 + n) \<le> day" using days_before_year_1900 [of n] n70 n137 by simp
  have "day + 25567 < 365 * (n + 1) + k" if "c \<le> k" for k using that q D n by simp
  then have "day + 25567 < 365 * (n + 1) + n div 4" using p(2) .
  then show "day < days_before_year (1900 + n + 1)" using days_before_year_1900 [of "n + 1"] n70 n137 by (simp add: add.assoc)
qed

lemma fast_year:
  assumes "valid_date y m d"
  defines "day \<equiv> day_number y m d"
  assumes fp: "fast_path (86400 * day + s)" and s: "0 \<le> s" "s < 86400"
  defines "S \<equiv> to_u32 (86400 * day + s + kEpochOffsetYear1900)"
  shows "S = 86400 * (day + 25567) + s" and "year_since_1900 S = y - 1900"
    and "to_u32 ((S - to_u32 (S - kSecsJanToMar1900) div kSecondsPer4YearCycle * kSecsPerDay) sdiv kSecondsPerNonLeapYear) = y - 1900"
    and "70 \<le> y - 1900" and "y - 1900 < 137"
proof -
  note day = fast_path_day [OF fp s]
  define c where "c = (day + 25508) div 1461"
  note fy = fast_year_days [OF day, folded c_def]
  show S: "S = 86400 * (day + 25567) + s" using fp by (simp add: S_def fast_path_def algebra_simps)
  have Sb: "S < 2 ^ 32" by (simp add: S_def to_u32_def)
  have y: "y = 1900 + (day + 25567 - c) div 365" using year_by_days [OF assms(1)] fy(3,4) by (simp add: day_def)
  show n: "70 \<le> y - 1900" "y - 1900 < 137" using fy(1,2) y by simp_all
  have cb: "0 \<le> c" "c \<le> 34" using day by (simp_all add: c_def pos_imp_zdiv_nonneg_iff)
  have "to_u32 (S - kSecsJanToMar1900) = 86400 * (day + 25508) + s" using S day s by simp
  then have l: "to_u32 (S - kSecsJanToMar1900) div kSecondsPer4YearCycle = c"
    using secs_div [of s 86400 1461 "day + 25508"] s by (simp add: c_def)
  have e: "S - c * 86400 = 86400 * (day + 25567 - c) + s" using S by (simp add: algebra_simps)
  have q: "(S - c * 86400) div 31536000 = y - 1900" using secs_div [of s 86400 365 "day + 25567 - c"] s e y by simp
  have nn: "0 \<le> S - c * 86400" "S - c * 86400 < 2 ^ 32" using S Sb cb day s by simp_all
  show "year_since_1900 S = y - 1900" using l q nn cb by (simp add: year_since_1900_def Let_def)
  show "to_u32 ((S - to_u32 (S - kSecsJanToMar1900) div kSecondsPer4YearCycle * kSecsPerDay) sdiv kSecondsPerNonLeapYear) = y - 1900"
    unfolding l using q n sdiv_nonneg [OF nn(1), of 31536000] by simp
qed

lemma year_start_1900_eq:
  assumes "70 \<le> n" and "n < 137"
  shows "year_start_1900 n = 86400 * (days_before_year (1900 + n) + 25567)"
    and "n * kSecondsPerNonLeapYear + to_u32 (to_u32 (n - 1) div 4 * 86400) = 86400 * (days_before_year (1900 + n) + 25567)"
proof -
  have q: "0 \<le> (n - 1) div 4" "(n - 1) div 4 < 34" using assms by linarith+
  then have "0 \<le> n * 31536000 + (n - 1) div 4 * 86400" "n * 31536000 + (n - 1) div 4 * 86400 < 2 ^ 32" using assms by simp_all
  then show "year_start_1900 n = 86400 * (days_before_year (1900 + n) + 25567)"
    "n * kSecondsPerNonLeapYear + to_u32 (to_u32 (n - 1) div 4 * 86400) = 86400 * (days_before_year (1900 + n) + 25567)"
    using q assms days_before_year_1900 [of n] by (simp_all add: year_start_1900_def Let_def)
qed

text \<open>The quarter (counted from 0) by the number of days since the first of January.\<close>

definition quarter_start :: "int \<Rightarrow> int \<Rightarrow> int" where
  "quarter_start l q = [0, 90 + l, 181 + l, 273 + l] ! nat q"

definition quarter_of :: "int \<Rightarrow> int \<Rightarrow> int" where
  "quarter_of l pd = of_bool (90 + l \<le> pd) + of_bool (181 + l \<le> pd) + of_bool (273 + l \<le> pd)"

definition quarter_guess :: "int \<Rightarrow> int \<Rightarrow> int" where
  "quarter_guess l pd = (let g = min (pd div 90) 3 in if pd < quarter_start l g then g - 1 else g)"

lemma quarter_guess_table:
  "\<forall>pd \<in> set [0..365]. quarter_guess 0 pd = quarter_of 0 pd \<and> quarter_guess 1 pd = quarter_of 1 pd"
  by code_simp

lemma quarter_offsets_eq:
  assumes "0 \<le> q" and "q < 4" and "1 \<le> n" and "n < 200"
  shows "quarter_offsets n ! nat q = 86400 * quarter_start (of_bool (leap_year (1900 + n))) q"
proof -
  consider "q = 0" | "q = 1" | "q = 2" | "q = 3" using assms(1,2) by linarith
  then show ?thesis
    using assms(3,4) leap_year_1900 [of n]
    by cases (simp_all add: quarter_offsets_def quarter_start_def cumulative_quarter_epoch_starts_def
        cumulative_quarter_epoch_starts_leap_year_def)
qed

lemma quarter_index_eq:
  assumes "0 \<le> pd" and "pd < 366" and s: "0 \<le> s" "s < 86400" and n: "1 \<le> n" "n < 200"
  shows "quarter_index (quarter_offsets n) (86400 * pd + s) = quarter_of (of_bool (leap_year (1900 + n))) pd"
proof -
  define l where "l = (of_bool (leap_year (1900 + n)) :: int)"
  define g where "g = min (pd div 90) 3"
  have d: "(86400 * pd + s) div 7776000 = pd div 90" using secs_div [of s 86400 90 pd] s by simp
  have g: "0 \<le> g" "g \<le> 3" using assms by (simp_all add: g_def)
  have "quarter_offsets n ! nat g = 86400 * quarter_start l g" using quarter_offsets_eq [of g n] g n by (simp add: l_def)
  then have "quarter_index (quarter_offsets n) (86400 * pd + s) = (if pd < quarter_start l g then to_u32 (g - 1) else g)"
    using secs_less [OF s] by (simp add: quarter_index_def adjust_index_def d Let_def g_def min_def)
  moreover have "pd < quarter_start l g \<Longrightarrow> g \<noteq> 0" using assms(1) by (auto simp: quarter_start_def)
  ultimately have "quarter_index (quarter_offsets n) (86400 * pd + s) = quarter_guess l pd"
    using g by (auto simp: quarter_guess_def g_def [symmetric] Let_def)
  also have "\<dots> = quarter_of l pd" using quarter_guess_table assms(1,2) by (simp add: l_def)
  finally show ?thesis by (simp add: l_def)
qed

lemma quarter_of_date:
  assumes "valid_date y m d"
  shows "quarter_of (of_bool (leap_year y)) (day_number y m d - days_before_year y) = (m - 1) div 3"
proof -
  have v: "1 \<le> m" "m \<le> 12" "1 \<le> d" "d \<le> days_in_month y m" using assms by (simp_all add: valid_date_def)
  then show ?thesis
    by (cases m rule: month_cases)
      (auto simp: day_number_def days_before_month_eval quarter_of_def days_in_month_def of_bool_def split: if_splits)
qed

lemma quarter_start_date:
  assumes "1 \<le> m" and "m \<le> 12"
  shows "days_before_month y (3 * ((m - 1) div 3) + 1) = quarter_start (of_bool (leap_year y)) ((m - 1) div 3)"
  using assms by (cases m rule: month_cases) (simp_all add: days_before_month_eval quarter_start_def)

end
