(* ===== verification/Date_Extract_Props.thy ===== *)
theory Date_Extract_Props
  imports Date_Fast
begin

text \<open>
  Extraction of the fields of a date, on both paths.  A time is written as the number of a day and a
  second of that day; it is in range when the division of the source does not overflow.
\<close>

definition time_in_range :: "int \<Rightarrow> bool" where
  "time_in_range t \<longleftrightarrow> - (2 ^ 63) + (kSecsPerDay - 1) \<le> t \<and> t < 2 ^ 63"

lemma day_of_time: "0 \<le> s \<Longrightarrow> s < 86400 \<Longrightarrow> (86400 * day + s) div 86400 = (day :: int)"
  by (intro int_div_pos_eq [of _ _ _ s]) simp_all

lemma floor_div_day [simp]:
  assumes "time_in_range (86400 * day + s)" and "0 \<le> s" and "s < 86400"
  shows "floor_div (86400 * day + s) kSecsPerDay = Some day"
  using assms floor_div_eq [of 86400 "86400 * day + s"] day_of_time [of s day] by (simp add: time_in_range_def)

lemma day_range:
  assumes "time_in_range (86400 * day + s)" and "0 \<le> s" and "s < 86400"
  shows "- 106751991167301 < day" and "day < 106751991167301"
  using assms unfolding time_in_range_def by simp_all

lemma floor_div_era [simp]:
  assumes "- 106751991167301 < day" and "day < 106751991167301"
  shows "floor_div (day - kEpochAdjustedDays) kDaysPer400Years = Some (era_of day)"
  using assms floor_div_eq [of 146097 "day - 11017"] by simp

lemma leap_of_date:
  assumes "valid_date y m d"
  shows "leap_of_era (yoe_of (day_number y m d)) \<longleftrightarrow> leap_year (y - of_bool (m < 3))"
  using date_fields(1) [OF assms] leap_of_era_eq [OF yoe_of_bounds(1,2), of "day_number y m d"]
    leap_year_era [of "era_of (day_number y m d)" "yoe_of (day_number y m d)"] by simp

lemma march_index_bounds: "1 \<le> m \<Longrightarrow> m \<le> 12 \<Longrightarrow> 0 \<le> march_index m \<and> march_index m < 12"
  by (simp add: march_index_def)

lemma march_index_month: "1 \<le> m \<Longrightarrow> m \<le> 12 \<Longrightarrow> (march_index m + 2) mod 12 + 1 = m"
  by (cases m rule: month_cases) (simp_all add: march_index_def)

text \<open>The time \<open>t\<close> is second \<open>s\<close> of the day with a date of the calendar.\<close>

definition civil_time :: "int \<Rightarrow> int \<Rightarrow> int \<Rightarrow> int \<Rightarrow> int \<Rightarrow> bool" where
  "civil_time y m d s t \<longleftrightarrow> valid_date y m d \<and> 0 \<le> s \<and> s < kSecsPerDay \<and> t = kSecsPerDay * day_number y m d + s"

lemma civil_timeD:
  assumes "civil_time y m d s t"
  shows "valid_date y m d" "0 \<le> s" "s < 86400" "t = 86400 * day_number y m d + s"
    "1 \<le> m" "m \<le> 12" "1 \<le> d" "d \<le> 31" "d \<le> days_in_month y m"
  using assms days_in_month_bounds(2) [of y m] by (simp_all add: civil_time_def valid_date_def)

lemma civil_floor_div_day:
  assumes "civil_time y m d s t" and "time_in_range t"
  shows "floor_div t kSecsPerDay = Some (day_number y m d)"
  using floor_div_day [of "day_number y m d" s] civil_timeD [OF assms(1)] assms(2) by simp

lemma civil_floor_div_era:
  assumes "civil_time y m d s t" and "time_in_range t"
  shows "floor_div (day_number y m d - kEpochAdjustedDays) kDaysPer400Years = Some (era_of (day_number y m d))"
  using floor_div_era day_range [of "day_number y m d" s] civil_timeD [OF assms(1)] assms(2) by simp

lemma extract_day_date:
  assumes "civil_time y m d s t" and "time_in_range t"
  shows "extract_day t = Some d"
  using civil_floor_div_day [OF assms] date_fields(3,4) [OF civil_timeD(1) [OF assms(1)]] civil_timeD(7,8) [OF assms(1)]
  by (simp add: extract_day_def Let_def)

lemma extract_day_of_year_date:
  assumes "civil_time y m d s t" and "time_in_range t"
  shows "extract_day_of_year t = Some (days_before_month y m + d)"
  using civil_timeD(5,6) [OF assms(1)] civil_floor_div_day [OF assms] date_fields(2) [OF civil_timeD(1) [OF assms(1)]]
    civil_timeD(7,8) [OF assms(1)] leap_of_date [OF civil_timeD(1) [OF assms(1)]]
  by (cases m rule: month_cases)
    (simp_all add: extract_day_of_year_def Let_def days_before_month_eval march_index_def march_month_start_def)

lemma extract_month_date:
  assumes "civil_time y m d s t" and "time_in_range t"
  shows "extract_month t = Some m"
proof (cases "fast_path t")
  case True
  then show ?thesis
    using extract_month_fast_eq [of "day_number y m d" s] civil_timeD [OF assms(1)] date_fields(3) [OF civil_timeD(1) [OF assms(1)]]
    by (simp add: extract_month_def march_index_month)
next
  case False
  then show ?thesis
    using civil_floor_div_day [OF assms] date_fields(3) [OF civil_timeD(1) [OF assms(1)]] civil_timeD(5,6) [OF assms(1)]
    by (simp add: extract_month_def Let_def march_index_def)
qed

lemma year_days_bound:
  assumes "valid_date y m d"
  shows "0 \<le> day_number y m d - days_before_year y" "day_number y m d - days_before_year y < 366"
  using day_number_in_year [OF assms] days_before_year_step [of y] by (simp_all add: of_bool_def split: if_splits)

lemma fast_partial_year:
  assumes "civil_time y m d s t" and "fast_path t"
  defines "S \<equiv> to_u32 (t + kEpochOffsetYear1900)"
  shows "S mod year_start_1900 (y - 1900) = 86400 * (day_number y m d - days_before_year y) + s"
proof -
  have t: "t = 86400 * day_number y m d + s" "0 \<le> s" "s < 86400" and v: "valid_date y m d" using civil_timeD [OF assms(1)] by simp_all
  note fy = fast_year [OF v assms(2) [unfolded t(1)] t(2,3), folded t(1), folded S_def]
  define b where "b = days_before_year y + 25567"
  have ys: "year_start_1900 (y - 1900) = 86400 * b" using year_start_1900_eq(1) [OF fy(4,5)] by (simp add: b_def)
  have S: "S = 86400 * b + (86400 * (day_number y m d - days_before_year y) + s)" using fy(1) by (simp add: b_def)
  have "25567 \<le> b" using days_before_year_mono [of 1969 y] fy(4) days_before_1970 by (simp add: b_def)
  then have "86400 * (day_number y m d - days_before_year y) + s < 86400 * b"
    using secs_less [OF t(2,3), of "day_number y m d - days_before_year y" b] year_days_bound [OF v] by simp
  then show ?thesis unfolding ys S using year_days_bound [OF v] t(2) by simp
qed

lemma fast_quarter_index:
  assumes "civil_time y m d s t" and "fast_path t"
  shows "quarter_index (quarter_offsets (y - 1900)) (to_u32 (t + kEpochOffsetYear1900) mod year_start_1900 (y - 1900)) = (m - 1) div 3"
proof -
  have t: "t = 86400 * day_number y m d + s" "0 \<le> s" "s < 86400" and v: "valid_date y m d" using civil_timeD [OF assms(1)] by simp_all
  note fy = fast_year(4,5) [OF v assms(2) [unfolded t(1)] t(2,3)]
  show ?thesis
    unfolding fast_partial_year [OF assms]
    using quarter_index_eq [OF year_days_bound [OF v] t(2,3), of "y - 1900"] quarter_of_date [OF v] fy by simp
qed

lemma extract_quarter_date:
  assumes "civil_time y m d s t" and "time_in_range t"
  shows "extract_quarter t = Some ((m - 1) div 3 + 1)"
proof (cases "fast_path t")
  case True
  have t: "t = 86400 * day_number y m d + s" "0 \<le> s" "s < 86400" and v: "valid_date y m d" using civil_timeD [OF assms(1)] by simp_all
  have q: "0 \<le> (m - 1) div 3" "(m - 1) div 3 < 4" using civil_timeD(5,6) [OF assms(1)] by linarith+
  have "extract_quarter_fast t = (m - 1) div 3 + 1"
    unfolding extract_quarter_fast_def Let_def fast_year(3) [OF v True [unfolded t(1)] t(2,3), folded t(1)] fast_quarter_index [OF assms(1) True]
    using q by simp
  then show ?thesis using True by (simp add: extract_quarter_def)
next
  case False
  show ?thesis
    using civil_timeD(5,6) [OF assms(1)] False civil_floor_div_day [OF assms] date_fields(3) [OF civil_timeD(1) [OF assms(1)]]
    by (cases m rule: month_cases) (simp_all add: extract_quarter_def Let_def march_index_def)
qed

lemma extract_year_date:
  assumes "civil_time y m d s t" and "time_in_range t"
  shows "extract_year t = Some y"
proof (cases "fast_path t")
  case True
  have t: "t = 86400 * day_number y m d + s" "0 \<le> s" "s < 86400" and v: "valid_date y m d" using civil_timeD [OF assms(1)] by simp_all
  note fy = fast_year [OF v True [unfolded t(1)] t(2,3), folded t(1)]
  show ?thesis using True fy(2,4,5) by (simp add: extract_year_def extract_year_fast_def)
next
  case False
  define day where "day = day_number y m d"
  have v: "valid_date y m d" and m: "1 \<le> m" "m \<le> 12" "1 \<le> d" using civil_timeD [OF assms(1)] by simp_all
  have doe: "to_u32 (day - kEpochAdjustedDays - era_of day * kDaysPer400Years) = day_of_era day"
    using era_split [of day] day_of_era_bounds [of day] by (simp add: algebra_simps)
  have "306 \<le> doy_of day \<longleftrightarrow> m < 3"
    using m(1,2) date_fields(2) [OF v] civil_timeD(9) [OF assms(1)] m(3)
    by (cases m rule: month_cases) (simp_all add: day_def march_index_def march_month_start_def days_in_month_def)
  then show ?thesis
    using False civil_floor_div_day [OF assms] civil_floor_div_era [OF assms] doe date_fields(1) [OF v]
    by (simp add: extract_year_def Let_def day_def [symmetric])
qed

end
