(* ===== verification/Date_Trunc_Props.thy ===== *)
theory Date_Trunc_Props
  imports Date_Extract_Props
begin

text \<open>
  Truncation to months and longer periods: every branch subtracts from the day the number of days
  since the first day of its period, and the result is the time at which that day begins.
\<close>

section \<open>Years and periods of years\<close>

lemma jan1_after_march: "days_before_year (y + 1) = march1 y + 306"
  by (simp add: march1_def day_number_def days_before_month_eval days_before_year_step)

lemma jan1_before_march: "days_before_year y = march1 y - 59 - of_bool (leap_year y)"
  by (simp add: march1_def day_number_def days_before_month_eval)

lemma day_number_jan1: "day_number y 1 1 = days_before_year y"
  by (simp add: day_number_def days_before_month_eval)

lemma year_ge:
  assumes "valid_date y m d" and "days_before_year z \<le> day_number y m d"
  shows "z \<le> y"
  using day_number_in_year [OF assms(1)] assms(2) days_before_year_mono [of y z] by linarith

lemma year_less:
  assumes "valid_date y m d" and "day_number y m d < days_before_year z"
  shows "y < z"
proof -
  have "z \<le> y \<Longrightarrow> days_before_year z \<le> days_before_year y" using days_before_year_mono [of "z - 1" y] by simp
  then show ?thesis using day_number_in_year [OF assms(1)] assms(2) by linarith
qed

lemma period_first_year:
  assumes "z \<le> y" and "y < z + k" and "(z - b) mod k = 0"
  shows "y - (y - b) mod k = (z :: int)"
proof -
  obtain q where "z - b = k * q" using assms(3) by (auto simp: mod_eq_0_iff_dvd)
  then have "y - b = y - z + k * q" by simp
  then have "(y - b) mod k = (y - z) mod k" by (simp only: mod_mult_self2)
  then show ?thesis using assms(1,2) by simp
qed

text \<open>The days since the first of January and since the first day of the quarter.\<close>

lemma date_since_january:
  assumes "valid_date y m d"
  defines "day \<equiv> day_number y m d"
  shows "(if doy_of day < MARJAN then to_u32 (JANMAR + of_bool (leap_of_era (yoe_of day)) + doy_of day) else to_u32 (doy_of day - MARJAN))
    = day - days_before_year y"
proof -
  have m: "1 \<le> m" "m \<le> 12" "1 \<le> d" "d \<le> 31" "d \<le> days_in_month y m"
    using assms(1) days_in_month_bounds(2) [of y m] by (simp_all add: valid_date_def)
  show ?thesis
    using m(1,2) m(3-5) date_fields(2) [OF assms(1)] leap_of_date [OF assms(1)]
    unfolding day_def
    by (cases m rule: month_cases)
      (simp_all add: march_index_def march_month_start_def days_in_month_def day_number_def days_before_month_eval)
qed

definition quarter_of_march :: "int \<Rightarrow> int" where
  "quarter_of_march doy = of_bool (122 \<le> doy) + of_bool (214 \<le> doy) + of_bool (306 \<le> doy)"

lemma quarter_of_march_table: "\<forall>doy \<in> set [31..365]. to_u32 (3 * (doy - 31) + 2) div 275 = quarter_of_march doy"
  by code_simp

lemma date_since_quarter:
  assumes "valid_date y m d"
  defines "day \<equiv> day_number y m d"
  defines "q \<equiv> to_u32 (3 * (doy_of day - 31) + 2) div 275"
  shows "(if doy_of day < 31 then to_u32 (JANMAR + of_bool (leap_of_era (yoe_of day)) + doy_of day)
          else to_u32 (doy_of day - (31 + q * 92 - of_bool (q \<noteq> 0))))
    = day - day_number y (3 * ((m - 1) div 3) + 1) 1"
proof -
  have m: "1 \<le> m" "m \<le> 12" "1 \<le> d" "d \<le> 31" "d \<le> days_in_month y m"
    using assms(1) days_in_month_bounds(2) [of y m] by (simp_all add: valid_date_def)
  have q: "q = quarter_of_march (doy_of day)" if "31 \<le> doy_of day"
    using quarter_of_march_table [unfolded set_upto atLeastAtMost_iff Ball_def] doy_of_bounds [of day] that by (simp add: q_def)
  have "(if doy_of day < 31 then to_u32 (JANMAR + of_bool (leap_of_era (yoe_of day)) + doy_of day)
          else to_u32 (doy_of day - (31 + quarter_of_march (doy_of day) * 92 - of_bool (quarter_of_march (doy_of day) \<noteq> 0))))
    = day - day_number y (3 * ((m - 1) div 3) + 1) 1"
    using m(1,2) m(3-5) date_fields(2) [OF assms(1)] leap_of_date [OF assms(1)]
    unfolding day_def
    by (cases m rule: month_cases)
      (simp_all add: march_index_def march_month_start_def days_in_month_def day_number_def days_before_month_eval quarter_of_march_def
        split: if_splits)
  then show ?thesis by (cases "31 \<le> doy_of day") (simp_all only: q linorder_not_le if_True if_False not_less)
qed

section \<open>Decades, centuries and millennia\<close>

lemma leap_years_of_decade: "leap_years_to (10 * k + 9) = leap_years_to (10 * k) + 2"
proof -
  have "(10 * k + 9) div 4 = 10 * k div 4 + 2" by presburger
  moreover have "(10 * k + 9) div 100 = 10 * k div 100" using zdiv_zmult2_eq [of 10 "10 * k + 9" 10] by simp
  moreover have "(10 * k + 9) div 400 = 10 * k div 400" using zdiv_zmult2_eq [of 40 "10 * k + 9" 10] by simp
  ultimately show ?thesis by (simp add: leap_years_to_def)
qed

lemma decade_after_march:
  assumes "z mod 10 = 0"
  shows "days_before_year (z + 10) = march1 z + 3593"
proof -
  obtain k where "z = 10 * k" using assms by (auto simp: mod_eq_0_iff_dvd)
  then have "leap_years_to (z + 10 - 1) = leap_years_to z + 2" using leap_years_of_decade [of k] by (simp add: add.commute)
  then show ?thesis
    unfolding days_before_year_def using leap_years_to_pred [of z] jan1_before_march [of z] by (simp add: days_before_year_def)
qed

lemma march_year_date:
  assumes "valid_date y m d"
  defines "Y \<equiv> 2000 + 400 * era_of (day_number y m d) + yoe_of (day_number y m d)"
  shows "Y \<le> y" and "y \<le> Y + 1"
  using date_fields(1) [OF assms(1)] by (simp_all add: Y_def)

lemma date_since_decade:
  assumes "valid_date y m d"
  defines "day \<equiv> day_number y m d"
  defines "z \<equiv> yoe_of day - yoe_of day mod 10"
  defines "x \<equiv> to_u32 (day_of_era day - (365 * to_u32 z + to_u32 z div 4 - to_u32 z div 100))"
  shows "(if x < MARJAN + 9 * 365 + 2 then to_u32 (x + JANMAR + of_bool (leap_of_era (to_u32 z)))
          else to_u32 (x - (MARJAN + 9 * 365 + 2)))
    = day - days_before_year (y - y mod 10)"
proof -
  define Z where "Z = 2000 + 400 * era_of day + z"
  have b: "0 \<le> yoe_of day" "yoe_of day < 400" using yoe_of_bounds by blast+
  have z: "0 \<le> z" "z < 400" "z \<le> yoe_of day" "yoe_of day < z + 10" "z mod 10 = 0"
    using b unfolding z_def by (simp_all add: minus_mod_eq_mult_div)
  have m1: "march1 Z = 11017 + 146097 * era_of day + era_start z" using march1_era [OF z(1,2)] by (simp add: Z_def)
  have Z10: "Z mod 10 = 0"
  proof -
    have "Z = z + 10 * (200 + 40 * era_of day)" by (simp add: Z_def)
    then show ?thesis using z(5) by (simp only: mod_mult_self2)
  qed
  note my = march_year_date [OF assms(1), folded day_def]
  have Zy: "Z \<le> y" "y \<le> Z + 10" using my z(3,4) by (simp_all add: Z_def)
  have "march1 Z \<le> march1 (2000 + 400 * era_of day + yoe_of day)"
    using march1_mono [of Z "2000 + 400 * era_of day + yoe_of day"] z(3) year_length_le(2) [of Z] by (cases "z = yoe_of day") (auto simp: Z_def)
  then have x0: "0 \<le> day - march1 Z" using march_year_of_day [of day] by (simp add: in_march_year_def)
  have e: "day - march1 Z = day_of_era day - era_start z" using era_split [of day] m1 by linarith
  have es: "0 \<le> era_start z" using z(1) unfolding era_start_def by linarith
  have "x = to_u32 (day_of_era day - era_start z)" using z by (simp add: x_def era_start_def)
  then have x: "x = day - march1 Z" using x0 e es day_of_era_bounds(2) [of day] by simp
  then have xb: "x < 146097" using e es day_of_era_bounds(2) [of day] by linarith
  note dec = decade_after_march [OF Z10]
  have lz: "leap_of_era (to_u32 z) \<longleftrightarrow> leap_year Z" using leap_of_era_eq [OF z(1,2)] leap_year_era [of "era_of day" z] z by (simp add: Z_def)
  show ?thesis
  proof (cases "x < 3593")
    case True
    then have "y < Z + 10" using dec x by (intro year_less [OF assms(1)]) (simp add: day_def)
    then have "y - y mod 10 = Z" using period_first_year [of Z y 10 0] Zy Z10 by simp
    then show ?thesis using True x x0 lz jan1_before_march [of Z] by simp
  next
    case False
    then have "Z + 10 \<le> y" using dec x by (intro year_ge [OF assms(1)]) (simp add: day_def)
    then have "y = Z + 10" using Zy by simp
    then have "y - y mod 10 = Z + 10" using Z10 by simp
    then show ?thesis using False x xb dec by simp
  qed
qed

lemma march1_centuries:
  assumes "0 \<le> j" and "j < 4"
  shows "march1 (2000 + 400 * e + 100 * j) = 11017 + 146097 * e + 36524 * j"
proof -
  have "era_start (100 * j) = 36524 * j" by (simp add: era_start_def)
  then show ?thesis using march1_era [of "100 * j" e] assms by simp
qed

lemma date_since_century:
  assumes "valid_date y m d"
  defines "day \<equiv> day_number y m d"
  shows "(if day_of_era day < MARJAN then to_u32 (day_of_era day + (36525 - MARJAN)) else to_u32 (day_of_era day - MARJAN) mod 36524)
    = day - days_before_year (y - (y - 1) mod 100)"
proof -
  define e where "e = era_of day"
  define doe where "doe = day_of_era day"
  have doe: "0 \<le> doe" "doe < 146097" "day = 11017 + 146097 * e + doe"
    using day_of_era_bounds [of day] era_split [of day] by (simp_all add: doe_def e_def)
  have start: "days_before_year (2001 + 400 * e + 100 * j) = 11323 + 146097 * e + 36524 * j" if "0 \<le> j" "j < 4" for e j
    using jan1_after_march [of "2000 + 400 * e + 100 * j"] march1_centuries [OF that] by (simp add: algebra_simps)
  have first: "y - (y - 1) mod 100 = z" if "days_before_year z \<le> day" "day < days_before_year (z + 100)" "(z - 1) mod 100 = 0" for z
    using period_first_year [of z y 100 1] year_ge [OF assms(1), of z] year_less [OF assms(1), of "z + 100"] that by (simp add: day_def)
  show ?thesis
  proof (cases "doe < 306")
    case True
    define z where "z = 2001 + 400 * (e - 1) + 100 * 3"
    have "(z - 1) mod 100 = 0" by (simp add: z_def mod_eq_0_iff_dvd)
    moreover have "days_before_year (z + 100) = 11323 + 146097 * e" using start [of 0 e] by (simp add: z_def)
    moreover have z: "days_before_year z = 11323 + 146097 * (e - 1) + 36524 * 3" using start [of 3 "e - 1"] by (simp add: z_def)
    ultimately have "y - (y - 1) mod 100 = z" using doe True by (intro first) simp_all
    then show ?thesis unfolding doe_def [symmetric] using True doe z by simp
  next
    case False
    define j where "j = (doe - 306) div 36524"
    define r where "r = (doe - 306) mod 36524"
    have r: "0 \<le> r" "r < 36524" "doe - 306 = 36524 * j + r" by (simp_all add: j_def r_def)
    have j: "0 \<le> j" "j < 4" using False doe unfolding j_def by linarith+
    define z where "z = 2001 + 400 * e + 100 * j"
    have "(z - 1) mod 100 = 0" by (simp add: z_def mod_eq_0_iff_dvd)
    moreover have z: "days_before_year z = 11323 + 146097 * e + 36524 * j" using start [OF j] by (simp add: z_def)
    moreover have "11323 + 146097 * e + 36524 * (j + 1) \<le> days_before_year (z + 100)"
    proof (cases "j = 3")
      case True
      then show ?thesis using start [of 0 "e + 1"] by (simp add: z_def)
    next
      case False
      then show ?thesis using start [of "j + 1" e] j by (simp add: z_def algebra_simps)
    qed
    ultimately have "y - (y - 1) mod 100 = z" using doe r by (intro first) simp_all
    then show ?thesis unfolding doe_def [symmetric] using False doe z r by (simp flip: r_def)
  qed
qed

lemma date_since_millennium:
  assumes "valid_date y m d"
  defines "day \<equiv> day_number y m d"
  defines "n \<equiv> to_u32 (unsigned_mod (day - kEpochAdjustedDays) (5 * kDaysPer400Years))"
  shows "(if n < MARJAN then to_u32 (n + 365242 + 1 - MARJAN)
          else if n < MARJAN + 365242 then to_u32 (n - MARJAN) else to_u32 (n - (MARJAN + 365242)))
    = day - days_before_year (y - (y - 1) mod 1000)"
proof -
  define e where "e = (day - 11017) div 730485"
  have "0 \<le> (day - 11017) mod 730485" "(day - 11017) mod 730485 < 730485" by simp_all
  then have n: "0 \<le> n" "n < 730485" "day = 11017 + 730485 * e + n"
    using mult_div_mod_eq [of 730485 "day - 11017"] by (simp_all add: n_def unsigned_mod_eq e_def)
  have s0: "days_before_year (2001 + 2000 * e) = 11323 + 730485 * e" for e
    using jan1_after_march [of "2000 + 2000 * e"] march1_era [of 0 "5 * e"] by (simp add: era_start_def)
  have s1: "days_before_year (3001 + 2000 * e) = 11323 + 730485 * e + 365242" for e
    using jan1_after_march [of "3000 + 2000 * e"] march1_era [of 200 "5 * e + 2"] by (simp add: era_start_def algebra_simps)
  have first: "y - (y - 1) mod 1000 = z" if "days_before_year z \<le> day" "day < days_before_year (z + 1000)" "(z - 1) mod 1000 = 0" for z
    using period_first_year [of z y 1000 1] year_ge [OF assms(1), of z] year_less [OF assms(1), of "z + 1000"] that by (simp add: day_def)
  consider "n < 306" | "306 \<le> n" "n < 365548" | "365548 \<le> n" by linarith
  then show ?thesis
  proof cases
    case 1
    have "y - (y - 1) mod 1000 = 3001 + 2000 * (e - 1)"
      using 1 n s0 [of e] s1 [of "e - 1"] by (intro first) (simp_all add: mod_eq_0_iff_dvd)
    then show ?thesis using 1 n s1 [of "e - 1"] by simp
  next
    case 2
    have "y - (y - 1) mod 1000 = 2001 + 2000 * e"
      using 2 n s0 [of e] s1 [of e] by (intro first) (simp_all add: mod_eq_0_iff_dvd)
    then show ?thesis using 2 n s0 [of e] by simp
  next
    case 3
    have "y - (y - 1) mod 1000 = 3001 + 2000 * e"
      using 3 n s1 [of e] s0 [of "e + 1"] by (intro first) (simp_all add: mod_eq_0_iff_dvd)
    then show ?thesis using 3 n s1 [of e] by simp
  qed
qed

section \<open>The truncations\<close>

lemma to_u32_nonneg: "0 \<le> to_u32 v"
  by (simp add: to_u32_def)

lemma trunc_to_day:
  assumes "civil_time y m d s t" and "time_in_range t" and "0 \<le> day_number y m d - z" and "- (2 ^ 63) \<le> 86400 * z"
  shows "chk64 ((day_number y m d - (day_number y m d - z)) * kSecsPerDay) = Some (86400 * z)"
proof -
  have "86400 * z \<le> t" using civil_timeD(2,4) [OF assms(1)] assms(3) by simp
  then have "86400 * z < 2 ^ 63" using assms(2) by (simp add: time_in_range_def)
  then show ?thesis using chk64_Some [OF assms(4)] by (simp add: mult.commute)
qed

lemma datetrunc_month_date:
  assumes "civil_time y m d s t" and "time_in_range t" and "- (2 ^ 63) \<le> 86400 * day_number y m 1"
  shows "datetrunc_month_impl t = Some (86400 * day_number y m 1)"
proof -
  note c = civil_timeD [OF assms(1)]
  note df = date_fields(3,4) [OF c(1)]
  have x: "d - 1 = day_number y m d - day_number y m 1" by (simp add: day_number_def)
  show ?thesis
  proof (cases "fast_path t")
    case True
    then show ?thesis using datetrunc_month_fast_eq [of "day_number y m d" s] c df x by simp
  next
    case False
    have "0 \<le> day_number y m d - day_number y m 1" using c(7) x by linarith
    note r = trunc_to_day [OF assms(1,2) this assms(3)]
    show ?thesis
      by (simp only: datetrunc_month_impl_def False if_False Let_def civil_floor_div_day [OF assms(1,2)] Option.bind.simps df x r)
  qed
qed

lemma datetrunc_year_date:
  assumes "civil_time y m d s t" and "time_in_range t" and "- (2 ^ 63) \<le> 86400 * days_before_year y"
  shows "datetrunc_year_impl t = Some (86400 * days_before_year y)"
proof -
  note c = civil_timeD [OF assms(1)]
  show ?thesis
  proof (cases "fast_path t")
    case True
    note fy = fast_year [OF c(1) True [unfolded c(4)] c(2,3), folded c(4)]
    have "to_u32 t = t" using True by (simp add: fast_path_def)
    then show ?thesis
      using True fy(2) year_start_1900_eq(2) [OF fy(4,5)] by (simp add: datetrunc_year_impl_def Let_def)
  next
    case False
    note x = date_since_january [OF c(1)]
    have "0 \<le> day_number y m d - days_before_year y" unfolding x [symmetric] by (simp add: to_u32_nonneg)
    note r = trunc_to_day [OF assms(1,2) this assms(3)]
    show ?thesis
      by (simp only: datetrunc_year_impl_def False if_False Let_def civil_floor_div_day [OF assms(1,2)] Option.bind.simps x r)
  qed
qed

lemma datetrunc_quarter_date:
  assumes "civil_time y m d s t" and "time_in_range t" and "- (2 ^ 63) \<le> 86400 * day_number y (3 * ((m - 1) div 3) + 1) 1"
  shows "datetrunc_quarter_impl t = Some (86400 * day_number y (3 * ((m - 1) div 3) + 1) 1)"
proof -
  note c = civil_timeD [OF assms(1)]
  show ?thesis
  proof (cases "fast_path t")
    case True
    note fy = fast_year [OF c(1) True [unfolded c(4)] c(2,3), folded c(4)]
    have q: "0 \<le> (m - 1) div 3" "(m - 1) div 3 < 4" using c(5,6) by linarith+
    have "quarter_offsets (y - 1900) ! nat ((m - 1) div 3) = 86400 * days_before_month y (3 * ((m - 1) div 3) + 1)"
      using quarter_offsets_eq [OF q, of "y - 1900"] fy(4,5) quarter_start_date [OF c(5,6)] by simp
    then show ?thesis
      unfolding datetrunc_quarter_impl_def Let_def fy(2) fast_quarter_index [OF assms(1) True]
      using True year_start_1900_eq(1) [OF fy(4,5)] by (simp add: day_number_def)
  next
    case False
    note x = date_since_quarter [OF c(1)]
    have "0 \<le> day_number y m d - day_number y (3 * ((m - 1) div 3) + 1) 1" unfolding x [symmetric] by (simp add: to_u32_nonneg)
    note r = trunc_to_day [OF assms(1,2) this assms(3)]
    show ?thesis
      by (simp only: datetrunc_quarter_impl_def False if_False Let_def civil_floor_div_day [OF assms(1,2)] Option.bind.simps x r)
  qed
qed

lemma datetrunc_decade_date:
  assumes "civil_time y m d s t" and "time_in_range t" and "- (2 ^ 63) \<le> 86400 * days_before_year (y - y mod 10)"
  shows "datetrunc_decade_impl t = Some (86400 * days_before_year (y - y mod 10))"
proof -
  note c = civil_timeD [OF assms(1)]
  note x = date_since_decade [OF c(1)]
  have "0 \<le> day_number y m d - days_before_year (y - y mod 10)" unfolding x [symmetric] by (simp add: to_u32_nonneg)
  note r = trunc_to_day [OF assms(1,2) this assms(3)]
  show ?thesis by (simp only: datetrunc_decade_impl_def Let_def civil_floor_div_day [OF assms(1,2)] Option.bind.simps x r)
qed

lemma datetrunc_century_date:
  assumes "civil_time y m d s t" and "time_in_range t" and "- (2 ^ 63) \<le> 86400 * days_before_year (y - (y - 1) mod 100)"
  shows "datetrunc_century_impl t = Some (86400 * days_before_year (y - (y - 1) mod 100))"
proof -
  note c = civil_timeD [OF assms(1)]
  note x = date_since_century [OF c(1)]
  have "0 \<le> day_number y m d - days_before_year (y - (y - 1) mod 100)" unfolding x [symmetric] by (simp add: to_u32_nonneg)
  note r = trunc_to_day [OF assms(1,2) this assms(3)]
  show ?thesis by (simp only: datetrunc_century_impl_def Let_def civil_floor_div_day [OF assms(1,2)] Option.bind.simps x r)
qed

lemma datetrunc_millennium_date:
  assumes "civil_time y m d s t" and "time_in_range t" and "- (2 ^ 63) \<le> 86400 * days_before_year (y - (y - 1) mod 1000)"
  shows "datetrunc_millennium_impl t = Some (86400 * days_before_year (y - (y - 1) mod 1000))"
proof -
  note c = civil_timeD [OF assms(1)]
  note x = date_since_millennium [OF c(1)]
  have "0 \<le> day_number y m d - days_before_year (y - (y - 1) mod 1000)" unfolding x [symmetric] by (simp add: to_u32_nonneg)
  note r = trunc_to_day [OF assms(1,2) this assms(3)]
  show ?thesis by (simp only: datetrunc_millennium_impl_def Let_def civil_floor_div_day [OF assms(1,2)] Option.bind.simps x r)
qed

end
