(* ===== verification/Date_Month_Props.thy ===== *)
theory Date_Month_Props
  imports Date_Trunc_Props
begin

text \<open>
  Arithmetic on months: the months of the calendar are numbered, a time is a month and the seconds
  since its first day, and adding months or counting the months between two times is arithmetic on
  these numbers.  The second part shows weeks.
\<close>

section \<open>Months\<close>

definition month_number :: "int \<Rightarrow> int \<Rightarrow> int" where "month_number y m = 12 * y + (m - 1)"

definition month_start :: "int \<Rightarrow> int" where "month_start n = day_number (n div 12) (n mod 12 + 1) 1"

lemma month_number_inv:
  assumes "1 \<le> m" and "m \<le> 12"
  shows "month_number y m div 12 = y" and "month_number y m mod 12 + 1 = m"
proof -
  have e: "month_number y m = m - 1 + 12 * y" by (simp add: month_number_def)
  show "month_number y m div 12 = y" "month_number y m mod 12 + 1 = m" unfolding e using assms by simp_all
qed

lemma month_start_date: "1 \<le> m \<Longrightarrow> m \<le> 12 \<Longrightarrow> month_start (month_number y m) = day_number y m 1"
  by (simp add: month_start_def month_number_inv)

lemma month_start_mono:
  assumes "1 \<le> m" "m \<le> 12" "1 \<le> m'" "m' \<le> 12" and "month_number y m < month_number y' m'"
  shows "day_number y m 1 + days_in_month y m \<le> day_number y' m' 1"
proof (cases "y = y'")
  case True
  then show ?thesis
    using days_before_month_mono [of m m' y] assms by (simp add: month_number_def day_number_def)
next
  case False
  then have "y < y'" using assms by (simp add: month_number_def)
  moreover have "valid_date y m (days_in_month y m)" "valid_date y' m' 1"
    using assms days_in_month_bounds(1) [of y m] days_in_month_bounds(1) [of y' m'] by (simp_all add: valid_date_def)
  ultimately show ?thesis
    using day_number_in_year [of y m "days_in_month y m"] day_number_in_year [of y' m' 1] days_before_year_mono [of y y']
    by (simp add: day_number_def)
qed

lemma march_months:
  assumes "valid_date y m d"
  defines "day \<equiv> day_number y m d"
  shows "(era_of day * 400 + yoe_of day) * 12 + month_of_year (doy_of day) = month_number y m - 24002"
proof -
  have "era_of day * 400 + yoe_of day = y - of_bool (m < 3) - 2000" using date_fields(1) [OF assms(1)] by (simp add: day_def)
  moreover have "month_of_year (doy_of day) = march_index m" using date_fields(3) [OF assms(1)] by (simp add: day_def)
  ultimately show ?thesis by (simp add: month_number_def march_index_def)
qed

lemma year_of_era_div:
  assumes "0 \<le> doe" and "doe < 146097"
  shows "to_u32 (doe - doe div 1460 + doe div 36524 - doe div 146096) div 365 = year_of_era doe"
proof -
  have "doe div 146096 = of_bool (doe = 146096)" using assms by (cases "doe = 146096") simp_all
  then show ?thesis by (simp add: year_of_era_def)
qed

lemma doe_of_day: "day - kEpochAdjustedDays - era_of day * kDaysPer400Years = day_of_era day"
  using era_split [of day] by (simp add: algebra_simps)

section \<open>Addition\<close>

lemma MonthDaySecond_make_date:
  assumes "civil_time y m d s t" and "time_in_range t"
  shows "MonthDaySecond_make t = Some \<lparr>md_months = month_number y m - 24002, md_dom = d - 1, md_sod = s\<rparr>"
proof -
  note c = civil_timeD [OF assms(1)]
  have "to_u32 (t - day_number y m d * kSecsPerDay) = s" using c(2-4) by (simp add: mult.commute)
  moreover have "to_u32 (day_of_era (day_number y m d)) = day_of_era (day_number y m d)" using day_of_era_bounds [of "day_number y m d"] by simp
  ultimately show ?thesis
    using march_months [OF c(1)] date_fields(3,4) [OF c(1)]
    by (simp add: MonthDaySecond_make_def civil_floor_div_day [OF assms] civil_floor_div_era [OF assms] Let_def
        doe_of_day year_of_era_div [OF day_of_era_bounds])
qed

lemma clampDom_date:
  assumes "0 \<le> yoe" "yoe < 400" "0 \<le> moy" "moy < 12" and "date_of_march (2000 + 400 * e + yoe) moy = (y, m)" and "1 \<le> d"
  shows "clampDom yoe moy (d - 1) = Some (min d (days_in_month y m) - 1)"
proof -
  have l: "leap_year (yoe + 1) \<longleftrightarrow> (yoe + 1) mod 4 = 0 \<and> ((yoe + 1) mod 100 \<noteq> 0 \<or> yoe + 1 = 400)"
    using assms(1,2) by (auto simp: leap_year_def mod_eq_0_iff_dvd dest: zdvd_imp_le)
  have l': "leap_year (2000 + 400 * e + yoe + 1) \<longleftrightarrow> leap_year (yoe + 1)" using leap_year_era [of e "yoe + 1"] by (simp add: add.assoc)
  show ?thesis
    using assms(3,4) assms(1,2,5,6) l l' days_in_month_bounds(1) [of y m]
    by (cases moy rule: moy_cases) (auto simp: clampDom_def date_of_march_def days_in_month_def)
qed

text \<open>The time that a month, a day of it and a second of the day give, with the day clamped.\<close>

definition clamped_time :: "int \<Rightarrow> int \<Rightarrow> int \<Rightarrow> int" where
  "clamped_time n d s =
     (let y = n div 12; m = n mod 12 + 1 in kSecsPerDay * day_number y m (min d (days_in_month y m)) + s)"

lemma march_parts:
  fixes n :: int
  defines "M \<equiv> n - 24002"
  defines "era \<equiv> M div 4800" and "yoe \<equiv> (M mod 4800) div 12" and "moy \<equiv> (M mod 4800) mod 12"
  shows "0 \<le> yoe" "yoe < 400" "0 \<le> moy" "moy < 12"
    and "date_of_march (2000 + 400 * era + yoe) moy = (n div 12, n mod 12 + 1)"
proof -
  have b: "0 \<le> M mod 4800" "M mod 4800 < 4800" by simp_all
  then show "0 \<le> yoe" "yoe < 400" "0 \<le> moy" "moy < 12" unfolding yoe_def moy_def by (simp_all add: pos_imp_zdiv_nonneg_iff)
  have "M mod 4800 = 12 * yoe + moy" by (simp add: yoe_def moy_def)
  then have n: "n = 12 * (2000 + 400 * era + yoe) + moy + 2" using mult_div_mod_eq [of 4800 M] by (simp add: M_def era_def)
  have u: "a div 12 = q \<and> a mod 12 = r" if "a = 12 * q + r" "0 \<le> r" "r < 12" for a q r :: int
    using that by simp
  show "date_of_march (2000 + 400 * era + yoe) moy = (n div 12, n mod 12 + 1)"
  proof (cases "moy < 10")
    case True
    then show ?thesis
      using u [of n "2000 + 400 * era + yoe" "moy + 2"] n \<open>0 \<le> moy\<close> by (simp add: date_of_march_def)
  next
    case False
    then show ?thesis
      using u [of n "2000 + 400 * era + yoe + 1" "moy - 10"] n \<open>moy < 12\<close> by (simp add: date_of_march_def)
  qed
qed

lemma unixtime_date:
  assumes "0 \<le> s" "s < 86400" "1 \<le> d" "d \<le> 31" and "time_in_range (clamped_time n d s)"
  shows "unixtime \<lparr>md_months = n - 24002, md_dom = d - 1, md_sod = s\<rparr> = Some (clamped_time n d s)"
    and "- 2000000000 < (n - 24002) div 4800" and "(n - 24002) div 4800 < 2000000000"
proof -
  define M where "M = n - 24002"
  define era yoe moy where "era = M div 4800" and "yoe = (M mod 4800) div 12" and "moy = (M mod 4800) mod 12"
  note mp = march_parts [of n, folded M_def, folded era_def yoe_def moy_def]
  define y m where "y = n div 12" and "m = n mod 12 + 1"
  define d' where "d' = min d (days_in_month y m)"
  have d': "1 \<le> d'" "d' \<le> 31" using assms(3,4) days_in_month_bounds(1) [of y m] by (simp_all add: d'_def)
  define doe where "doe = era_start yoe + (march_month_start moy + (d' - 1))"
  have "0 \<le> era_start yoe" using mp(1) unfolding era_start_def by linarith
  moreover have "era_start yoe < 146000" using mp(1,2) unfolding era_start_def by linarith
  moreover have "0 \<le> march_month_start moy" "march_month_start moy < 338" using mp(3,4) unfolding march_month_start_def by linarith+
  ultimately have doe: "0 \<le> doe" "doe < 146400" "0 \<le> march_month_start moy" "march_month_start moy < 338" using d' by (simp_all add: doe_def)
  have day: "day_number y m d' = 11017 + 146097 * era + doe"
    using march_month_number [OF mp(3,4,5)] march1_era [OF mp(1,2), of era] by (simp add: y_def m_def doe_def)
  have t: "clamped_time n d s = 86400 * (11017 + 146097 * era + doe) + s"
    using day by (simp add: clamped_time_def Let_def y_def m_def d'_def)
  then have r: "- (2 ^ 63) + 86399 \<le> 86400 * (11017 + 146097 * era + doe) + s" "86400 * (11017 + 146097 * era + doe) + s < 2 ^ 63"
    using assms(5) by (simp_all add: time_in_range_def)
  then have era: "- 2000000000 < era" "era < 2000000000" using doe assms(1,2) by simp_all
  then show "- 2000000000 < (n - 24002) div 4800" "(n - 24002) div 4800 < 2000000000" by (simp_all add: era_def M_def)
  have moe: "M - era * 4800 = M mod 4800" "to_u32 (M mod 4800) = M mod 4800"
    using minus_div_mult_eq_mod [of M 4800] by (simp_all add: era_def)
  have fd: "floor_div M 4800 = Some era"
    using floor_div_eq [of 4800 M] era mult_div_mod_eq [of 4800 M] pos_mod_sign [of 4800 M] pos_mod_bound [of 4800 M]
    by (simp add: era_def)
  have cl: "clampDom yoe moy (d - 1) = Some (d' - 1)"
    using clampDom_date [OF mp assms(3)] by (simp add: d'_def y_def m_def)
  have doy: "to_u32 ((153 * moy + 2) div 5 + (d' - 1)) = march_month_start moy + (d' - 1)"
    using doe d' by (simp add: march_month_start_def)
  have de: "to_u32 (yoe * 365 + yoe div 4 - yoe div 100 + (march_month_start moy + (d' - 1))) = doe"
    using doe by (simp add: doe_def era_start_def mult.commute)
  define g where "g = 11017 + era * 146097 + doe"
  have ch: "chk64 (era * 146097) = Some (era * 146097)" "chk64 (11017 + era * 146097) = Some (11017 + era * 146097)"
    "chk64 (11017 + era * 146097 + doe) = Some g"
    using era doe by (simp_all add: chk64_def g_def)
  have ch': "chk64 (g * 86400) = Some (g * 86400)" "chk64 (g * 86400 + s) = Some (clamped_time n d s)"
    using r assms(1,2) t by (simp_all add: chk64_def g_def)
  show "unixtime \<lparr>md_months = n - 24002, md_dom = d - 1, md_sod = s\<rparr> = Some (clamped_time n d s)"
    unfolding M_def [symmetric]
    by (simp add: unixtime_def Let_def fd moe cl doy de ch ch' flip: yoe_def moy_def)
qed

fun months_of_field :: "DateAddField \<Rightarrow> int option" where
  "months_of_field DateAddField.kMonth = Some 1"
| "months_of_field DateAddField.kQuarter = Some 3"
| "months_of_field DateAddField.kYear = Some 12"
| "months_of_field DateAddField.kDecade = Some 120"
| "months_of_field DateAddField.kCentury = Some 1200"
| "months_of_field DateAddField.kMillennium = Some 12000"
| "months_of_field _ = None"

lemma DateAdd_months: "months_of_field field = Some k \<Longrightarrow> DateAdd field number timeval = add_months_scaled timeval number k"
  by (cases field) auto

lemma clamped_time_self:
  assumes "civil_time y m d s t"
  shows "clamped_time (month_number y m) d s = t"
  using civil_timeD [OF assms] by (simp add: clamped_time_def month_number_inv min_absorb1)

lemma div_4800_bounds:
  assumes "- 2000000000 < v div 4800" and "v div 4800 < (2000000000 :: int)"
  shows "- 10000000000000 < v" and "v < 10000000000000"
  using assms mult_div_mod_eq [of 4800 v] pos_mod_sign [of 4800 v] pos_mod_bound [of 4800 v] by linarith+

lemma month_bounds:
  assumes "civil_time y m d s t" and "time_in_range t"
  shows "- 10000000000000 < month_number y m - 24002" and "month_number y m - 24002 < 10000000000000"
  using div_4800_bounds [of "month_number y m - 24002"] unixtime_date(2,3) [OF civil_timeD(2,3,7,8) [OF assms(1)], of "month_number y m"]
    clamped_time_self [OF assms(1)] assms(2) by simp_all

lemma add_months_date:
  assumes "civil_time y m d s t" and "time_in_range t" and "time_in_range (clamped_time (month_number y m + number * k) d s)"
  shows "add_months_scaled t number k = Some (clamped_time (month_number y m + number * k) d s)"
proof -
  note c = civil_timeD [OF assms(1)]
  define M where "M = month_number y m - 24002"
  define M' where "M' = month_number y m + number * k - 24002"
  note u = unixtime_date [OF c(2,3,7,8) assms(3)]
  have "- 10000000000000 < M'" "M' < 10000000000000" using u(2,3) div_4800_bounds [of M'] by (simp_all add: M'_def)
  moreover have "number * k = M' - M" by (simp add: M'_def M_def)
  ultimately have "chk64 (number * k) = Some (number * k)" "chk64 (M + number * k) = Some M'"
    using month_bounds [OF assms(1,2), folded M_def] by (simp_all add: chk64_def)
  then show ?thesis
    using u(1) by (simp add: add_months_scaled_def MonthDaySecond_make_date [OF assms(1,2)] addMonths_def M_def [symmetric] M'_def)
qed

end
