(* ===== verification/Date_Diff_Props.thy ===== *)
theory Date_Diff_Props
  imports Date_Month_Props
begin

text \<open>
  Differences between times.  A difference of two times field by field has the sign of its first
  field that is not zero, and the count of a unit of months is the number of whole units between
  the two times, rounded down.
\<close>

section \<open>Fields of the difference\<close>

lemma EraTime_make_date:
  assumes "civil_time y m d s t" and "time_in_range t"
  defines "day \<equiv> day_number y m d"
  shows "EraTime_make t = Some \<lparr>et_era = era_of day, et_yoe = yoe_of day, et_moy = march_index m, et_dom = d - 1, et_sod = s\<rparr>"
proof -
  note c = civil_timeD [OF assms(1)]
  define doe where "doe = day_of_era day"
  have doe: "0 \<le> doe" "doe < 146097" using day_of_era_bounds by (simp_all add: doe_def)
  have yoe: "(doe - doe sdiv 1460 + doe sdiv 36524 - doe sdiv 146096) sdiv 365 = year_of_era doe"
  proof -
    have "doe sdiv 1460 = doe div 1460" "doe sdiv 36524 = doe div 36524" "doe sdiv 146096 = doe div 146096"
      using doe by (simp_all add: sdiv_nonneg)
    moreover have "doe div 146096 = of_bool (doe = 146096)" using doe by (cases "doe = 146096") simp_all
    ultimately show ?thesis
      using yoe_numerator_bounds [OF doe] by (simp add: sdiv_nonneg year_of_era_def flip: yoe_numerator_def)
  qed
  define yy where "yy = year_of_era doe"
  have yy: "0 \<le> yy" using year_of_era_eq(1) [OF doe] by (simp add: yy_def)
  have doy: "doe - (365 * yy + yy sdiv 4 - yy sdiv 100) = doy_of day"
    using doy_of_eq [of day] yy by (simp add: sdiv_nonneg doe_def yy_def era_start_def)
  have moy: "(5 * doy_of day + 2) sdiv 153 = march_index m"
    using date_fields(3) [OF c(1)] month_of_year_eq [OF doy_of_bounds, of day] doy_of_bounds [of day] by (simp add: day_def sdiv_nonneg)
  have dom: "doy_of day - (153 * march_index m + 2) sdiv 5 = d - 1"
    using date_fields(2) [OF c(1)] march_index_bounds [OF c(5,6)] by (simp add: day_def sdiv_nonneg march_month_start_def)
  have sod: "to_i32 (t - day * kSecsPerDay) = s" using c(2-4) by (simp add: day_def mult.commute)
  have i: "to_i32 doe = doe" using doe by simp
  note fd = civil_floor_div_day [OF assms(1,2), folded day_def]
  note fe = civil_floor_div_era [OF assms(1,2), folded day_def]
  show ?thesis
    unfolding EraTime_make_def fd fe Option.bind.simps Let_def sod doe_of_day doe_def [symmetric] i yoe
    unfolding yy_def [symmetric] doy moy dom ..
qed

lemma EraTime_minus_swap: "EraTime_neg (EraTime_minus a b) = EraTime_minus b a"
  by (simp add: EraTime_neg_def EraTime_minus_def)

lemma EraTime_sign_neg: "EraTime_sign f (EraTime_neg t) = - EraTime_sign f t"
  by (cases f) (simp_all add: EraTime_sign_def EraTime_neg_def sgn1_def)

lemma EraTime_sign_values: "EraTime_sign f t \<in> {- 1, 0, 1}"
  by (cases f) (simp_all add: EraTime_sign_def sgn1_def)

definition et_month :: "EraTime \<Rightarrow> int" where "et_month t = 12 * (400 * et_era t + et_yoe t) + et_moy t"

definition et_second :: "EraTime \<Rightarrow> int" where "et_second t = kSecsPerDay * et_dom t + et_sod t"

definition et_bounded :: "EraTime \<Rightarrow> bool" where
  "et_bounded t \<longleftrightarrow> - 400 < et_yoe t \<and> et_yoe t < 400 \<and> - 12 < et_moy t \<and> et_moy t < 12
     \<and> - kSecsPerDay < et_sod t \<and> et_sod t < kSecsPerDay"

lemma sign_DOM:
  assumes "et_bounded t"
  shows "EraTime_sign DOM t = - 1 \<longleftrightarrow> et_second t < 0" and "EraTime_sign DOM t = 0 \<longleftrightarrow> et_second t = 0"
  using assms unfolding EraTime_sign_def et_second_def et_bounded_def
  by (cases "et_dom t" "0 :: int" rule: linorder_cases; simp add: sgn1_def)+

lemma sign_MOY: "et_bounded t \<Longrightarrow> EraTime_sign MOY t = - 1 \<longleftrightarrow> et_moy t < 0 \<or> et_moy t = 0 \<and> et_second t < 0"
  using sign_DOM(1) [of t] by (cases "et_moy t" "0 :: int" rule: linorder_cases) (simp_all add: EraTime_sign_def sgn1_def)

lemma sign_ERA:
  assumes "et_bounded t"
  shows "EraTime_sign ERA t = - 1 \<longleftrightarrow> et_month t < 0 \<or> et_month t = 0 \<and> et_second t < 0"
    and "EraTime_sign ERA t = 0 \<longleftrightarrow> et_month t = 0 \<and> et_second t = 0"
proof -
  have b: "- 400 < et_yoe t" "et_yoe t < 400" "- 12 < et_moy t" "et_moy t < 12" using assms by (simp_all add: et_bounded_def)
  have s: "EraTime_sign ERA t = (if et_era t \<noteq> 0 then sgn1 (et_era t) else if et_yoe t \<noteq> 0 then sgn1 (et_yoe t)
      else if et_moy t \<noteq> 0 then sgn1 (et_moy t) else EraTime_sign DOM t)" by (simp add: EraTime_sign_def)
  consider "et_era t < 0" | "et_era t > 0" | "et_era t = 0" "et_yoe t < 0" | "et_era t = 0" "et_yoe t > 0"
    | "et_era t = 0" "et_yoe t = 0" by linarith
  then have "(EraTime_sign ERA t = - 1 \<longleftrightarrow> et_month t < 0 \<or> et_month t = 0 \<and> et_second t < 0)
      \<and> (EraTime_sign ERA t = 0 \<longleftrightarrow> et_month t = 0 \<and> et_second t = 0)"
    using b s sign_DOM [OF assms]
    by cases (auto simp: et_month_def sgn1_def)
  then show "EraTime_sign ERA t = - 1 \<longleftrightarrow> et_month t < 0 \<or> et_month t = 0 \<and> et_second t < 0"
    and "EraTime_sign ERA t = 0 \<longleftrightarrow> et_month t = 0 \<and> et_second t = 0" by blast+
qed

section \<open>Counting units\<close>

fun months_of_part :: "DateTruncField \<Rightarrow> int option" where
  "months_of_part DateTruncField.kMonth = Some 1"
| "months_of_part DateTruncField.kQuarter = Some 3"
| "months_of_part DateTruncField.kYear = Some 12"
| "months_of_part DateTruncField.kDecade = Some 120"
| "months_of_part DateTruncField.kCentury = Some 1200"
| "months_of_part DateTruncField.kMillennium = Some 12000"
| "months_of_part _ = None"

lemma units_div:
  assumes "0 \<le> years" and "years < 2 ^ 62" and "0 < n" and "years - of_bool p \<ge> 0"
  shows "years div n - of_bool (years mod n = 0 \<and> p) = (years - of_bool p) div (n :: int)"
  using div_pred [OF assms(3), of years] by (cases p) simp_all

lemma count_units_eq:
  assumes "0 \<le> years" and "years < 2 ^ 62" and "n \<in> {10, 100, 1000}" and "0 \<le> years - of_bool (EraTime_sign MOY ut = - 1)"
  shows "count_units n 1 years ut = (years - of_bool (EraTime_sign MOY ut = - 1)) div n"
    and "count_units n (- 1) years ut = - ((years - of_bool (EraTime_sign MOY ut = - 1)) div n)"
proof -
  have n: "0 < n" "n < 2 ^ 32" using assms(3) by auto
  define u where "u = (years - of_bool (EraTime_sign MOY ut = - 1)) div n"
  have "0 \<le> u" using assms(4) n by (simp add: u_def pos_imp_zdiv_nonneg_iff)
  moreover have "u \<le> years" using div_self_bound [OF assms(4) n(1)] by (simp add: u_def of_bool_def split: if_splits)
  ultimately have u: "0 \<le> u" "u < 2 ^ 62" using assms(2) by simp_all
  have q: "years sdiv n mod 2 ^ 64 = years div n"
    using sdiv_nonneg [OF assms(1) n(1)] div_self_bound [OF assms(1) n(1)] assms(2) by simp
  have "years smod n = years mod n" using assms(1) n by (cases "years = 0") (simp_all add: signed_modulo_int_def)
  moreover have "0 \<le> years mod n" "years mod n < 2 ^ 32" using n pos_mod_bound [OF n(1), of years] by (simp, linarith)
  ultimately have r: "to_u32 (years smod n) = years mod n" by simp
  have i: "to_i64 v = v" if "- (2 ^ 62) < v" "v < 2 ^ 62" for v using that by (simp add: to_i64_def signed_take_bit_int_eq_self)
  note e = units_div [OF assms(1,2) n(1) assms(4), folded u_def]
  show "count_units n 1 years ut = (years - of_bool (EraTime_sign MOY ut = - 1)) div n"
    "count_units n (- 1) years ut = - ((years - of_bool (EraTime_sign MOY ut = - 1)) div n)"
    unfolding count_units_def Let_def q r e u_def [symmetric] using u i [of u] i [of "- u"] by simp_all
qed

lemma quarter_diff_table:
  assumes "- 12 < v" and "v < (12 :: int)"
  shows "v sdiv 3 - of_bool (v smod 3 < 0) = v div 3"
    and "v sdiv 3 - of_bool (v smod 3 < 0 \<or> v smod 3 = 0) = (v - 1) div 3"
proof -
  have "\<forall>v \<in> set [- 11..11]. v sdiv 3 - of_bool (v smod 3 < 0) = v div (3 :: int)
      \<and> v sdiv 3 - of_bool (v smod 3 < 0 \<or> v smod 3 = 0) = (v - 1) div 3" by code_simp
  moreover have "v \<in> set [- 11..11]" unfolding set_upto using assms by simp
  ultimately show "v sdiv 3 - of_bool (v smod 3 < 0) = v div 3"
    and "v sdiv 3 - of_bool (v smod 3 < 0 \<or> v smod 3 = 0) = (v - 1) div 3" by blast+
qed

lemma count_positive:
  assumes "et_bounded t" and "EraTime_sign ERA t = 1" and "months_of_part f = Some k" and "et_month t < 2 ^ 62"
  shows "EraTime_count f t = Some ((et_month t - of_bool (et_second t < 0)) div k)"
    and "0 \<le> et_month t - of_bool (et_second t < 0)"
proof -
  define years where "years = 400 * et_era t + et_yoe t"
  define b where "b = (of_bool (et_second t < 0) :: int)"
  define N where "N = et_month t - b"
  have bb: "0 \<le> b" "b \<le> 1" by (simp_all add: b_def)
  have moy: "- 12 < et_moy t" "et_moy t < 12" using assms(1) by (simp_all add: et_bounded_def)
  have em: "et_month t = 12 * years + et_moy t" by (simp add: et_month_def years_def)
  have "\<not> (et_month t < 0 \<or> et_month t = 0 \<and> et_second t < 0)" using sign_ERA(1) [OF assms(1)] assms(2) by simp
  then show N: "0 \<le> et_month t - of_bool (et_second t < 0)" by (auto simp: of_bool_def)
  then have N0: "0 \<le> N" by (simp add: N_def b_def)
  have sg: "EraTime_sign DOM t = - 1 \<longleftrightarrow> b = 1" "EraTime_sign MOY t = - 1 \<longleftrightarrow> et_moy t < b"
    using sign_DOM(1) [OF assms(1)] sign_MOY [OF assms(1)] by (auto simp: b_def of_bool_def)
  define c where "c = (of_bool (et_moy t < b) :: int)"
  have y12: "N div 12 = years - c"
    using moy bb by (intro int_div_pos_eq [of _ _ _ "et_moy t - b + 12 * c"]) (auto simp: N_def em c_def of_bool_def)
  then have yc: "0 \<le> years - c" using N0 by (simp add: pos_imp_zdiv_nonneg_iff flip: y12)
  have yb: "0 \<le> years" "years < 2 ^ 62" using yc assms(4) em moy by (auto simp: c_def of_bool_def split: if_splits)
  have units: "count_units n 1 years t = N div (12 * n)" if "n \<in> {10, 100, 1000}" for n
  proof -
    have "N div (12 * n) = (years - c) div n" using zdiv_zmult2_eq [of n N 12] that y12 by auto
    then show ?thesis using count_units_eq(1) [OF yb that, of t] yc sg(2) by (simp add: c_def)
  qed
  have q3: "4 * years + et_moy t sdiv 3 - of_bool (et_moy t smod 3 < 0 \<or> et_moy t smod 3 = 0 \<and> b = 1) = N div 3"
  proof -
    have "et_moy t sdiv 3 - of_bool (et_moy t smod 3 < 0 \<or> et_moy t smod 3 = 0 \<and> b = 1) = (et_moy t - b) div 3"
      using quarter_diff_table [of "et_moy t"] moy by (cases "et_second t < 0") (simp_all add: b_def)
    moreover have "N div 3 = 4 * years + (et_moy t - b) div 3"
      using div_mult_self4 [of 3 "4 * years" "et_moy t - b"] by (simp add: N_def em algebra_simps)
    ultimately show ?thesis by simp
  qed
  have ob: "EraTime_sign DOM t = - 1 \<longleftrightarrow> b = 1" "of_bool (EraTime_sign MOY t = - 1) = c"
    using sg by (auto simp: b_def c_def)
  have N1: "12 * years + et_moy t - of_bool (b = 1) = N" by (simp add: N_def em b_def)
  have pos: "(if (1 :: int) = - 1 then EraTime_neg t else t) = t" by simp
  have "EraTime_count f t = Some (N div k)"
    unfolding EraTime_count_def assms(2) Let_def pos years_def [symmetric] mult_1 ob N1 q3
    using assms(3) units [of 10] units [of 100] units [of 1000] by (cases f) (simp_all add: y12)
  then show "EraTime_count f t = Some ((et_month t - of_bool (et_second t < 0)) div k)" by (simp add: N_def b_def)
qed

text \<open>The opposite difference has the opposite count.\<close>

lemma count_negative:
  assumes "et_bounded t" and "EraTime_sign ERA t = 1" and "months_of_part f = Some k" and "et_month t < 2 ^ 62"
  shows "EraTime_count f (EraTime_neg t) = map_option uminus (EraTime_count f t)"
proof -
  have neg: "EraTime_neg (EraTime_neg t) = t" by (simp add: EraTime_neg_def)
  have sg: "EraTime_sign ERA (EraTime_neg t) = - 1" using EraTime_sign_neg [of ERA t] assms(2) by simp
  define years where "years = 400 * et_era t + et_yoe t"
  have "\<not> (et_month t < 0 \<or> et_month t = 0 \<and> et_second t < 0)" using sign_ERA(1) [OF assms(1)] assms(2) by simp
  then have yb: "0 \<le> years" "years < 2 ^ 62" "0 \<le> years - of_bool (EraTime_sign MOY t = - 1)"
    using sign_MOY [OF assms(1)] assms(1,4) by (auto simp: et_month_def years_def et_bounded_def of_bool_def)
  have units: "count_units n (- 1) years t = - count_units n 1 years t" if "n \<in> {10, 100, 1000}" for n
    using count_units_eq [OF yb(1,2) that yb(3)] by simp
  have pos: "(if (1 :: int) = - 1 then EraTime_neg t else t) = t" by simp
  show ?thesis
    unfolding EraTime_count_def sg assms(2) neg pos Let_def if_True
    using assms(3) units by (cases f) (simp_all add: years_def)
qed

lemma count_zero:
  assumes "EraTime_sign ERA t = 0" and "months_of_part f = Some k"
  shows "EraTime_count f t = Some 0" and "EraTime_count f (EraTime_neg t) = Some 0"
proof -
  have "et_era t = 0 \<and> et_yoe t = 0 \<and> et_moy t = 0 \<and> et_dom t = 0 \<and> et_sod t = 0"
    using assms(1) by (auto simp: EraTime_sign_def sgn1_def split: if_splits)
  moreover have "EraTime_neg t = t" using calculation by (simp add: EraTime_neg_def)
  ultimately show "EraTime_count f t = Some 0" "EraTime_count f (EraTime_neg t) = Some 0"
    using assms by (cases f; simp add: EraTime_count_def count_units_def to_i64_def EraTime_sign_def signed_modulo_int_def)+
qed

section \<open>Differences of times\<close>

lemma civil_order:
  assumes "civil_time y m d s t" and "civil_time y' m' d' s' t'" and "t \<le> t'"
  shows "month_number y m \<le> month_number y' m'"
    and "month_number y m = month_number y' m' \<Longrightarrow> kSecsPerDay * (d - 1) + s \<le> kSecsPerDay * (d' - 1) + s'"
proof -
  note c = civil_timeD [OF assms(1)] and c' = civil_timeD [OF assms(2)]
  have t: "t = 86400 * (day_number y m 1 + (d - 1)) + s" "t' = 86400 * (day_number y' m' 1 + (d' - 1)) + s'"
    using c(4) c'(4) by (simp_all add: day_number_def)
  show "month_number y m \<le> month_number y' m'"
  proof (rule ccontr)
    assume "\<not> month_number y m \<le> month_number y' m'"
    then have "day_number y' m' 1 + days_in_month y' m' \<le> day_number y m 1"
      using month_start_mono [OF c'(5,6) c(5,6)] by simp
    then show False using t assms(3) c c' by simp
  qed
  assume "month_number y m = month_number y' m'"
  then have "y = y'" "m = m'" using month_number_inv [OF c(5,6), of y] month_number_inv [OF c'(5,6), of y'] by auto
  then show "kSecsPerDay * (d - 1) + s \<le> kSecsPerDay * (d' - 1) + s'" using t assms(3) by simp
qed

definition months_between :: "int \<Rightarrow> int \<Rightarrow> int \<Rightarrow> int \<Rightarrow> int" where
  "months_between n r n' r' = n' - n - of_bool (r' < r)"

lemma DateDiff_ordered:
  assumes "civil_time y m d s t" "time_in_range t" "civil_time y' m' d' s' t'" "time_in_range t'" and "t \<le> t'"
    and "months_of_part f = Some k"
  defines "N \<equiv> months_between (month_number y m) (kSecsPerDay * (d - 1) + s) (month_number y' m') (kSecsPerDay * (d' - 1) + s')"
  shows "DateDiff f t t' = Some (N div k)" and "DateDiff f t' t = Some (- (N div k))" and "0 \<le> N"
proof -
  note c = civil_timeD [OF assms(1)] and c' = civil_timeD [OF assms(3)]
  define a where "a = \<lparr>et_era = era_of (day_number y m d), et_yoe = yoe_of (day_number y m d), et_moy = march_index m, et_dom = d - 1, et_sod = s\<rparr>"
  define b where "b = \<lparr>et_era = era_of (day_number y' m' d'), et_yoe = yoe_of (day_number y' m' d'), et_moy = march_index m', et_dom = d' - 1, et_sod = s'\<rparr>"
  define D where "D = EraTime_minus b a"
  have mk: "EraTime_make t = Some a" "EraTime_make t' = Some b"
    using EraTime_make_date [OF assms(1,2)] EraTime_make_date [OF assms(3,4)] by (simp_all add: a_def b_def)
  have mm: "et_month D = month_number y' m' - month_number y m"
    using march_months [OF c(1)] march_months [OF c'(1)] date_fields(3) [OF c(1)] date_fields(3) [OF c'(1)]
    by (simp add: D_def a_def b_def et_month_def EraTime_minus_def)
  have ss: "et_second D = kSecsPerDay * (d' - 1) + s' - (kSecsPerDay * (d - 1) + s)"
    by (simp add: D_def a_def b_def et_second_def EraTime_minus_def)
  have bd: "et_bounded D"
    using yoe_of_bounds(1,2) [of "day_number y m d"] yoe_of_bounds(1,2) [of "day_number y' m' d'"]
      march_index_bounds [OF c(5,6)] march_index_bounds [OF c'(5,6)] c(2,3) c'(2,3)
    by (simp add: D_def a_def b_def et_bounded_def EraTime_minus_def)
  note ord = civil_order [OF assms(1,3,5)]
  have N: "N = et_month D - of_bool (et_second D < 0)" by (simp add: N_def months_between_def mm ss)
  have "DateDiff f t t' = EraTime_count f D" "DateDiff f t' t = EraTime_count f (EraTime_neg D)"
    using assms(6) by (cases f; simp add: DateDiff_def mk D_def EraTime_minus_swap)+
  note dd = this
  have rb: "et_month D < 2 ^ 62" using month_bounds [OF assms(1,2)] month_bounds [OF assms(3,4)] mm by simp
  have "EraTime_sign ERA D \<noteq> - 1" using sign_ERA(1) [OF bd] ord mm ss by auto
  then consider "EraTime_sign ERA D = 1" | "EraTime_sign ERA D = 0" using EraTime_sign_values [of ERA D] by auto
  then have "DateDiff f t t' = Some (N div k) \<and> DateDiff f t' t = Some (- (N div k)) \<and> 0 \<le> N"
  proof cases
    case 1
    then show ?thesis using count_positive [OF bd 1 assms(6) rb] count_negative [OF bd 1 assms(6) rb] dd N by simp
  next
    case 2
    then show ?thesis using count_zero [OF 2 assms(6)] dd N sign_ERA(2) [OF bd] by simp
  qed
  then show "DateDiff f t t' = Some (N div k)" "DateDiff f t' t = Some (- (N div k))" "0 \<le> N" by blast+
qed

end
