(* ===== verification/Date_Week_Props.thy ===== *)
theory Date_Week_Props
  imports Date_Diff_Props
begin

text \<open>
  Weeks: the first week of a year is the one with 4 January in it, and weeks begin on Monday, Sunday
  or Saturday.  A week begins on the days whose number plus an offset is divisible by seven; the
  day number 0 is a Thursday.  The last part shows the functions on times of a finer unit.
\<close>

section \<open>Weeks\<close>

definition week_one :: "int \<Rightarrow> int \<Rightarrow> int" where
  "week_one off y = (let jan4 = day_number y 1 4 in jan4 - (jan4 + off) mod 7)"

lemma week_one_bounds: "day_number y 1 4 - 6 \<le> week_one off y" "week_one off y \<le> day_number y 1 4"
  using pos_mod_bound [of 7 "day_number y 1 4 + off"] pos_mod_sign [of 7 "day_number y 1 4 + off"]
  by (simp_all add: week_one_def Let_def)

lemma week_one_mono:
  assumes "y < z"
  shows "week_one off (y + 1) \<le> week_one off z"
proof (cases "z = y + 1")
  case False
  then have "days_before_year (y + 2) \<le> days_before_year z" using days_before_year_mono [of "y + 1" z] assms by (simp add: add.commute)
  then have "day_number (y + 1) 1 4 + 365 \<le> day_number z 1 4"
    using days_before_year_step [of "y + 1"] by (simp add: day_number_def days_before_month_eval of_bool_def add.assoc split: if_splits)
  then show ?thesis using week_one_bounds [where y = z and off = off] week_one_bounds [where y = "y + 1" and off = off] by linarith
qed simp

lemma week_year_unique:
  assumes "week_one off y \<le> day" "day < week_one off (y + 1)" "week_one off z \<le> day" "day < week_one off (z + 1)"
  shows "y = z"
  using assms week_one_mono [of y z off] week_one_mono [of z y off] by linarith

lemma week_start_from_yoe_eq:
  assumes "0 \<le> y" "y < 400" and "3 \<le> off" "off \<le> 5"
  shows "week_start_from_yoe (off - 1) y = week_one off (2000 + 400 * e + y + 1) - (11017 + 146097 * e)"
proof -
  define j where "j = era_start y + 309"
  have es: "0 \<le> era_start y" "era_start y < 146000" using assms(1,2) unfolding era_start_def by linarith+
  have jd: "day_number (2000 + 400 * e + y + 1) 1 4 = 11017 + 146097 * e + j"
    using jan1_after_march [of "2000 + 400 * e + y"] march1_era [OF assms(1,2), of e]
    by (simp add: day_number_def days_before_month_eval j_def)
  have "(11017 + 146097 * e + j + off) mod 7 = (j + (off - 1) + 7 * (1574 + 20871 * e)) mod 7" by (simp add: algebra_simps)
  also have "\<dots> = (j + (off - 1)) mod 7" by (simp only: mod_mult_self2)
  finally have m: "(11017 + 146097 * e + j + off) mod 7 = (j + (off - 1)) mod 7" .
  have mb: "0 \<le> (j + (off - 1)) mod 7" "(j + (off - 1)) mod 7 < 7" by simp_all
  have a: "to_u32 (y * 365 + y div 4 - y div 100) = era_start y" using es by (simp add: era_start_def mult.commute)
  have b: "to_u32 (era_start y + (MARJAN + 3)) = j" using es by (simp add: j_def)
  have c: "to_u32 (j + (off - 1)) = j + (off - 1)" using es assms(3,4) by (simp add: j_def)
  have d: "to_u32 (j - (j + (off - 1)) mod 7) = j - (j + (off - 1)) mod 7"
    using es mb by (intro to_u32_id) (simp_all add: j_def)
  show ?thesis unfolding week_start_from_yoe_def Let_def a b c d week_one_def jd m by simp
qed

lemma extract_week_date:
  assumes "civil_time y m d s t" "time_in_range t" and off: "3 \<le> off" "off \<le> 5"
    and w: "week_one off z \<le> day_number y m d" "day_number y m d < week_one off (z + 1)"
  shows "extract_week (off - 1) t = Some ((day_number y m d - week_one off z) div 7 + 1)"
proof -
  define day where "day = day_number y m d"
  define e where "e = era_of day"
  define doe where "doe = day_of_era day"
  define yoe where "yoe = year_of_era doe"
  define Y where "Y = 2000 + 400 * e + yoe"
  have yoe: "0 \<le> yoe" "yoe < 400" using yoe_of_bounds(1,2) by (simp_all add: yoe_def doe_def)
  have doe: "0 \<le> doe" "doe < 146097" "day = 11017 + 146097 * e + doe"
    using day_of_era_bounds [of day] era_split [of day] by (simp_all add: doe_def e_def)
  have my: "march1 Y \<le> day" "day < march1 (Y + 1)"
    using march_year_of_day [of day] march1_step [of Y] by (simp_all add: in_march_year_def Y_def e_def yoe_def doe_def)
  have ws: "week_start_from_yoe (off - 1) yoe = week_one off (Y + 1) - (11017 + 146097 * e)"
    using week_start_from_yoe_eq [OF yoe off] by (simp add: Y_def)
  have late: "week_one off Y \<le> march1 Y" "march1 (Y + 1) \<le> week_one off (Y + 2)"
    using week_one_bounds [where y = Y and off = off] week_one_bounds [where y = "Y + 2" and off = off] jan1_before_march [of Y] jan1_after_march [of "Y + 1"]
    by (simp_all add: day_number_def days_before_month_eval of_bool_def add.assoc split: if_splits)
  have ws_nonneg: "0 \<le> week_start_from_yoe (off - 1) yoe" by (simp add: week_start_from_yoe_def Let_def to_u32_def)
  have week_len: "day - week_one off Y < 146500"
    using my(2) march1_step [of Y] year_length_le(1) [of Y] week_one_bounds(1) [where y = Y and off = off] jan1_before_march [of Y]
    by (simp add: day_number_def days_before_month_eval of_bool_def split: if_splits)
  have fd: "floor_div t kSecsPerDay = Some day" using civil_floor_div_day [OF assms(1,2)] by (simp add: day_def)
  have qb: "0 \<le> v div 7 \<and> v div 7 < 146500" if "0 \<le> v" "v < 146500" for v :: int using that by (simp add: pos_imp_zdiv_nonneg_iff)
  show ?thesis
  proof (cases "doe < week_start_from_yoe (off - 1) yoe")
    case False
    then have "week_one off (Y + 1) \<le> day" using ws doe(3) by simp
    then have z: "z = Y + 1" using week_year_unique [OF w, of "Y + 1"] my late by (simp add: day_def [symmetric] add.assoc)
    define v where "v = day - week_one off z"
    have v: "doe - week_start_from_yoe (off - 1) yoe = v" using ws doe(3) z by (simp add: v_def)
    then have "0 \<le> v" "v < 146500" using False doe(2) ws_nonneg by simp_all
    then show ?thesis
      using False qb [of v] v by (simp add: extract_week_def fd Let_def day_def [symmetric] v_def [symmetric] doe_def [symmetric] yoe_def [symmetric])
  next
    case True
    then have "day < week_one off (Y + 1)" using ws doe(3) by simp
    then have z: "z = Y" using week_year_unique [OF w, of Y] my late by (simp add: day_def [symmetric])
    define v where "v = day - week_one off z"
    have vb: "0 \<le> v" "v < 146500" using z my late(1) week_len by (simp_all add: v_def)
    show ?thesis
    proof (cases "yoe = 0")
      case yoe0: True
      have "march1 Y = 11017 + 146097 * e" using march1_era [of 0 e] yoe0 by (simp add: Y_def era_start_def)
      moreover have "leap_year Y" using leap_year_era [of e 0] yoe0 by (simp add: Y_def leap_year_def)
      ultimately have j: "day_number Y 1 4 = 10960 + 146097 * e"
        using jan1_before_march [of Y] by (simp add: day_number_def days_before_month_eval)
      have "(10960 + 146097 * e + off) mod 7 = (off - 2 + 7 * (1566 + 20871 * e)) mod 7" by (simp add: algebra_simps)
      also have "\<dots> = off - 2" using off by (simp only: mod_mult_self2) simp
      finally have "week_one off z = 10962 + 146097 * e - off" by (simp add: week_one_def Let_def j z)
      then have "v = doe + (off - 1) + 7 * 8" using doe(3) by (simp add: v_def)
      then have "(doe + (off - 1)) div 7 + 9 = v div 7 + 1" by simp
      then show ?thesis
        using True yoe0 qb [OF vb] doe(1,2) off
        by (simp add: extract_week_def fd Let_def day_def [symmetric] v_def [symmetric] doe_def [symmetric] yoe_def [symmetric])
    next
      case yoe1: False
      have "week_start_from_yoe (off - 1) (yoe - 1) = week_one off z - (11017 + 146097 * e)"
        using week_start_from_yoe_eq [of "yoe - 1" off e] yoe yoe1 off by (simp add: Y_def z add.assoc)
      then have "doe - week_start_from_yoe (off - 1) (to_u32 (yoe - 1)) = v" using doe(3) yoe yoe1 by (simp add: v_def)
      then show ?thesis
        using True yoe1 qb [OF vb] vb
        by (simp add: extract_week_def fd Let_def day_def [symmetric] v_def [symmetric] doe_def [symmetric] yoe_def [symmetric])
    qed
  qed
qed

lemma datetrunc_week_date:
  assumes "civil_time y m d s t" and "time_in_range t" and "0 \<le> off" and "t + kSecsPerDay * off < 2 ^ 63"
  defines "w \<equiv> day_number y m d - (day_number y m d + off) mod 7"
  assumes "- (2 ^ 63) \<le> kSecsPerDay * w"
  shows "datetrunc_week off t = Some (kSecsPerDay * w)"
proof -
  note c = civil_timeD [OF assms(1)]
  have e: "t + off * 86400 = 86400 * (day_number y m d + off) + s" using c(4) by simp
  have "unsigned_mod (t + off * 86400) 604800 = 86400 * ((day_number y m d + off) mod 7) + s"
    unfolding unsigned_mod_eq [of 604800, simplified] e using secs_mod [OF c(2,3), of 7 "day_number y m d + off"] by simp
  moreover have "86400 * w \<le> t" using c(2,4) by (simp add: w_def)
  ultimately show ?thesis
    using assms(2-4,6) c(4) by (simp add: datetrunc_week_def chk64_def time_in_range_def w_def algebra_simps)
qed

section \<open>Times of a finer unit\<close>

text \<open>
  For a timestamp that counts \<open>u\<close> units in a second, the functions on constants compute on the
  exact time: the field of a finer or coarser resolution \<open>p\<close> is the whole number of its units in
  the time, and a truncation removes the fraction of its unit.
\<close>

definition unit_range :: "int \<Rightarrow> bool" where "unit_range t \<longleftrightarrow> - (2 ^ 63) + kNanoSecsPerSec \<le> t \<and> t < 2 ^ 63"

lemma floor_div_unit:
  assumes "unit_range t" and "0 < k" and "k \<le> kNanoSecsPerSec"
  shows "floor_div t k = Some (t div k)"
  using assms floor_div_eq [of k t] by (simp add: unit_range_def)

lemma scaled_div:
  assumes "0 < (k :: int)" and "0 < p"
  shows "t * (p * k) div p = t * k" and "t * p div (p * k) = t div k"
  using assms by (simp_all add: mult.left_commute [of t p k] mult.commute [of t p])

lemma extract_subsecond:
  assumes "get_extract_timestamp_precision_scale f = Some p"
  shows "ExtractFromTime f t = Some (t mod (60 * p))"
  using assms
  by (cases f) (auto simp: extract_millisecond_def extract_microsecond_def extract_nanosecond_def unsigned_mod_eq)

lemma extract_constant_subsecond:
  assumes "unitsPerSecond unit = Some u" and "get_extract_timestamp_precision_scale f = Some p" and "unit_range t"
    and "- (2 ^ 63) \<le> t * p div u" and "t * p div u < 2 ^ 63"
  shows "getExtractFromTimeConstantValue t f True unit = Some (t * p div u mod (60 * p))"
proof -
  have sub: "is_subsecond_extract_field f" using assms(2) by (cases f) (simp_all add: is_subsecond_extract_field_def)
  note sd = scaled_div [of 1000 1000 t] scaled_div [of 1000 1000000 t] scaled_div [of 1000000 1000 t]
  show ?thesis
    using assms sub floor_div_unit [OF assms(3)] extract_subsecond [OF assms(2)] sd
    by (cases unit; cases f) (auto simp: getExtractFromTimeConstantValue_def chk64_def mult.commute)
qed

fun trunc_resolution :: "DateTruncField \<Rightarrow> int option" where
  "trunc_resolution DateTruncField.kSecond = Some 1"
| "trunc_resolution DateTruncField.kMilli = Some kMilliSecsPerSec"
| "trunc_resolution DateTruncField.kMicro = Some kMicroSecsPerSec"
| "trunc_resolution DateTruncField.kNano = Some kNanoSecsPerSec"
| "trunc_resolution _ = None"

lemma trunc_constant_subsecond:
  assumes "unitsPerSecond unit = Some u" and "trunc_resolution f = Some p" and "unit_range t"
  shows "getDateTruncConstantValue t f True unit = Some (if p < u then t - t mod (u div p) else t)"
proof -
  have c: "chk64 (t - t mod k) = Some (t - t mod k)" if "0 < k" "k \<le> 1000000000" for k
    using assms(3) that pos_mod_bound [OF that(1), of t] pos_mod_sign [OF that(1), of t] by (simp add: chk64_def unit_range_def)
  have d: "t div k * k = t - t mod k" for k by (simp add: minus_mod_eq_div_mult)
  show ?thesis
    using assms floor_div_unit [OF assms(3)] c
    by (cases unit; cases f) (auto simp: getDateTruncConstantValue_def is_subsecond_datetrunc_field_def unsigned_mod_eq d)
qed

lemma trunc_constant_period:
  assumes "unitsPerSecond unit = Some u" and "unit \<noteq> TimeUnit.kSecond" and "\<not> is_subsecond_datetrunc_field f" and "unit_range t"
    and "DateTruncate f (t div u) = Some v" and "- (2 ^ 63) \<le> v * u" and "v * u < 2 ^ 63"
  shows "getDateTruncConstantValue t f True unit = Some (v * u)"
  using assms floor_div_unit [OF assms(4)] by (cases unit) (auto simp: getDateTruncConstantValue_def chk64_def)

lemma extract_constant_field:
  assumes "unitsPerSecond unit = Some u" and "\<not> is_subsecond_extract_field f" and "unit_range t"
  shows "getExtractFromTimeConstantValue t f True unit = ExtractFromTime f (t div u)"
  using assms floor_div_unit [OF assms(3)] by (cases unit) (auto simp: getExtractFromTimeConstantValue_def)

section \<open>Scaling between units\<close>

lemma sdiv_mult_self: "0 < k \<Longrightarrow> (a * k) sdiv k = (a :: int)"
  by (cases "0 \<le> a") (simp_all add: sdiv_nonneg sdiv_neg mult_neg_pos flip: mult_minus_left)

lemma scale_epoch_up_eq: "0 < k \<Longrightarrow> scale_epoch_up epoch k = chk64 (epoch * k)"
  by (simp add: scale_epoch_up_def chk64_def sdiv_mult_self)

end
