(* ===== verification/Date_Claims.thy ===== *)
theory Date_Claims
  imports Date_Week_Props
begin

text \<open>
  The properties of the date and time functions: extraction, truncation, addition and difference
  agree with the Gregorian calendar on every time whose division by the length of a day does not
  overflow, on the fast paths for 1970 to 2036 as on the general ones.
\<close>

section \<open>Extraction\<close>

lemma time_has_date: "\<exists>y m d. civil_time y m d (t mod kSecsPerDay) t"
proof -
  define day where "day = t div 86400"
  define moy where "moy = (5 * doy_of day + 2) div 153"
  obtain y m where "date_of_march (2000 + 400 * era_of day + yoe_of day) moy = (y, m)" by fastforce
  from march_date [OF march_year_of_day this [unfolded moy_def], folded moy_def]
  have "civil_time y m (doy_of day - march_month_start moy + 1) (t mod 86400) t"
    by (simp add: civil_time_def day_def)
  then show ?thesis by blast
qed

lemma civil_clock:
  assumes "civil_time y m d s t"
  shows "extract_hour t = s div 3600" and "extract_minute t = s mod 3600 div 60" and "extract_second t = s mod 60"
    and "t mod 86400 = s"
proof -
  note c = civil_timeD [OF assms]
  have m: "t mod k = s mod k" if "k dvd 86400" for k
  proof -
    have "k dvd 86400 * day_number y m d" using that by simp
    then obtain q where "86400 * day_number y m d = k * q" by (rule dvdE)
    then show ?thesis using c(4) by simp
  qed
  have "t mod 86400 = s" "t mod 3600 = s mod 3600" "t mod 60 = s mod 60" using m [of 86400] m [of 3600] m [of 60] c(2,3) by simp_all
  moreover have "0 \<le> s mod 3600" by simp
  ultimately show "extract_hour t = s div 3600" "extract_minute t = s mod 3600 div 60" "extract_second t = s mod 60" "t mod 86400 = s"
    using c(2) by (simp_all add: extract_hour_def extract_minute_def extract_second_def unsigned_mod_eq sdiv_nonneg)
qed

lemma civil_weekday:
  assumes "civil_time y m d s t" and "time_in_range t"
  shows "extract_dow t = Some ((day_number y m d + 4) mod 7)" and "extract_isodow t = Some ((day_number y m d + 3) mod 7 + 1)"
    and "extract_dateepoch t = Some (kSecsPerDay * day_number y m d)"
  using civil_floor_div_day [OF assms] civil_clock(4) [OF assms(1)] civil_timeD [OF assms(1)] assms(2)
  by (simp_all add: extract_dow_def extract_isodow_def extract_dateepoch_def unsigned_mod_eq chk64_def time_in_range_def)

text \<open>
  C8. \<open>ExtractFromTime\<close> returns the date of the calendar: every time is a second of a day with a
  valid date, and for the time of second \<open>s\<close> of the day \<open>y\<close>-\<open>m\<close>-\<open>d\<close> it returns these numbers, the
  quarter, the day of the year and of the week, and the hour, minute and second, with the 32-bit
  path for the years 1970 to 2036 and with the general path.
\<close>

theorem extract_civil_date:
  assumes "time_in_range t"
  shows "(\<exists>y m d s. civil_time y m d s t) \<and>
    (\<forall>y m d s. civil_time y m d s t \<longrightarrow>
       ExtractFromTime DateExtractField.kYear t = Some y \<and> ExtractFromTime DateExtractField.kMonth t = Some m \<and> ExtractFromTime DateExtractField.kDay t = Some d \<and>
       ExtractFromTime DateExtractField.kQuarter t = Some ((m - 1) div 3 + 1) \<and>
       ExtractFromTime DateExtractField.kDayOfYear t = Some (days_before_month y m + d) \<and>
       ExtractFromTime DateExtractField.kDayOfWeek t = Some ((day_number y m d + 4) mod 7) \<and>
       ExtractFromTime DateExtractField.kIsoDayOfWeek t = Some ((day_number y m d + 3) mod 7 + 1) \<and>
       ExtractFromTime DateExtractField.kDateEpoch t = Some (kSecsPerDay * day_number y m d) \<and>
       ExtractFromTime DateExtractField.kHour t = Some (s div 3600) \<and> ExtractFromTime DateExtractField.kMinute t = Some (s mod 3600 div 60) \<and>
       ExtractFromTime DateExtractField.kSecond t = Some (s mod 60))"
  using time_has_date [of t] extract_year_date [OF _ assms] extract_month_date [OF _ assms] extract_day_date [OF _ assms]
    extract_quarter_date [OF _ assms] extract_day_of_year_date [OF _ assms] civil_weekday [OF _ assms] civil_clock
  by (intro conjI allI impI) (blast | simp)+

lemmas civil_eval = civil_time_def valid_date_def days_in_month_def leap_year_def day_number_def days_before_year_def
  leap_years_to_def days_before_month_eval time_in_range_def

theorem extract_civil_date_witness:
  "time_in_range 951868799 \<and> time_in_range (- 11670912001) \<and>
   ExtractFromTime DateExtractField.kYear 951868799 = Some 2000 \<and> ExtractFromTime DateExtractField.kMonth 951868799 = Some 2 \<and>
   ExtractFromTime DateExtractField.kDay 951868799 = Some 29 \<and> ExtractFromTime DateExtractField.kHour 951868799 = Some 23 \<and>
   ExtractFromTime DateExtractField.kYear (- 11670912001) = Some 1600 \<and> ExtractFromTime DateExtractField.kDayOfYear (- 11670912001) = Some 60"
proof -
  have r: "time_in_range 951868799" "time_in_range (- 11670912001)" by (simp_all add: civil_eval)
  have "civil_time 2000 2 29 86399 951868799" "civil_time 1600 2 29 86399 (- 11670912001)" by (simp_all add: civil_eval)
  then show ?thesis
    using extract_civil_date [OF r(1)] extract_civil_date [OF r(2)] r by (simp add: days_before_month_eval)
qed

section \<open>Truncation\<close>

fun period_first :: "DateTruncField \<Rightarrow> int \<Rightarrow> int \<Rightarrow> (int \<times> int) option" where
  "period_first DateTruncField.kMonth y m = Some (y, m)"
| "period_first DateTruncField.kQuarter y m = Some (y, 3 * ((m - 1) div 3) + 1)"
| "period_first DateTruncField.kYear y m = Some (y, 1)"
| "period_first DateTruncField.kDecade y m = Some (y - y mod 10, 1)"
| "period_first DateTruncField.kCentury y m = Some (y - (y - 1) mod 100, 1)"
| "period_first DateTruncField.kMillennium y m = Some (y - (y - 1) mod 1000, 1)"
| "period_first _ y m = None"

text \<open>
  C12. \<open>DateTruncate\<close> to a month, quarter, year, decade, century or millennium returns the first
  second of that period of the calendar, on the fast and on the general paths; decades begin with
  the years divisible by ten, centuries and millennia one year later.
\<close>

theorem date_truncate_period:
  assumes "civil_time y m d s t" and "time_in_range t" and "period_first field y m = Some (y', m')"
    and "- (2 ^ 63) \<le> kSecsPerDay * day_number y' m' 1"
  shows "DateTruncate field t = Some (kSecsPerDay * day_number y' m' 1)"
  using assms(3,4) datetrunc_month_date [OF assms(1,2)] datetrunc_quarter_date [OF assms(1,2)] datetrunc_year_date [OF assms(1,2)]
    datetrunc_decade_date [OF assms(1,2)] datetrunc_century_date [OF assms(1,2)] datetrunc_millennium_date [OF assms(1,2)]
  by (cases field) (auto simp: day_number_jan1)

theorem date_truncate_period_witness:
  "DateTruncate DateTruncField.kCentury 951868799 = Some (kSecsPerDay * day_number 1901 1 1) \<and>
   DateTruncate DateTruncField.kQuarter 951868799 = Some 946684800 \<and>
   DateTruncate DateTruncField.kDecade (- 11670912001) = Some (kSecsPerDay * day_number 1600 1 1)"
proof -
  have c: "civil_time 2000 2 29 86399 951868799" "civil_time 1600 2 29 86399 (- 11670912001)"
    and r: "time_in_range 951868799" "time_in_range (- 11670912001)" by (simp_all add: civil_eval)
  show ?thesis
    using date_truncate_period [OF c(1) r(1), of DateTruncField.kCentury 1901 1]
      date_truncate_period [OF c(1) r(1), of DateTruncField.kQuarter 2000 1]
      date_truncate_period [OF c(2) r(2), of DateTruncField.kDecade 1600 1]
    by (simp add: civil_eval)
qed

section \<open>Weeks\<close>

text \<open>
  C15. With weeks from Monday, Sunday or Saturday, \<open>DateTruncate\<close> returns the first second of the
  last such day on or before the time, and \<open>ExtractFromTime\<close> the number of the week in the year to
  which the week belongs, where the first week of a year is the one with 4 January in it (for
  Monday, the week of ISO 8601).
\<close>

theorem weeks_of_date:
  assumes "(off, part, field) \<in> {(3, DateExtractField.kWeek, DateTruncField.kWeek), (4, DateExtractField.kWeekSunday, DateTruncField.kWeekSunday),
      (5, DateExtractField.kWeekSaturday, DateTruncField.kWeekSaturday)}"
    and "civil_time y m d s t" and "time_in_range t" and "t < 2 ^ 63 - 5 * kSecsPerDay"
    and "- (2 ^ 63) \<le> kSecsPerDay * (day_number y m d - (day_number y m d + off) mod 7)"
    and "week_one off z \<le> day_number y m d" and "day_number y m d < week_one off (z + 1)"
  shows "DateTruncate field t = Some (kSecsPerDay * (day_number y m d - (day_number y m d + off) mod 7)) \<and>
    ExtractFromTime part t = Some ((day_number y m d - week_one off z) div 7 + 1)"
proof -
  have off: "3 \<le> off" "off \<le> 5" "0 \<le> off" using assms(1) by auto
  have "t + kSecsPerDay * off < 2 ^ 63" using assms(4) off by simp
  from datetrunc_week_date [OF assms(2,3) off(3) this assms(5)] extract_week_date [OF assms(2,3) off(1,2) assms(6,7)]
  show ?thesis using assms(1) by auto
qed

theorem weeks_of_date_witness:
  "DateTruncate DateTruncField.kWeek 1609459200 = Some 1609113600 \<and> ExtractFromTime DateExtractField.kWeek 1609459200 = Some 53"
proof -
  have c: "civil_time 2021 1 1 0 1609459200" and r: "time_in_range 1609459200" by (simp_all add: civil_eval)
  show ?thesis
    using weeks_of_date [OF _ c r, of 3 DateExtractField.kWeek DateTruncField.kWeek 2020] by (simp add: civil_eval week_one_def)
qed

section \<open>Addition\<close>

text \<open>
  C13. \<open>DateAdd\<close> of months, quarters, years, decades, centuries or millennia moves the date by that
  number of months, keeps the time of the day, and keeps the day of the month or, when the month
  that is reached is shorter, takes its last day.
\<close>

theorem date_add_months:
  fixes number :: int
  assumes "civil_time y m d s t" and "time_in_range t" and "months_of_field field = Some k"
  defines "n \<equiv> month_number y m + number * k"
  defines "y' \<equiv> n div 12" and "m' \<equiv> n mod 12 + 1"
  assumes "time_in_range (kSecsPerDay * day_number y' m' (min d (days_in_month y' m')) + s)"
  shows "DateAdd field number t = Some (kSecsPerDay * day_number y' m' (min d (days_in_month y' m')) + s) \<and>
    civil_time y' m' (min d (days_in_month y' m')) s (kSecsPerDay * day_number y' m' (min d (days_in_month y' m')) + s)"
proof
  have e: "clamped_time n d s = kSecsPerDay * day_number y' m' (min d (days_in_month y' m')) + s"
    by (simp add: clamped_time_def Let_def y'_def m'_def)
  show "DateAdd field number t = Some (kSecsPerDay * day_number y' m' (min d (days_in_month y' m')) + s)"
    using add_months_date [OF assms(1,2), of number k] DateAdd_months [OF assms(3)] assms(7) by (simp add: n_def [symmetric] e)
  show "civil_time y' m' (min d (days_in_month y' m')) s (kSecsPerDay * day_number y' m' (min d (days_in_month y' m')) + s)"
    using civil_timeD [OF assms(1)] days_in_month_bounds(1) [of y' m'] pos_mod_bound [of 12 n] pos_mod_sign [of 12 n]
    by (simp add: civil_time_def valid_date_def m'_def)
qed

theorem date_add_months_witness:
  "DateAdd DateAddField.kMonth 1 (kSecsPerDay * day_number 2024 1 31 + 5) = Some (kSecsPerDay * day_number 2024 2 29 + 5) \<and>
   DateAdd DateAddField.kYear (- 1) (kSecsPerDay * day_number 2024 2 29) = Some (kSecsPerDay * day_number 2023 2 28)"
proof -
  have c: "civil_time 2024 1 31 5 (kSecsPerDay * day_number 2024 1 31 + 5)" "civil_time 2024 2 29 0 (kSecsPerDay * day_number 2024 2 29)"
    and r: "time_in_range (kSecsPerDay * day_number 2024 1 31 + 5)" "time_in_range (kSecsPerDay * day_number 2024 2 29)"
    by (simp_all add: civil_eval)
  show ?thesis
    using date_add_months [OF c(1) r(1), of DateAddField.kMonth 1 1] date_add_months [OF c(2) r(2), of DateAddField.kYear 12 "- 1"]
    by (simp add: civil_eval month_number_def)
qed

section \<open>Difference\<close>

text \<open>
  C14. \<open>DateDiff\<close> in months, quarters, years, decades, centuries or millennia is the number of whole
  units from the earlier to the later time, where a month is complete when the day of the month
  and the time of the day are reached again; it changes its sign with the order of the times.
\<close>

theorem date_diff_whole_units:
  assumes "civil_time y m d s t" and "time_in_range t" and "civil_time y' m' d' s' t'" and "time_in_range t'" and "t \<le> t'"
    and "months_of_part part = Some k"
  defines "months \<equiv> month_number y' m' - month_number y m - of_bool (kSecsPerDay * (d' - 1) + s' < kSecsPerDay * (d - 1) + s)"
  shows "0 \<le> months \<and> DateDiff part t t' = Some (months div k) \<and> DateDiff part t' t = Some (- (months div k))"
  using DateDiff_ordered [OF assms(1-6)] by (simp add: months_def months_between_def)

theorem date_diff_whole_units_witness:
  "DateDiff DateTruncField.kMonth (kSecsPerDay * day_number 2023 1 31) (kSecsPerDay * day_number 2024 3 30) = Some 13 \<and>
   DateDiff DateTruncField.kYear (kSecsPerDay * day_number 2024 3 30) (kSecsPerDay * day_number 2023 1 31) = Some (- 1)"
proof -
  have c: "civil_time 2023 1 31 0 (kSecsPerDay * day_number 2023 1 31)" "civil_time 2024 3 30 0 (kSecsPerDay * day_number 2024 3 30)"
    and r: "time_in_range (kSecsPerDay * day_number 2023 1 31)" "time_in_range (kSecsPerDay * day_number 2024 3 30)"
    and o: "kSecsPerDay * day_number 2023 1 31 \<le> kSecsPerDay * day_number 2024 3 30" by (simp_all add: civil_eval)
  show ?thesis
    using date_diff_whole_units [OF c(1) r(1) c(2) r(2) o, of DateTruncField.kMonth 1]
      date_diff_whole_units [OF c(1) r(1) c(2) r(2) o, of DateTruncField.kYear 12]
    by (simp add: month_number_def)
qed

section \<open>Times of a finer unit\<close>

fun seconds_of_part :: "DateTruncField \<Rightarrow> int option" where
  "seconds_of_part DateTruncField.kSecond = Some 1"
| "seconds_of_part DateTruncField.kMinute = Some 60"
| "seconds_of_part DateTruncField.kHour = Some 3600"
| "seconds_of_part DateTruncField.kQuarterDay = Some 21600"
| "seconds_of_part DateTruncField.kDay = Some 86400"
| "seconds_of_part DateTruncField.kWeek = Some 604800"
| "seconds_of_part DateTruncField.kWeekSunday = Some 604800"
| "seconds_of_part DateTruncField.kWeekSaturday = Some 604800"
| "seconds_of_part _ = None"

lemma sdiv_one: "a sdiv 1 = (a :: int)"
  by (simp add: signed_divide_int_def sgn_mult_abs)

lemma DateDiff_seconds:
  assumes "seconds_of_part part = Some k" and "- (2 ^ 63) \<le> t' - t" and "t' - t < 2 ^ 63"
  shows "DateDiff part t t' = Some ((t' - t) sdiv k)"
  using assms by (cases part) (auto simp: DateDiff_def chk64_def sdiv_one)

lemma div_by_parts:
  assumes "0 < G" "0 \<le> f" "f < G" "0 < (k :: int)"
  shows "(D * G + f) div (k * G) = D div k"
  using zdiv_zmult2_eq [of k "D * G + f" G] assms by (simp add: mult.commute [of k G])

lemma whole_seconds_adjusted:
  fixes A B :: int
  assumes G: "0 < (G :: int)" and k: "0 < k" and fa: "0 \<le> fa" "fa < G" and fb: "0 \<le> fb" "fb < G"
  defines "D \<equiv> B - A"
  defines "adj \<equiv> (if 0 < D \<and> fb - fa < 0 then - 1 else if D < 0 \<and> 0 < fb - fa then 1 else 0)"
  shows "(D + adj) sdiv k = (B * G + fb - (A * G + fa)) sdiv (k * G)"
proof -
  define X where "X = B * G + fb - (A * G + fa)"
  have X: "X = D * G + (fb - fa)" by (simp add: X_def D_def algebra_simps)
  have kG: "0 < k * G" using G k by simp
  have up: "(n + a) sdiv k = Y sdiv (k * G)" if "0 < n" "Y = n * G + f" "- G < f" "f < G" "a = (if f < 0 then - 1 else 0)" for n Y f a
  proof -
    define f' where "f' = (if f < 0 then G + f else f)"
    have f': "Y = (n + a) * G + f'" "0 \<le> f'" "f' < G" "0 \<le> n + a" using that by (auto simp: f'_def algebra_simps)
    then have "0 \<le> Y" using G by simp
    then show ?thesis using f' kG div_by_parts [OF G f'(2,3) k] by (simp add: sdiv_nonneg k)
  qed
  have neg: "(- a) sdiv b = - (a sdiv b)" for a b :: int by (cases "a = 0") (simp_all add: signed_divide_int_def sgn_minus)
  consider "0 < D" | "D < 0" | "D = 0" by linarith
  then show ?thesis
    unfolding X_def [symmetric]
  proof cases
    case 1
    then have "adj = (if fb - fa < 0 then - 1 else 0)" by (simp add: adj_def)
    from up [OF 1 X _ _ this] show "(D + adj) sdiv k = X sdiv (k * G)" using fa fb by simp
  next
    case 2
    then have a: "- adj = (if fa - fb < 0 then - 1 else 0)" by (simp add: adj_def)
    have x: "- X = - D * G + (fa - fb)" using X by simp
    have "(- D + - adj) sdiv k = (- X) sdiv (k * G)" using up [OF _ x _ _ a] 2 fa fb by simp
    then show "(D + adj) sdiv k = X sdiv (k * G)" using neg [of "D + adj" k] neg [of X "k * G"] by (simp add: algebra_simps)
  next
    case 3
    then have "X = fb - fa" "G \<le> k * G" using X G k by simp_all
    then have "\<bar>X\<bar> < k * G" using fa fb by linarith
    then have "\<bar>X\<bar> div \<bar>k * G\<bar> = 0" using kG by (intro div_pos_pos_trivial) (simp_all only: abs_of_pos abs_ge_zero)
    then have "X sdiv (k * G) = 0" by (simp only: signed_divide_int_def mult_zero_right)
    then show "(D + adj) sdiv k = X sdiv (k * G)" using 3 by (simp add: adj_def signed_divide_int_def)
  qed
qed

lemma dim_scales:
  assumes "dim \<in> {0, 3, 6, 9 :: int}"
  obtains p q where "pow10_at dim = Some p" "pow10_at (9 - dim) = Some q" "0 < p" "0 < q" "p * q = 1000000000"
    "p = 10 ^ nat dim" "q = 10 ^ nat (9 - dim)"
  using assms by (auto simp: pow10_at_def)

lemma div_bounds_62:
  assumes "0 < (b :: int)" and "- (2 ^ 62) \<le> a" and "a < 2 ^ 62"
  shows "- (2 ^ 62) \<le> a div b" and "a div b < 2 ^ 62"
  using assms div_self_bound [of a b] zdiv_mono2_neg [of a 1 b] pos_imp_zdiv_neg_iff [OF assms(1), of a] by (cases "0 \<le> a"; simp)+

lemma unit_parts:
  assumes "0 < p" "0 < q" "p * q = (1000000000 :: int)" and "- (2 ^ 62) \<le> a" and "a < 2 ^ 62"
  shows "floor_div a p = Some (a div p)" and "a - a div p * p = a mod p" and "0 \<le> a mod p * q" and "a mod p * q < 1000000000"
    and "a * q = a div p * 1000000000 + a mod p * q" and "to_i32 (a mod p * q) = a mod p * q"
proof -
  have "1 * p \<le> p * q" using mult_left_mono [of 1 q p] assms(1,2) by simp
  then have "p \<le> 1000000000" using assms(3) by simp
  then show "floor_div a p = Some (a div p)" using floor_div_eq [of p a] assms by simp
  show "a - a div p * p = a mod p" by (simp add: minus_div_mult_eq_mod)
  show n: "0 \<le> a mod p * q" using assms(1,2) by simp
  have "a mod p + 1 \<le> p" using pos_mod_bound [OF assms(1), of a] by linarith
  then have "(a mod p + 1) * q \<le> p * q" using assms(2) by (intro mult_right_mono) simp_all
  then show u: "a mod p * q < 1000000000" using assms(2,3) by (simp add: distrib_right)
  have "a * q = (a div p * p + a mod p) * q" by simp
  also have "\<dots> = a div p * (p * q) + a mod p * q" by (simp only: distrib_right mult.assoc)
  finally show "a * q = a div p * 1000000000 + a mod p * q" by (simp only: assms(3))
  show "to_i32 (a mod p * q) = a mod p * q" using n u by simp
qed

text \<open>
  C38. For units from seconds to weeks \<open>DateDiffHighPrecision\<close> is the exact difference of two
  timestamps of any two of the units second, millisecond, microsecond and nanosecond, divided by the
  length of the unit and rounded towards zero: the fractions of a second are accounted for.
\<close>

theorem date_diff_high_precision_exact:
  assumes "seconds_of_part part = Some k" and "start_dim \<in> {0, 3, 6, 9}" and "end_dim \<in> {0, 3, 6, 9}"
    and "- (2 ^ 62) \<le> startdate" and "startdate < 2 ^ 62" and "- (2 ^ 62) \<le> enddate" and "enddate < 2 ^ 62"
  shows "DateDiffHighPrecision part startdate enddate start_dim end_dim
    = Some ((enddate * 10 ^ nat (9 - end_dim) - startdate * 10 ^ nat (9 - start_dim)) sdiv (k * 10 ^ 9))"
proof -
  obtain pa qa where a: "pow10_at start_dim = Some pa" "pow10_at (9 - start_dim) = Some qa" "0 < pa" "0 < qa" "pa * qa = 1000000000"
    "pa = 10 ^ nat start_dim" "qa = 10 ^ nat (9 - start_dim)" using dim_scales [OF assms(2)] .
  obtain pb qb where b: "pow10_at end_dim = Some pb" "pow10_at (9 - end_dim) = Some qb" "0 < pb" "0 < qb" "pb * qb = 1000000000"
    "pb = 10 ^ nat end_dim" "qb = 10 ^ nat (9 - end_dim)" using dim_scales [OF assms(3)] .
  note ua = unit_parts [OF a(3-5) assms(4,5)] and ub = unit_parts [OF b(3-5) assms(6,7)]
  define A B where "A = startdate div pa" and "B = enddate div pb"
  define fa fb where "fa = startdate mod pa * qa" and "fb = enddate mod pb * qb"
  define adj where "adj = (if 0 < B - A \<and> fb - fa < 0 then - 1 else if B - A < 0 \<and> 0 < fb - fa then 1 else (0 :: int))"
  have f: "0 \<le> fa" "fa < 1000000000" "0 \<le> fb" "fb < 1000000000" using ua(3,4) ub(3,4) by (simp_all add: fa_def fb_def)
  have ab: "- (2 ^ 62) \<le> A" "A < 2 ^ 62" "- (2 ^ 62) \<le> B" "B < 2 ^ 62"
    using div_bounds_62 [OF a(3) assms(4,5)] div_bounds_62 [OF b(3) assms(6,7)] by (simp_all add: A_def B_def)
  have k: "0 < k" and ns: "\<not> (part = DateTruncField.kNano \<or> part = DateTruncField.kMicro \<or> part = DateTruncField.kMilli)"
    using assms(1) by (cases part; auto)+
  have "DateDiffHighPrecision part startdate enddate start_dim end_dim = DateDiff part A (B + adj)"
    using ns a(1,2) b(1,2) ua ub f ab
    by (simp add: DateDiffHighPrecision_def Let_def chk64_def adj_def flip: A_def B_def fa_def fb_def)
  moreover have "\<dots> = Some ((B - A + adj) sdiv k)"
    using DateDiff_seconds [OF assms(1), of "B + adj" A] ab by (simp add: adj_def algebra_simps)
  moreover have "(B - A + adj) sdiv k = (B * 1000000000 + fb - (A * 1000000000 + fa)) sdiv (k * 1000000000)"
    using whole_seconds_adjusted [OF _ k f, of B A] by (simp add: adj_def)
  moreover have "B * 1000000000 + fb = enddate * qb" "A * 1000000000 + fa = startdate * qa"
    using ua(5) ub(5) by (simp_all add: A_def B_def fa_def fb_def)
  ultimately show ?thesis using a(7) b(7) by simp
qed

theorem date_diff_high_precision_exact_witness:
  "DateDiffHighPrecision DateTruncField.kSecond 1999 3000000 3 6 = Some 1 \<and>
   DateDiffHighPrecision DateTruncField.kMinute 60001 0 3 0 = Some (- 1)"
  using date_diff_high_precision_exact [of DateTruncField.kSecond 1 3 6 1999 3000000]
    date_diff_high_precision_exact [of DateTruncField.kMinute 60 3 0 60001 0]
  by (simp add: signed_divide_int_def)


text \<open>
  C40. On constant timestamps with \<open>u\<close> units in a second, \<open>EXTRACT\<close> of the milliseconds,
  microseconds or nanoseconds (\<open>p\<close> in a second) gives their exact number in the minute, the other
  fields are those of the whole second before the time, also before 1970, and \<open>DATE_TRUNC\<close> to a
  second or a part of it removes exactly the finer part.
\<close>

theorem finer_unit_constants:
  assumes "unitsPerSecond unit = Some u" and "unit_range t"
  shows "(\<forall>f p. get_extract_timestamp_precision_scale f = Some p \<and> - (2 ^ 63) \<le> t * p div u \<and> t * p div u < 2 ^ 63 \<longrightarrow>
       getExtractFromTimeConstantValue t f True unit = Some (t * p div u mod (60 * p))) \<and>
    (\<forall>f. \<not> is_subsecond_extract_field f \<longrightarrow> getExtractFromTimeConstantValue t f True unit = ExtractFromTime f (t div u)) \<and>
    (\<forall>f p. trunc_resolution f = Some p \<longrightarrow>
       getDateTruncConstantValue t f True unit = Some (if p < u then t - t mod (u div p) else t))"
  using extract_constant_subsecond [OF assms(1) _ assms(2)] extract_constant_field [OF assms(1) _ assms(2)]
    trunc_constant_subsecond [OF assms(1) _ assms(2)] by blast

theorem finer_unit_constants_witness:
  "getExtractFromTimeConstantValue (- 1) DateExtractField.kMilli True TimeUnit.kNano = Some 59999 \<and>
   getExtractFromTimeConstantValue (- 1) DateExtractField.kSecond True TimeUnit.kNano = Some 59 \<and>
   getDateTruncConstantValue (- 1) DateTruncField.kMilli True TimeUnit.kNano = Some (- 1000000)"
proof -
  have r: "unit_range (- 1)" by (simp add: unit_range_def)
  have f: "unitsPerSecond TimeUnit.kNano = Some 1000000000" by simp
  note F = finer_unit_constants [OF f r]
  show ?thesis
    using F [THEN conjunct1, rule_format, of DateExtractField.kMilli 1000]
      F [THEN conjunct2, THEN conjunct1, rule_format, of DateExtractField.kSecond]
      F [THEN conjunct2, THEN conjunct2, rule_format, of DateTruncField.kMilli 1000]
    by (simp add: is_subsecond_extract_field_def extract_second_def unsigned_mod_eq)
qed

end
