(* ===== verification/Spec2Isabelle.thy ===== *)
theory Spec2Isabelle
  imports Buffer_Mgr_Props Perfect_Hash_Claims Group_Variant_Claims Layout_Claims Agg_Claims Date_Claims
begin

text \<open>
  \<^bold>\<open>A verification library of HDK\<close>

  HDK executes analytical queries over columnar tables in memory.  A query runs in these steps:
  the columns are brought into a pool of buffers, hash tables are built for the inner sides of its
  joins, a compiled function is run for every row of every fragment, which probes the join tables,
  finds the group of the row in an output buffer and updates the aggregates of the group, and a
  result set reads the output buffer.  This library models the parts of that path that are
  ordinary code under \<open>src/omniscidb\<close>: the buffer pool, the column decoders, the perfect-hash
  join tables, the group-by runtime, the layout and the initialisation of the output buffer, and
  the null-aware operators and aggregates and the date and time functions that the compiled
  function calls.

  \<^bold>\<open>Conventions.\<close>  A C++ class is a record and a method a function from the state to a result
  and the new state.  Exceptions, failed \<open>CHECK\<close>s and undefined behaviour (an access outside a
  buffer, a signed overflow, a division by zero) are values of an error type or \<open>None\<close>, so that a
  theorem that a call returns a value also says that it does none of this.  Pointers into a
  buffer are offsets; widths are kept where they matter (\<open>u8\<close>, \<open>u32\<close>, \<open>u64\<close> are words, a signed
  value is an integer of its range).  Threads are sequences of atomic steps that a schedule
  interleaves, and theorems hold for every schedule.  The loops of the code are total functions
  with a termination proof; no definition uses fuel, apart from schedules, which are lists of
  choices that are completed when they are too short.

  \<^bold>\<open>Foundations.\<close>  \<open>HDK_Prelude\<close> has the shared lemmas on lists, words and division.
  \<open>Thread_Sched\<close> models threads, \<open>Byte_Memory\<close> byte buffers with reads and writes of ranges.
  \<open>Probe_Table\<close> is linear probing: the loop of the lookups, its variant with a watchdog, the
  abstract lookup-or-insert \<open>find_or_insert\<close> and the locale \<open>probe_table\<close>, the interface of a table
  that tries one slot at a time, with the theorems about lookups, insertions and sequences of keys.

  \<^bold>\<open>The buffer pool\<close> (\<open>DataMgr/BufferMgr\<close>).  \<open>Slab_Segments\<close> models the segments of a slab,
  \<open>Buffer_Mgr\<close> the classes \<open>BufferMgr\<close> and \<open>Buffer\<close> with creation, growth, eviction, reading,
  writing, appending, deletion and clearing; a segment has an identity, as a list iterator has.
  \<open>Buffer_Mgr_Inv\<close>, \<open>Buffer_Ops_Inv\<close>, \<open>Buffer_Reserve_Inv\<close>, \<open>Buffer_Create_Inv\<close>,
  \<open>Buffer_Create_Spec\<close>, \<open>Buffer_Chunks\<close> and \<open>Buffer_Data\<close> prove what each operation does
  and that it keeps the invariant (the segments of a slab tile its pages, every chunk of the index
  has a segment and a buffer that point to each other, and so on).  \<open>Buffer_Steps\<close> is the step
  relation of all operations a client can call, and \<open>Buffer_Mgr_Props\<close> has the properties: the invariant
  holds in every reachable state, creation gives a chunk with room or leaves every pinned chunk
  alone, chunks do not overlap in memory, what is written is read back and other chunks keep
  their bytes, eviction takes the cheapest run of segments, and three situations in
  which the pool misbehaves.

  \<^bold>\<open>Join tables\<close> (\<open>QueryEngine/JoinHashTable\<close>, \<open>DecodersImpl.h\<close>).  \<open>Decoders\<close> has the
  fixed-width decoders, \<open>Join_Column\<close> the chunked columns and their iterators, \<open>Perfect_Hash\<close>
  the functions of \<open>HashJoinRuntime.cpp\<close>, \<open>JoinHashImpl.h\<close>, \<open>PerfectHashTableBuilder.h\<close> and
  \<open>PerfectJoinHashTable.cpp\<close> that choose, build and probe a perfect-hash table with several threads.
  \<open>Perfect_Hash_Build\<close>, \<open>Row_Binning\<close>, \<open>Perfect_Hash_Slots\<close>, \<open>Perfect_Hash_Probe\<close> and
  \<open>Perfect_Hash_Props\<close> prove the phases correct; \<open>Perfect_Hash_Claims\<close> states that a join with a
  built table emits exactly the matching pairs of rows, for every layout, number of
  threads and schedule, and two situations in which it does not.

  \<^bold>\<open>Group-by\<close> (\<open>GroupByRuntime.cpp\<close>, \<open>RuntimeFunctions.cpp\<close>, \<open>MurmurHash\<close>).  \<open>Murmur_Hash\<close> has
  the hash functions, \<open>Group_By\<close> the runtime functions over byte buffers, row-wise, columnar and
  for perfect hashes.  \<open>Group_By_Tables\<close> interprets \<open>probe_table\<close> on the three hashed layouts
  and shows that the runtime functions are its lookup.  \<open>Output_Layout\<close> and \<open>Output_Layout_Props\<close> model
  \<open>Descriptors/ColSlotContext\<close> and the offsets of \<open>QueryMemoryDescriptor\<close>; \<open>Group_Init\<close>,
  \<open>Group_Init_Props\<close> and \<open>Group_Init_Vec\<close> model \<open>QueryMemoryInitializer::initRowGroups\<close> with its vectorised
  path; \<open>Agg_Functions\<close> and \<open>Agg_Props\<close> the operators and aggregates; \<open>Group_Query\<close> puts them
  together.  \<open>Group_By_Claims\<close>, \<open>Group_Variant_Claims\<close>, \<open>Layout_Claims\<close> and \<open>Agg_Claims\<close> state the
  properties: a grouped aggregate is computed correctly from an uninitialised buffer, lookups
  refine \<open>find_or_insert\<close> and report a full table exactly when it is full, the layouts agree,
  the watchdog does no harm, slots do not overlap, all paths of the initialisation agree, aggregates
  are those of the values that are not null, and the cases where a key or a partial sum meets
  a reserved value.

  \<^bold>\<open>Dates and times\<close> (\<open>ExtractFromTime\<close>, \<open>DateTruncate.cpp\<close>, \<open>DateAdd.cpp\<close>, \<open>DateTimeUtils.h\<close>,
  \<open>DateTimeTranslator.h\<close>).  \<open>Date_Time\<close>, \<open>Date_Trunc\<close>, \<open>Date_Add\<close> and \<open>Date_Utils\<close> have the functions,
  with the 32-bit arithmetic of their fast paths and the overflow of the 64-bit ones.  \<open>Calendar\<close>
  is the specification, the Gregorian calendar as a numbering of days.  \<open>Date_Props\<close> shows that
  the arithmetic in eras of 400 years computes it, \<open>Date_Fast\<close> the same of the arithmetic in cycles of
  four years, and \<open>Date_Extract_Props\<close>, \<open>Date_Trunc_Props\<close>, \<open>Date_Month_Props\<close>, \<open>Date_Diff_Props\<close> and
  \<open>Date_Week_Props\<close> go through the operations.  \<open>Date_Claims\<close> states that extraction returns the date
  and truncation the first second of a period of the calendar, that adding months moves the date and
  clamps the day, that differences count whole units, that weeks are those of the year with 4 January
  in them, that timestamps of finer units are treated exactly, and the end of a month at which a
  difference with fractions of a second is wrong.  These hold for all times but the last day of
  seconds above the smallest 64-bit integer, where the division overflows.

  \<^bold>\<open>Assumptions\<close> are hypotheses of the theorems: the allocator of the operating system is a
  parameter of the pool (its slabs do not overlap), the watchdog is any function of the number of its
  calls, keys of group-by tables do not begin with the mark of an empty entry, and sizes fit
  the integer types in which the code keeps them.

  \<^bold>\<open>Not modelled.\<close>  Code that generates code (\<open>NativeCodegen\<close>, \<open>RowFuncBuilder\<close>, the reduction of
  result sets) and what it generates, beyond the functions it calls; the translation of plans
  (\<open>RelAlgExecutor\<close>, Calcite) and the intermediate representation; GPU code; floating-point
  versions of the operators; Arrow storage, string dictionaries and files; the baseline join
  tables; sorting and reading of result sets.
\<close>

end
